(* ===== verification/Prelude.thy ===== *)
theory Prelude
  imports Complex_Main "HOL-Library.Word"
begin

text \<open>
  Shared vocabulary of the development: the numeric types of \<open>include/nr_bb/types.hpp\<close>, the
  exceptions of the program as values, the \<open>require\<close> guard, and the generic lemmas on lists and
  words that the component theories share.

  \<^item> \<open>std::uint8_t\<close>, \<open>std::uint16_t\<close>, \<open>std::uint32_t\<close> and \<open>std::uint64_t\<close> are words of
    that width.
  \<^item> \<open>std::size_t\<close> is \<open>nat\<close> and \<open>int\<close> is \<open>int\<close>; where a conversion or an
    operation can leave the range of the C++ type the model says so at that place.
  \<^item> \<open>double\<close> is \<open>real\<close> (exact arithmetic, no rounding). Where the code uses the infinity
    of \<open>double\<close> as a value the model uses the type \<open>dbl\<close> of theory \<open>Dbl\<close>.
  \<^item> An exception is an \<open>Inl\<close>. A use of an index outside a vector, which is undefined
    behaviour in C++, is the exception \<open>Undefined\<close>, so that a theorem can state its absence.
\<close>

unbundle bit_operations_syntax

section \<open>Types\<close>

type_synonym u8 = "8 word"
type_synonym u16 = "16 word"
type_synonym u32 = "32 word"
type_synonym u64 = "64 word"
type_synonym bitvec = "u8 list"
type_synonym softvec = "real list"
type_synonym complexvec = "complex list"

datatype modulation_order = QPSK | QAM16 | QAM64 | QAM256

datatype equalizer_type = ZF | MMSE | RZF

section \<open>Exceptions and guards\<close>

datatype exn =
    Error string          \<comment> \<open>\<open>nr_bb::Error\<close> with its message\<close>
  | Invalid_argument      \<comment> \<open>\<open>std::invalid_argument\<close>\<close>
  | Out_of_range          \<comment> \<open>\<open>std::out_of_range\<close>\<close>
  | Length_error          \<comment> \<open>\<open>std::length_error\<close>, of a vector that is too long\<close>
  | Filesystem_error      \<comment> \<open>\<open>std::filesystem::filesystem_error\<close>\<close>
  | Undefined string      \<comment> \<open>undefined behaviour\<close>

type_synonym 'a result = "exn + 'a"

definition require :: "bool \<Rightarrow> string \<Rightarrow> unit result" where
  "require c msg = (if c then Inr () else Inl (Error msg))"

fun and_then :: "'a result \<Rightarrow> ('a \<Rightarrow> 'b result) \<Rightarrow> 'b result" where
  "and_then (Inl e) f = Inl e"
| "and_then (Inr x) f = f x"

fun mapE :: "('a \<Rightarrow> 'b result) \<Rightarrow> 'a list \<Rightarrow> 'b list result" where
  "mapE f [] = Inr []"
| "mapE f (x # xs) = and_then (f x) (\<lambda>y. and_then (mapE f xs) (\<lambda>ys. Inr (y # ys)))"

lemma and_then_require [simp]:
  "and_then (require c msg) f = (if c then f () else Inl (Error msg))"
  by (simp add: require_def)

lemma and_then_Inr_iff: "and_then x f = Inr y \<longleftrightarrow> (\<exists>z. x = Inr z \<and> f z = Inr y)"
  by (cases x) auto

lemma and_then_InrE:
  assumes "and_then x f = Inr y"
  obtains z where "x = Inr z" "f z = Inr y"
  using assms by (auto simp: and_then_Inr_iff)

lemma and_then_cong [fundef_cong]:
  "x = y \<Longrightarrow> (\<And>z. y = Inr z \<Longrightarrow> f z = g z) \<Longrightarrow> and_then x f = and_then y g"
  by (cases y) auto

lemma and_then_assoc: "and_then (and_then x f) g = and_then x (\<lambda>y. and_then (f y) g)"
  by (cases x) auto

lemma mapE_Inr: "(\<And>x. x \<in> set xs \<Longrightarrow> f x = Inr (g x)) \<Longrightarrow> mapE f xs = Inr (map g xs)"
  by (induction xs) auto

lemma mapE_Inr_length: "mapE f xs = Inr ys \<Longrightarrow> length ys = length xs"
  by (induction xs arbitrary: ys) (auto simp: and_then_Inr_iff)

lemma mapE_Inr_nth: "mapE f xs = Inr ys \<Longrightarrow> i < length xs \<Longrightarrow> f (xs ! i) = Inr (ys ! i)"
  by (induction xs arbitrary: ys i) (auto simp: and_then_Inr_iff nth_Cons split: nat.splits)

lemma mapE_Inl:
  "(\<And>x. x \<in> set xs \<Longrightarrow> f x = Inl e \<or> (\<exists>y. f x = Inr y)) \<Longrightarrow> \<exists>x\<in>set xs. f x = Inl e \<Longrightarrow>
   mapE f xs = Inl e"
proof (induction xs)
  case (Cons x xs)
  show ?case
  proof (cases "f x = Inl e")
    case False
    with Cons.prems(1) [of x] obtain y where "f x = Inr y" by auto
    with Cons False show ?thesis by auto
  qed simp
qed simp

section \<open>Bits stored in bytes\<close>

definition is_bit :: "u8 \<Rightarrow> bool" where
  "is_bit b \<longleftrightarrow> b = 0 \<or> b = 1"

definition bits_ok :: "bitvec \<Rightarrow> bool" where
  "bits_ok bs \<longleftrightarrow> list_all is_bit bs"

named_theorems bit_vec \<open>closure of 0/1 vectors under the operations of the code\<close>

lemma is_bit_0 [simp]: "is_bit 0" and is_bit_1 [simp]: "is_bit 1"
  by (simp_all add: is_bit_def)

lemma is_bit_xor [bit_vec]: "is_bit a \<Longrightarrow> is_bit b \<Longrightarrow> is_bit (a XOR b)"
  by (auto simp: is_bit_def)

lemma bits_ok_Nil [simp]: "bits_ok []"
  by (simp add: bits_ok_def)

lemma bits_ok_Cons [simp]: "bits_ok (b # bs) \<longleftrightarrow> is_bit b \<and> bits_ok bs"
  by (simp add: bits_ok_def)

lemma bits_ok_append [simp]: "bits_ok (xs @ ys) \<longleftrightarrow> bits_ok xs \<and> bits_ok ys"
  by (simp add: bits_ok_def)

lemma bits_ok_replicate [simp]: "bits_ok (replicate n b) \<longleftrightarrow> n = 0 \<or> is_bit b"
  by (auto simp: bits_ok_def list_all_iff)

lemma bits_ok_nth [bit_vec]: "bits_ok bs \<Longrightarrow> i < length bs \<Longrightarrow> is_bit (bs ! i)"
  by (simp add: bits_ok_def list_all_length)

lemma bits_ok_iff_nth: "bits_ok bs \<longleftrightarrow> (\<forall>i<length bs. is_bit (bs ! i))"
  by (simp add: bits_ok_def list_all_length)

lemma bits_ok_take [bit_vec]: "bits_ok bs \<Longrightarrow> bits_ok (take n bs)"
  by (auto simp: bits_ok_iff_nth)

lemma bits_ok_drop [bit_vec]: "bits_ok bs \<Longrightarrow> bits_ok (drop n bs)"
  by (auto simp: bits_ok_iff_nth)

lemma is_bit_cases:
  assumes "is_bit b" obtains "b = 0" | "b = 1"
  using assms by (auto simp: is_bit_def)

lemma is_bit_neq_0: "is_bit b \<Longrightarrow> b \<noteq> 0 \<longleftrightarrow> b = 1"
  by (auto simp: is_bit_def)

section \<open>Xor of byte vectors\<close>

lemma xor_eq_0_iff: "a XOR b = 0 \<longleftrightarrow> a = b" for a b :: "'a::len word"
  by (metis xor.assoc xor.left_neutral xor.right_neutral xor_self_eq)

lemma xor_left_cancel [simp]: "a XOR b = a XOR c \<longleftrightarrow> b = c" for a b c :: "'a::len word"
  by (metis xor.assoc xor.left_neutral xor_self_eq)

lemma xor_right_cancel [simp]: "a XOR c = b XOR c \<longleftrightarrow> a = b" for a b c :: "'a::len word"
  by (metis xor.assoc xor.right_neutral xor_self_eq)

definition xor_vec :: "bitvec \<Rightarrow> bitvec \<Rightarrow> bitvec" where
  "xor_vec xs ys = map2 (XOR) xs ys"

lemma length_xor_vec [simp]: "length (xor_vec xs ys) = min (length xs) (length ys)"
  by (simp add: xor_vec_def)

lemma nth_xor_vec [simp]:
  "i < length xs \<Longrightarrow> i < length ys \<Longrightarrow> xor_vec xs ys ! i = xs ! i XOR ys ! i"
  by (simp add: xor_vec_def)

lemma xor_vec_Nil [simp]: "xor_vec [] ys = []"
  by (simp add: xor_vec_def)

lemma xor_vec_Cons [simp]: "xor_vec (x # xs) (y # ys) = (x XOR y) # xor_vec xs ys"
  by (simp add: xor_vec_def)

lemma xor_vec_cancel: "length xs = length ys \<Longrightarrow> xor_vec (xor_vec xs ys) ys = xs"
  by (rule nth_equalityI) (simp_all add: xor.assoc)

lemma bits_ok_xor_vec [bit_vec]: "bits_ok xs \<Longrightarrow> bits_ok ys \<Longrightarrow> bits_ok (xor_vec xs ys)"
  by (auto simp: bits_ok_iff_nth intro: is_bit_xor)

section \<open>Exchange of two entries\<close>

definition swap_at :: "nat \<Rightarrow> nat \<Rightarrow> 'a list \<Rightarrow> 'a list" where
  "swap_at i j a = a[i := a ! j, j := a ! i]"

lemma length_swap_at [simp]: "length (swap_at i j a) = length a"
  by (simp add: swap_at_def)

lemma nth_swap_at:
  "i < length a \<Longrightarrow> j < length a \<Longrightarrow> x < length a \<Longrightarrow>
   swap_at i j a ! x = (if x = j then a ! i else if x = i then a ! j else a ! x)"
  by (simp add: swap_at_def nth_list_update)

section \<open>Row-major grids\<close>

lemma nth_grid:
  assumes "i < r" "j < c"
  shows "concat (map (\<lambda>i. map (f i) [0..<c]) [0..<r]) ! (i * c + j) = f i j"
  using assms(1)
proof (induction r)
  case (Suc r)
  have len: "length (concat (map (\<lambda>i. map (f i) [0..<c]) [0..<k])) = k * c" for k
    by (induction k) simp_all
  show ?case
  proof (cases "i = r")
    case False
    then have "i < r" using Suc.prems by simp
    then have "Suc i * c \<le> r * c" by (intro mult_le_mono1) simp
    then have "i * c + j < r * c" using assms(2) by simp
    then show ?thesis using Suc.IH [OF \<open>i < r\<close>] by (simp add: nth_append len)
  qed (use assms(2) in \<open>simp add: nth_append len\<close>)
qed simp

lemma length_grid [simp]: "length (concat (map (\<lambda>i. map (f i) [0..<c]) [0..<r])) = r * c"
  by (induction r) simp_all

lemma grid_index_inj: "j < c \<Longrightarrow> j' < c \<Longrightarrow> i * c + j = i' * c + j' \<longleftrightarrow> i = i' \<and> j = j'" for i :: nat
  by (metis add.commute div_mult_self3 mod_mult_self3 div_less mod_less add_0_right not_less_zero)

lemma grid_index_less:
  assumes "i < r" "j < c"
  shows "i * c + j < r * (c::nat)"
proof -
  have "Suc i * c \<le> r * c" using assms(1) by (intro mult_le_mono1) simp
  then show ?thesis using assms(2) by simp
qed

text \<open>A full turn of a circular buffer meets every position.\<close>

lemma mod_surj:
  assumes "(j::nat) < n" "n \<le> e"
  shows "\<exists>i<e. (k + i) mod n = j"
proof -
  have n: "0 < n" using assms by simp
  let ?i = "(j + (n - k mod n)) mod n"
  have "(k + ?i) mod n = (k mod n + (j + (n - k mod n))) mod n" by (simp add: mod_simps)
  also have "k mod n + (j + (n - k mod n)) = j + n" using mod_less_divisor [OF n, of k] by linarith
  finally have "(k + ?i) mod n = j" using assms by simp
  moreover have "?i < e" using n assms(2) by (meson mod_less_divisor order_less_le_trans)
  ultimately show ?thesis by blast
qed

end
