(* ===== verification/Crc.thy ===== *)
theory Crc
  imports Prelude
begin

text \<open>
  \<open>include/nr_bb/crc.hpp\<close> and \<open>src/crc.cpp\<close>: the bit-serial, MSB-first CRC with a 32-bit
  register, the attachment of its remainder bits and the check. The shift register is studied once
  in the locale \<open>crc_register\<close>, for any length and any generator polynomial with a constant term,
  and interpreted on the five specifications of the code.
\<close>

section \<open>The code\<close>

datatype crc_type = CRC24A | CRC24B | CRC16 | CRC11 | CRC6

record crc_spec =
  poly_full :: u32
  crc_len :: nat

fun spec :: "crc_type \<Rightarrow> crc_spec" where
  "spec CRC24A = \<lparr>poly_full = 0x1864CFB, crc_len = 24\<rparr>"
| "spec CRC24B = \<lparr>poly_full = 0x1800063, crc_len = 24\<rparr>"
| "spec CRC16 = \<lparr>poly_full = 0x11021, crc_len = 16\<rparr>"
| "spec CRC11 = \<lparr>poly_full = 0xE21, crc_len = 11\<rparr>"
| "spec CRC6 = \<lparr>poly_full = 0x61, crc_len = 6\<rparr>"

definition crc_mask :: "crc_spec \<Rightarrow> u32" where
  "crc_mask s = (if crc_len s = 32 then 0xFFFFFFFF else push_bit (crc_len s) 1 - 1)"

definition crc_top :: "crc_spec \<Rightarrow> u32" where
  "crc_top s = push_bit (crc_len s - 1) 1"

definition crc_poly :: "crc_spec \<Rightarrow> u32" where
  "crc_poly s = poly_full s AND crc_mask s"

definition crc_step :: "crc_spec \<Rightarrow> u32 \<Rightarrow> u8 \<Rightarrow> u32" where
  "crc_step s crc b =
     (let fb = (if crc AND crc_top s \<noteq> 0 then 1 else 0) XOR (ucast b :: u32);
          crc' = push_bit 1 crc AND crc_mask s
      in if fb \<noteq> 0 then crc' XOR crc_poly s else crc')"

fun crc_loop :: "crc_spec \<Rightarrow> u32 \<Rightarrow> bitvec \<Rightarrow> u32 result" where
  "crc_loop s crc [] = Inr crc"
| "crc_loop s crc (b # bs) =
     and_then (require (b = 0 \<or> b = 1) ''CRC input must be 0/1 bits'')
       (\<lambda>_. crc_loop s (crc_step s crc b) bs)"

definition compute_crc :: "bitvec \<Rightarrow> crc_type \<Rightarrow> u32 result" where
  "compute_crc bits t = crc_loop (spec t) 0 bits"

definition crc_polynomial :: "crc_type \<Rightarrow> u32" where
  "crc_polynomial t = poly_full (spec t)"

definition crc_length_bits :: "crc_type \<Rightarrow> nat" where
  "crc_length_bits t = crc_len (spec t)"

definition rem_bits :: "nat \<Rightarrow> u32 \<Rightarrow> bitvec" where
  "rem_bits len r = map (\<lambda>i. ucast (drop_bit i r AND 1)) (rev [0..<len])"

definition crc_attach :: "bitvec \<Rightarrow> crc_type \<Rightarrow> bitvec result" where
  "crc_attach payload t =
     and_then (compute_crc payload t) (\<lambda>r. Inr (payload @ rem_bits (crc_len (spec t)) r))"

definition crc_check :: "bitvec \<Rightarrow> crc_type \<Rightarrow> bool result" where
  "crc_check coded t =
     and_then (require (length coded \<ge> crc_len (spec t)) ''coded block shorter than CRC'')
       (\<lambda>_. and_then (compute_crc coded t) (\<lambda>r. Inr (r = 0)))"

section \<open>The shift register\<close>

text \<open>One step of the register on a truth value, without the guards: what \<open>crc_step\<close> computes.\<close>

definition reg_step :: "nat \<Rightarrow> u32 \<Rightarrow> u32 \<Rightarrow> bool \<Rightarrow> u32" where
  "reg_step n p r b = take_bit n (push_bit 1 r) XOR (if bit r (n - 1) \<noteq> b then p else 0)"

definition reg_feed :: "nat \<Rightarrow> u32 \<Rightarrow> u32 \<Rightarrow> bool list \<Rightarrow> u32" where
  "reg_feed n p r bs = foldl (reg_step n p) r bs"

lemma reg_feed_simps [simp]:
  "reg_feed n p r [] = r"
  "reg_feed n p r (b # bs) = reg_feed n p (reg_step n p r b) bs"
  "reg_feed n p r (xs @ ys) = reg_feed n p (reg_feed n p r xs) ys"
  by (simp_all add: reg_feed_def)

locale crc_register =
  fixes n :: nat and p :: u32
  assumes n_pos: "0 < n" and n_le: "n \<le> 32"
    and p_low: "bit p 0" and p_deg: "take_bit n p = p"
begin

lemma bit_p: "bit p i \<Longrightarrow> i < n"
  using p_deg by (metis bit_take_bit_iff)

lemma bit_step:
  "bit (reg_step n p r b) i \<longleftrightarrow>
     i < n \<and> ((0 < i \<and> bit r (i - 1)) \<noteq> (bit r (n - 1) \<noteq> b \<and> bit p i))"
proof -
  have "bit (take_bit n (push_bit 1 r)) i \<longleftrightarrow> i < n \<and> 0 < i \<and> bit r (i - 1)"
    using n_le by (simp only: bit_take_bit_iff bit_push_bit_iff possible_bit_word) auto
  then show ?thesis
    by (auto simp: reg_step_def bit_xor_iff simp del: push_bit_of_1 One_nat_def dest: bit_p)
qed

lemma step_linear:
  "reg_step n p (r XOR r') (b \<noteq> b') = reg_step n p r b XOR reg_step n p r' b'"
  by (rule bit_word_eqI) (auto simp: bit_step bit_xor_iff)

lemma feed_linear:
  "length bs = length bs' \<Longrightarrow>
   reg_feed n p (r XOR r') (map2 (\<noteq>) bs bs') = reg_feed n p r bs XOR reg_feed n p r' bs'"
  by (induction bs bs' arbitrary: r r' rule: list_induct2) (simp_all add: step_linear [simplified])

lemma step_masked: "take_bit n (reg_step n p r b) = reg_step n p r b"
  by (rule bit_word_eqI) (auto simp: bit_take_bit_iff bit_step)

lemma feed_masked: "take_bit n r = r \<Longrightarrow> take_bit n (reg_feed n p r bs) = reg_feed n p r bs"
  by (induction bs arbitrary: r) (simp_all add: step_masked)

text \<open>
  The inputs of at most \<open>n\<close> bits that clear the register are exactly one per length: the leading
  bits of the register, and the rest of the register must be zero already.
\<close>

text \<open>The register after one step holds the next bits to come exactly when the register before it held the
  fed bit and these: the feedback bit has to cancel.\<close>

lemma step_expects:
  assumes "length bs < n"
  shows "(\<forall>i<n. bit (reg_step n p r b) i \<longleftrightarrow> (n - 1 - i < length bs \<and> bs ! (n - 1 - i))) \<longleftrightarrow>
    (\<forall>i<n. bit r i \<longleftrightarrow> (n - 1 - i < Suc (length bs) \<and> (b # bs) ! (n - 1 - i)))"
  (is "(\<forall>i<n. ?L i) \<longleftrightarrow> (\<forall>i<n. ?R i)")
proof -
  have zero: "?L 0 \<longleftrightarrow> bit r (n - 1) = b" "?R (n - 1) \<longleftrightarrow> bit r (n - 1) = b"
    using n_pos assms p_low by (auto simp: bit_step)
  have Suc: "?L (Suc i) \<longleftrightarrow> ?R i" if "bit r (n - 1) = b" "Suc i < n" for i
  proof -
    have "n - 1 - i = Suc (n - 1 - Suc i)" using that(2) by simp
    with that show ?thesis by (simp add: bit_step)
  qed
  have split: "(\<forall>i<n. Q i) \<longleftrightarrow> Q 0 \<and> (\<forall>i. Suc i < n \<longrightarrow> Q (Suc i))"
    "(\<forall>i<n. Q i) \<longleftrightarrow> Q (n - 1) \<and> (\<forall>i. Suc i < n \<longrightarrow> Q i)" for Q
    by (use n_pos in \<open>cases n; simp add: All_less_Suc2\<close>) (use n_pos in \<open>cases n; auto simp: All_less_Suc\<close>)
  show ?thesis unfolding split(1) [of ?L] split(2) [of ?R] zero using Suc by blast
qed

lemma feed_zero_iff:
  "take_bit n r = r \<Longrightarrow> length bs \<le> n \<Longrightarrow>
   reg_feed n p r bs = 0 \<longleftrightarrow>
     (\<forall>i<n. bit r i \<longleftrightarrow> (n - 1 - i < length bs \<and> bs ! (n - 1 - i)))"
proof (induction bs arbitrary: r)
  case Nil
  have "r = 0 \<longleftrightarrow> (\<forall>i<n. \<not> bit r i)"
    using Nil by (metis bit_0_eq bit_take_bit_iff bot_apply bot_bool_def bit_word_eqI)
  then show ?case by simp
next
  case (Cons b bs)
  have "reg_feed n p r (b # bs) = 0 \<longleftrightarrow> (\<forall>i<n. bit (reg_step n p r b) i \<longleftrightarrow> (n - 1 - i < length bs \<and> bs ! (n - 1 - i)))"
    using Cons by (simp add: step_masked)
  also have "\<dots> \<longleftrightarrow> (\<forall>i<n. bit r i \<longleftrightarrow> (n - 1 - i < Suc (length bs) \<and> (b # bs) ! (n - 1 - i)))"
    by (rule step_expects) (use Cons.prems(2) in simp)
  finally show ?case by simp
qed

lemma masked_zero_iff: "take_bit n r = r \<Longrightarrow> (r :: u32) = 0 \<longleftrightarrow> (\<forall>i<n. \<not> bit r i)"
  using feed_zero_iff [of r "[]"] by simp

lemma feed_zeros_from_0: "reg_feed n p 0 (replicate k False) = 0"
proof (induction k)
  case (Suc k)
  have "reg_step n p 0 False = 0" by (simp add: reg_step_def)
  with Suc show ?case by simp
qed simp

lemma feed_zeros_iff: "take_bit n r = r \<Longrightarrow> reg_feed n p r (replicate k False) = 0 \<longleftrightarrow> r = 0"
proof (induction k arbitrary: r)
  case (Suc k)
  have "reg_feed n p r [False] = 0 \<longleftrightarrow> (\<forall>i<n. \<not> bit r i)"
    using Suc.prems n_pos by (subst feed_zero_iff) auto
  also have "\<dots> \<longleftrightarrow> r = 0" using Suc.prems by (simp add: masked_zero_iff)
  finally have "reg_step n p r False = 0 \<longleftrightarrow> r = 0" by simp
  then show ?case using Suc.IH [OF step_masked] by simp
qed simp

text \<open>A non-zero burst that fits the register leaves it non-zero, wherever it stands.\<close>

lemma feed_burst:
  assumes "bs \<noteq> []" "hd bs" "length bs \<le> n"
  shows "reg_feed n p 0 (replicate i False @ bs @ replicate j False) \<noteq> 0"
proof -
  have "reg_feed n p 0 bs \<noteq> 0"
  proof
    assume "reg_feed n p 0 bs = 0"
    then have "\<forall>i<n. \<not> (n - 1 - i < length bs \<and> bs ! (n - 1 - i))"
      using assms(3) by (subst (asm) feed_zero_iff) auto
    from this [rule_format, of "n - 1"] n_pos assms(1,2) show False
      by (simp add: hd_conv_nth)
  qed
  then show ?thesis
    by (simp add: feed_zeros_from_0 feed_zeros_iff feed_masked)
qed

end

section \<open>The code computes the register\<close>

lemma spec_len: "0 < crc_len (spec t)" "crc_len (spec t) < 32"
  by (cases t; simp)+

lemma crc_mask_spec: "crc_mask (spec t) = mask (crc_len (spec t))"
  by (cases t) (simp_all add: crc_mask_def mask_eq_exp_minus_1)

lemma crc_poly_spec: "crc_poly (spec t) = take_bit (crc_len (spec t)) (poly_full (spec t))"
  by (simp add: crc_poly_def crc_mask_spec take_bit_eq_mask)

interpretation reg: crc_register "crc_len (spec t)" "crc_poly (spec t)" for t
proof unfold_locales
  show "bit (crc_poly (spec t)) 0"
    by (cases t) (simp_all add: crc_poly_def crc_mask_def bit_0)
qed (use spec_len [of t] in \<open>simp_all add: crc_poly_spec\<close>)

abbreviation crc_register_of :: "crc_type \<Rightarrow> bitvec \<Rightarrow> u32" where
  "crc_register_of t bits \<equiv>
     reg_feed (crc_len (spec t)) (crc_poly (spec t)) 0 (map (\<lambda>b. b = 1) bits)"

lemma and_top_nonzero:
  "crc AND crc_top s \<noteq> 0 \<longleftrightarrow> bit crc (crc_len s - 1)" if "crc_len s < 32"
proof -
  have "bit (crc AND crc_top s) i \<longleftrightarrow> i = crc_len s - 1 \<and> bit crc i" for i
    using that by (auto simp: crc_top_def bit_simps)
  then show ?thesis
    by (metis bit_0_eq bit_word_eqI bot_apply bot_bool_def)
qed

lemma crc_step_reg:
  assumes "is_bit b"
  shows "crc_step (spec t) crc b = reg_step (crc_len (spec t)) (crc_poly (spec t)) crc (b = 1)"
  using assms spec_len [of t]
  by (auto simp: crc_step_def reg_step_def Let_def crc_mask_spec and_top_nonzero is_bit_def
      simp flip: take_bit_eq_mask)

lemma crc_loop_reg:
  "crc_loop (spec t) crc bits =
     (if bits_ok bits
      then Inr (reg_feed (crc_len (spec t)) (crc_poly (spec t)) crc (map (\<lambda>b. b = 1) bits))
      else Inl (Error ''CRC input must be 0/1 bits''))"
proof (induction bits arbitrary: crc)
  case (Cons b bits)
  then show ?case
    by (cases "b = 0 \<or> b = 1") (auto simp: crc_step_reg is_bit_def)
qed simp

lemma compute_crc_eq:
  "compute_crc bits t =
     (if bits_ok bits then Inr (crc_register_of t bits)
      else Inl (Error ''CRC input must be 0/1 bits''))"
  by (simp add: compute_crc_def crc_loop_reg)

lemma crc_register_masked:
  "take_bit (crc_len (spec t)) (crc_register_of t bits) = crc_register_of t bits"
  by (rule reg.feed_masked) simp

lemma length_rem_bits [simp]: "length (rem_bits n r) = n"
  by (simp add: rem_bits_def)

lemma nth_rem_bits: "i < n \<Longrightarrow> rem_bits n r ! i = of_bool (bit r (n - 1 - i))"
  by (simp add: rem_bits_def rev_nth and_one_eq bit_iff_odd_drop_bit mod_2_eq_odd)

lemma bits_ok_rem_bits [simp]: "bits_ok (rem_bits n r)"
  by (simp add: bits_ok_iff_nth nth_rem_bits is_bit_def)

lemma crc_attach_eq:
  "crc_attach payload t =
     (if bits_ok payload
      then Inr (payload @ rem_bits (crc_len (spec t)) (crc_register_of t payload))
      else Inl (Error ''CRC input must be 0/1 bits''))"
  by (simp add: crc_attach_def compute_crc_eq)

lemma crc_check_eq:
  "crc_check coded t =
     (if length coded < crc_len (spec t) then Inl (Error ''coded block shorter than CRC'')
      else if bits_ok coded then Inr (crc_register_of t coded = 0)
      else Inl (Error ''CRC input must be 0/1 bits''))"
  by (simp add: crc_check_def compute_crc_eq not_less)

lemma crc_register_zero_iff:
  assumes "bits_ok tail" "length tail = crc_len (spec t)"
  shows "crc_register_of t (payload @ tail) = 0 \<longleftrightarrow>
         tail = rem_bits (crc_len (spec t)) (crc_register_of t payload)"
proof -
  let ?n = "crc_len (spec t)" and ?r = "crc_register_of t payload"
  have "crc_register_of t (payload @ tail) = 0 \<longleftrightarrow>
        (\<forall>i<?n. bit ?r i \<longleftrightarrow> tail ! (?n - 1 - i) = 1)"
    using assms(2) spec_len [of t]
    by (simp add: reg.feed_zero_iff [OF crc_register_masked])
  also have "\<dots> \<longleftrightarrow> (\<forall>i<?n. tail ! i = rem_bits ?n ?r ! i)"
  proof (rule iffI; intro allI impI)
    fix i assume *: "\<forall>i<?n. bit ?r i \<longleftrightarrow> tail ! (?n - 1 - i) = 1" and i: "i < ?n"
    then have "?n - 1 - i < ?n" "?n - 1 - (?n - 1 - i) = i" by simp_all
    with * have "bit ?r (?n - 1 - i) \<longleftrightarrow> tail ! i = 1" by metis
    with bits_ok_nth [OF assms(1), of i] i assms(2)
    show "tail ! i = rem_bits ?n ?r ! i" by (auto simp: nth_rem_bits is_bit_def)
  next
    fix i assume "\<forall>i<?n. tail ! i = rem_bits ?n ?r ! i" "i < ?n"
    then show "bit ?r i \<longleftrightarrow> tail ! (?n - 1 - i) = 1" by (simp add: nth_rem_bits)
  qed
  also have "\<dots> \<longleftrightarrow> tail = rem_bits ?n ?r"
    using assms(2) by (auto simp: list_eq_iff_nth_eq)
  finally show ?thesis .
qed

lemma crc_attach_Inr:
  assumes "crc_attach payload t = Inr coded"
  obtains tail where "bits_ok payload" "coded = payload @ tail" "length tail = crc_len (spec t)" "bits_ok tail"
    "crc_check coded t = Inr True"
proof -
  from assms have "bits_ok payload" "coded = payload @ rem_bits (crc_len (spec t)) (crc_register_of t payload)"
    by (auto simp: crc_attach_eq split: if_splits)
  then show thesis
    by (intro that [of "rem_bits (crc_len (spec t)) (crc_register_of t payload)"])
      (simp_all add: crc_check_eq crc_register_zero_iff del: reg_feed_simps map_append)
qed

lemma map_is_one_xor_vec:
  "bits_ok xs \<Longrightarrow> bits_ok ys \<Longrightarrow> length xs = length ys \<Longrightarrow>
   map (\<lambda>b. b = 1) (xor_vec xs ys) = map2 (\<noteq>) (map (\<lambda>b. b = 1) xs) (map (\<lambda>b. b = 1) ys)"
  by (rule nth_equalityI) (auto simp: bits_ok_iff_nth is_bit_def)

lemma crc_register_xor:
  assumes "bits_ok xs" "bits_ok ys" "length xs = length ys"
  shows "crc_register_of t (xor_vec xs ys) = crc_register_of t xs XOR crc_register_of t ys"
  using reg.feed_linear [of "map (\<lambda>b. b = 1) xs" "map (\<lambda>b. b = 1) ys" t 0 0] assms
  by (simp add: map_is_one_xor_vec)

section \<open>Properties\<close>

text \<open>Attaching the CRC succeeds on every 0/1 payload, keeps the payload as a prefix, adds exactly
  \<open>crc_length_bits\<close> bits, and the result passes \<open>crc_check\<close> for the same CRC type.\<close>

theorem crc_attach_check:
  assumes "bits_ok payload"
  shows "\<exists>tail. crc_attach payload t = Inr (payload @ tail) \<and>
           length tail = crc_length_bits t \<and> crc_check (payload @ tail) t = Inr True"
  using assms
  by (auto simp: crc_attach_eq crc_check_eq crc_length_bits_def crc_register_zero_iff
      simp del: reg_feed_simps map_append)

theorem crc_attach_check_witness:
  "\<exists>tail. crc_attach [1, 0, 1] CRC6 = Inr ([1, 0, 1] @ tail) \<and>
     length tail = crc_length_bits CRC6 \<and> crc_check ([1, 0, 1] @ tail) CRC6 = Inr True"
  by (rule crc_attach_check) simp

text \<open>C11: a received word of 0/1 bits passes \<open>crc_check\<close> exactly when its last
  \<open>crc_length_bits\<close> bits are the ones \<open>crc_attach\<close> computes for the rest: no other tail is
  accepted.\<close>

theorem crc_check_iff_attached:
  assumes "bits_ok payload" "bits_ok tail" "length tail = crc_length_bits t"
  shows "crc_check (payload @ tail) t = Inr (crc_attach payload t = Inr (payload @ tail))"
  using assms
  by (auto simp: crc_attach_eq crc_check_eq crc_length_bits_def crc_register_zero_iff
      simp del: reg_feed_simps map_append)

theorem crc_check_iff_attached_witness:
  "crc_check ([1] @ [1, 0, 0, 0, 0, 0]) CRC6 = Inr (crc_attach [1] CRC6 = Inr ([1] @ [1, 0, 0, 0, 0, 0]))"
  by (rule crc_check_iff_attached) (simp_all add: crc_length_bits_def)

text \<open>C12: error detection. Flipping any burst of at most \<open>crc_length_bits\<close> positions (its first bit
  flipped) of a word that passes the check makes the check fail; in particular every single-bit
  error is detected.\<close>

theorem crc_burst_detected:
  assumes "crc_check coded t = Inr True"
    and "bits_ok burst" "burst \<noteq> []" "hd burst = 1" "length burst \<le> crc_length_bits t"
    and "length coded = i + length burst + j"
  shows "crc_check (xor_vec coded (replicate i 0 @ burst @ replicate j 0)) t = Inr False"
proof -
  let ?err = "replicate i 0 @ burst @ replicate j 0 :: bitvec"
  from assms(1) have len: "crc_len (spec t) \<le> length coded" and ok: "bits_ok coded"
    and zero: "crc_register_of t coded = 0"
    by (auto simp: crc_check_eq split: if_splits)
  have ok': "bits_ok ?err" "length ?err = length coded" using assms(2,6) by simp_all
  have "crc_register_of t (xor_vec coded ?err) = crc_register_of t ?err"
    using ok ok' zero by (simp add: crc_register_xor del: reg_feed_simps map_append)
  also have "\<dots> \<noteq> 0"
    using reg.feed_burst [of "map (\<lambda>b. b = 1) burst" t i j] assms(3,4,5)
    by (simp add: hd_map crc_length_bits_def map_replicate_const del: reg_feed_simps)
  finally show ?thesis
    using len ok ok' by (simp add: crc_check_eq bits_ok_xor_vec)
qed

theorem crc_burst_detected_witness:
  "crc_check (xor_vec (replicate 6 0) (replicate 2 0 @ [1, 0, 1] @ replicate 1 0)) CRC6 = Inr False"
proof -
  have "crc_check (replicate 6 0) CRC6 = Inr True" by code_simp
  then show ?thesis by (rule crc_burst_detected) (simp_all add: crc_length_bits_def)
qed

end
