(* ===== verification/LdpcGraph.thy ===== *)
theory LdpcGraph
  imports LdpcTables
begin

text \<open>
  The parameters of \<open>include/nr_bb/ldpc.hpp\<close> and the first half of \<open>src/ldpc.cpp\<close>: lifting
  sizes, base-graph and lifting selection, the construction of the lifted graph and of its
  parity-check matrix. A matrix that the code stores row-major in one vector is the list of its
  rows. The fields of \<open>Graph\<close> are non-negative by construction and are natural numbers here; the
  fields of \<open>LdpcParams\<close>, where negative values are sentinels, are integers.
\<close>

section \<open>Data\<close>

datatype base_graph = BG1 | BG2

record ldpc_params =
  p_bg :: base_graph
  p_zc :: int
  p_i_ls :: int
  p_max_iter :: int
  p_info_bits :: int
  p_kb :: int
  p_mb_use :: int

definition default_params :: ldpc_params where
  "default_params = \<lparr>p_bg = BG2, p_zc = 0, p_i_ls = -1, p_max_iter = 25, p_info_bits = -1,
     p_kb = -1, p_mb_use = -1\<rparr>"

record lifting_choice =
  lc_zc :: int
  lc_i_ls :: int
  lc_kb :: int

record graph =
  g_mb :: nat
  g_nb :: nat
  g_kb :: nat
  g_zc :: nat
  g_i_ls :: nat
  g_filler :: nat
  g_edges :: "bg_edge list"
  g_provenance :: string

record ldpc_graph_info =
  i_mb :: nat
  i_nb :: nat
  i_kb :: nat
  i_zc :: nat
  i_i_ls :: nat
  i_n_ldpc :: nat
  i_k_ldpc :: nat
  i_filler_bits :: nat
  i_provenance :: string

section \<open>Selection of the base graph and of the lifting size\<close>

definition kLiftingSets :: "int list list" where
  "kLiftingSets = [
    [2, 4, 8, 16, 32, 64, 128, 256],
    [3, 6, 12, 24, 48, 96, 192, 384],
    [5, 10, 20, 40, 80, 160, 320, -1],
    [7, 14, 28, 56, 112, 224, -1, -1],
    [9, 18, 36, 72, 144, 288, -1, -1],
    [11, 22, 44, 88, 176, 352, -1, -1],
    [13, 26, 52, 104, 208, -1, -1, -1],
    [15, 30, 60, 120, 240, -1, -1, -1]]"

definition i_ls_for_zc :: "int \<Rightarrow> nat option" where
  "i_ls_for_zc zc = find (\<lambda>i. zc \<in> set (kLiftingSets ! i)) [0..<8]"

definition is_valid_lifting_size :: "int \<Rightarrow> bool" where
  "is_valid_lifting_size zc = (i_ls_for_zc zc \<noteq> None)"

definition select_basegraph :: "int \<Rightarrow> real \<Rightarrow> base_graph result" where
  "select_basegraph k_bits coderate =
     and_then (require (k_bits \<ge> 12) ''K too small for NR LDPC'')
       (\<lambda>_. Inr (if k_bits \<le> 292 then BG2
                 else if k_bits \<le> 3824 \<and> coderate \<le> 67 / 100 then BG2
                 else if coderate \<le> 1 / 4 then BG2
                 else BG1))"

definition kb_for_selection :: "int \<Rightarrow> base_graph \<Rightarrow> int" where
  "kb_for_selection k_bits bg =
     (if bg = BG2
      then (if k_bits > 640 then 10 else if k_bits > 560 then 9 else if k_bits > 192 then 8 else 6)
      else 22)"

definition lifting_step :: "int \<Rightarrow> int \<Rightarrow> int \<times> int \<times> int \<Rightarrow> int \<times> int \<Rightarrow> int \<times> int \<times> int" where
  "lifting_step kb_sel k_bits best iz =
     (case best of (best_z, best_ils, best_val) \<Rightarrow> case iz of (i, z) \<Rightarrow>
        if z < 0 then best
        else let x = kb_sel * z in
          if x \<ge> k_bits \<and> x < best_val then (z, i, x) else best)"

definition lifting_candidates :: "(int \<times> int) list" where
  "lifting_candidates = concat (map (\<lambda>i. map (Pair (int i)) (kLiftingSets ! i)) [0..<8])"

definition select_lifting :: "int \<Rightarrow> base_graph \<Rightarrow> lifting_choice result" where
  "select_lifting k_bits bg =
     (let kb_sel = kb_for_selection k_bits bg;
          (best_z, best_ils, best_val) =
            foldl (lifting_step kb_sel k_bits) (0, 0, 1000000) lifting_candidates
      in and_then (require (best_z > 0) ''no valid lifting size for K'')
           (\<lambda>_. Inr \<lparr>lc_zc = best_z, lc_i_ls = best_ils,
                     lc_kb = int (if bg = BG1 then BG1_KB else BG2_KB)\<rparr>))"

section \<open>The lifted graph\<close>

definition mod_shift :: "int \<Rightarrow> nat \<Rightarrow> nat" where
  "mod_shift v zc =
     (let m = (if v < 0 then - ((- v) mod int zc) else v mod int zc)
      in nat (if m < 0 then m + int zc else m))"

definition base_of :: "base_graph \<Rightarrow> nat \<times> nat \<times> nat \<times> bg_edge list \<times> string" where
  "base_of bg =
     (if bg = BG1
      then (BG1_MB, BG1_NB, BG1_KB, BG1_EDGES, ''NR BG1 TS 38.212 via Sionna Apache-2.0 CSV tables'')
      else (BG2_MB, BG2_NB, BG2_KB, BG2_EDGES, ''NR BG2 TS 38.212 via Sionna Apache-2.0 CSV tables''))"

definition graph_lifting :: "ldpc_params \<Rightarrow> (int \<times> int) result" where
  "graph_lifting p =
     (if p_zc p > 0
      then (let ils = i_ls_for_zc (p_zc p) in
            and_then (require (ils \<noteq> None) ''Zc not in TS 38.212 Table 5.3.2-1'')
              (\<lambda>_. Inr (p_zc p, if p_i_ls p \<ge> 0 then p_i_ls p else int (the ils))))
      else and_then (require (p_info_bits p > 0) ''zc==0 requires info_bits for lifting selection'')
             (\<lambda>_. and_then (select_lifting (p_info_bits p) (p_bg p))
             (\<lambda>lift. Inr (lc_zc lift, if p_i_ls p \<ge> 0 then p_i_ls p else lc_i_ls lift))))"

definition graph_rows :: "ldpc_params \<Rightarrow> nat \<Rightarrow> nat \<times> nat \<times> bg_edge list \<Rightarrow> (nat \<times> nat \<times> bg_edge list) result" where
  "graph_rows p kb base =
     (case base of (mb0, nb0, edges0) \<Rightarrow>
      if p_mb_use p > 0
      then and_then (require (p_mb_use p \<le> int mb0) ''mb_use exceeds base graph'') (\<lambda>_.
             let mb = nat (p_mb_use p); nb = kb + mb in
             Inr (mb, nb, filter (\<lambda>e. row e < mb \<and> col e < nb) edges0))
      else Inr (mb0, nb0, edges0))"

definition graph_filler :: "ldpc_params \<Rightarrow> int \<Rightarrow> int result" where
  "graph_filler p k_ldpc =
     (if p_info_bits p > 0
      then and_then (require (p_info_bits p \<le> k_ldpc) ''info_bits exceeds kb*Zc'')
             (\<lambda>_. Inr (k_ldpc - p_info_bits p))
      else Inr 0)"

definition make_graph :: "ldpc_params \<Rightarrow> graph result" where
  "make_graph p =
     (case base_of (p_bg p) of (mb0, nb0, kb0, edges0, prov) \<Rightarrow>
      let kb = (if p_kb p > 0 then nat (p_kb p) else kb0) in
      and_then (graph_lifting p) (\<lambda>(zc, ils).
      and_then (require (ils \<ge> 0 \<and> ils \<le> 7) ''i_ls out of range'') (\<lambda>_.
      and_then (require (kb > 0 \<and> kb < nb0) ''invalid kb'') (\<lambda>_.
      and_then (graph_rows p kb (mb0, nb0, edges0)) (\<lambda>(mb, nb, edges).
      and_then (graph_filler p (int kb * zc)) (\<lambda>filler.
      Inr \<lparr>g_mb = mb, g_nb = nb, g_kb = kb, g_zc = nat zc, g_i_ls = nat ils, g_filler = nat filler,
           g_edges = edges, g_provenance = prov\<rparr>))))))"

definition N_of :: "graph \<Rightarrow> nat" where "N_of g = g_nb g * g_zc g"
definition K_of :: "graph \<Rightarrow> nat" where "K_of g = g_kb g * g_zc g"
definition M_of :: "graph \<Rightarrow> nat" where "M_of g = g_mb g * g_zc g"

definition ldpc_graph_info :: "ldpc_params \<Rightarrow> ldpc_graph_info result" where
  "ldpc_graph_info p =
     and_then (make_graph p) (\<lambda>g.
       Inr \<lparr>i_mb = g_mb g, i_nb = g_nb g, i_kb = g_kb g, i_zc = g_zc g, i_i_ls = g_i_ls g,
            i_n_ldpc = N_of g, i_k_ldpc = K_of g, i_filler_bits = g_filler g,
            i_provenance = g_provenance g\<rparr>)"

definition lifted_var :: "nat \<Rightarrow> nat \<Rightarrow> nat \<Rightarrow> nat \<Rightarrow> nat" where
  "lifted_var col_block sh row_within zc = col_block * zc + (row_within + sh) mod zc"

type_synonym matrix = "u8 list list"

definition toggle :: "matrix \<Rightarrow> nat \<Rightarrow> nat \<Rightarrow> matrix" where
  "toggle H r c = H[r := (H ! r)[c := H ! r ! c XOR 1]]"

definition add_edge :: "graph \<Rightarrow> matrix \<Rightarrow> bg_edge \<Rightarrow> matrix" where
  "add_edge g H e =
     (let raw = shift e ! g_i_ls g in
      if raw < 0 then H
      else let sh = mod_shift raw (g_zc g) in
        foldl (\<lambda>H z. toggle H (row e * g_zc g + z) (lifted_var (col e) sh z (g_zc g))) H [0..<g_zc g])"

definition build_H :: "graph \<Rightarrow> matrix" where
  "build_H g = foldl (add_edge g) (replicate (M_of g) (replicate (N_of g) 0)) (g_edges g)"

record sparse_edge =
  s_check :: nat
  s_var :: nat

definition expand_edge :: "graph \<Rightarrow> bg_edge \<Rightarrow> sparse_edge list" where
  "expand_edge g e =
     (let raw = shift e ! g_i_ls g in
      if raw < 0 then []
      else let sh = mod_shift raw (g_zc g) in
        map (\<lambda>z. \<lparr>s_check = row e * g_zc g + z, s_var = lifted_var (col e) sh z (g_zc g)\<rparr>) [0..<g_zc g])"

definition expand_edges :: "graph \<Rightarrow> sparse_edge list" where
  "expand_edges g = concat (map (expand_edge g) (g_edges g))"

section \<open>Lemmas on lifting sizes\<close>

definition lifting_sizes :: "int list" where
  "lifting_sizes = filter (\<lambda>z. z \<le> 384)
     (concat (map (\<lambda>a. map (\<lambda>j. a * 2 ^ j) [0..<8]) [2, 3, 5, 7, 9, 11, 13, 15]))"

lemma candidates_eval:
  "list_all (\<lambda>(i, z). 0 \<le> i \<and> i < 8 \<and> (z < 0 \<or> 0 < z \<and> z \<le> 384 \<and> i_ls_for_zc z = Some (nat i))) lifting_candidates"
  by code_simp

lemma candidates_complete_1: "list_all (\<lambda>z. List.member (map snd lifting_candidates) z) lifting_sizes"
  by code_simp

lemma candidates_complete_2: "list_all (\<lambda>(i, z). z = -1 \<or> List.member lifting_sizes z) lifting_candidates"
  by code_simp

lemma candidates_complete_3: "List.member lifting_candidates (1, 384)"
  by code_simp

lemmas candidates_complete = candidates_complete_1 candidates_complete_2 candidates_complete_3

lemma candidates_minus_one: "i_ls_for_zc (-1) = Some 2"
  by (simp add: i_ls_for_zc_def kLiftingSets_def upt_rec)

lemma i_ls_for_zc_iff: "i_ls_for_zc zc \<noteq> None \<longleftrightarrow> zc \<in> snd ` set lifting_candidates"
  by (force simp: i_ls_for_zc_def lifting_candidates_def find_None_iff image_iff)

lemma i_ls_for_zc_less: "i_ls_for_zc zc = Some i \<Longrightarrow> i < 8"
  by (auto simp: i_ls_for_zc_def find_Some_iff)

lemma valid_lifting_iff: "is_valid_lifting_size zc \<longleftrightarrow> zc = -1 \<or> zc \<in> set lifting_sizes"
proof
  assume "is_valid_lifting_size zc"
  then obtain i where "(i, zc) \<in> set lifting_candidates"
    using i_ls_for_zc_iff [of zc] by (auto simp: is_valid_lifting_size_def)
  with candidates_complete_2 show "zc = -1 \<or> zc \<in> set lifting_sizes"
    by (auto simp: list_all_iff)
next
  assume "zc = -1 \<or> zc \<in> set lifting_sizes"
  moreover have "zc \<in> snd ` set lifting_candidates" if "zc \<in> set lifting_sizes"
    using candidates_complete_1 that by (simp add: list_all_iff)
  ultimately show "is_valid_lifting_size zc"
    using candidates_minus_one i_ls_for_zc_iff [of zc] by (auto simp: is_valid_lifting_size_def)
qed

lemma valid_lifting_bounds: "zc \<in> set lifting_sizes \<Longrightarrow> 0 < zc \<and> zc \<le> 384"
  by (auto simp: lifting_sizes_def)

lemma lifting_step_simp:
  "lifting_step kb k (bz, bi, bv) (i, z) =
     (if z \<ge> 0 \<and> k \<le> kb * z \<and> kb * z < bv then (z, i, kb * z) else (bz, bi, bv))"
  by (auto simp: lifting_step_def Let_def)

lemma foldl_lifting_step:
  assumes "foldl (lifting_step kb k) (bz, bi, bv) cs = (z, i, v)"
  shows "v \<le> bv \<and> (\<forall>(i', z')\<in>set cs. z' \<ge> 0 \<and> kb * z' \<ge> k \<longrightarrow> v \<le> kb * z') \<and>
    ((z, i, v) = (bz, bi, bv) \<or> (i, z) \<in> set cs \<and> z \<ge> 0 \<and> v = kb * z \<and> kb * z \<ge> k)"
  using assms
proof (induction cs arbitrary: bz bi bv)
  case (Cons c cs)
  obtain i' z' where c: "c = (i', z')" by (cases c)
  show ?case
  proof (cases "z' \<ge> 0 \<and> kb * z' \<ge> k \<and> kb * z' < bv")
    case True
    with Cons.prems c have "foldl (lifting_step kb k) (z', i', kb * z') cs = (z, i, v)"
      by (simp add: lifting_step_simp)
    from Cons.IH [OF this] True c show ?thesis by auto
  next
    case False
    with Cons.prems c have "foldl (lifting_step kb k) (bz, bi, bv) cs = (z, i, v)"
      by (simp add: lifting_step_simp split: if_splits)
    from Cons.IH [OF this] False c show ?thesis by auto
  qed
qed simp

lemma kb_for_selection_bounds:
  "0 < kb_for_selection k bg" "kb_for_selection k bg \<le> 22"
  "kb_for_selection k bg \<le> int (if bg = BG1 then BG1_KB else BG2_KB)"
  by (cases bg; auto simp: kb_for_selection_def bg_dims)+

lemma select_lifting_Inr:
  assumes "select_lifting k bg = Inr lc"
  shows "lc_zc lc \<in> set lifting_sizes" "i_ls_for_zc (lc_zc lc) = Some (nat (lc_i_ls lc))"
    "0 \<le> lc_i_ls lc" "lc_i_ls lc < 8"
    "k \<le> kb_for_selection k bg * lc_zc lc"
    "\<And>z. z \<in> set lifting_sizes \<Longrightarrow> k \<le> kb_for_selection k bg * z \<Longrightarrow> lc_zc lc \<le> z"
    "lc_kb lc = int (if bg = BG1 then BG1_KB else BG2_KB)"
proof -
  let ?kb = "kb_for_selection k bg"
  obtain z i v where f: "foldl (lifting_step ?kb k) (0, 0, 1000000) lifting_candidates = (z, i, v)"
    by (cases "foldl (lifting_step ?kb k) (0, 0, 1000000) lifting_candidates")
  with assms have z: "0 < z" and lc: "lc = \<lparr>lc_zc = z, lc_i_ls = i, lc_kb = int (if bg = BG1 then BG1_KB else BG2_KB)\<rparr>"
    by (auto simp: select_lifting_def Let_def split: if_splits)
  from foldl_lifting_step [OF f] z
  have min: "\<And>i' z'. (i', z') \<in> set lifting_candidates \<Longrightarrow> z' \<ge> 0 \<Longrightarrow> ?kb * z' \<ge> k \<Longrightarrow> v \<le> ?kb * z'"
    and mem: "(i, z) \<in> set lifting_candidates" "v = ?kb * z" "?kb * z \<ge> k" by auto
  from candidates_eval mem(1) z have i: "0 \<le> i" "i < 8" "i_ls_for_zc z = Some (nat i)"
    by (auto simp: list_all_iff)
  from candidates_complete(2) mem(1) z have zs: "z \<in> set lifting_sizes"
    by (auto simp: list_all_iff)
  show "k \<le> ?kb * z' \<Longrightarrow> lc_zc lc \<le> z'" if zs': "z' \<in> set lifting_sizes" for z'
  proof -
    assume le: "k \<le> ?kb * z'"
    from candidates_complete(1) zs' obtain i' where "(i', z') \<in> set lifting_candidates"
      by (force simp: list_all_iff)
    with min le valid_lifting_bounds [OF zs'] mem(2) have "?kb * z \<le> ?kb * z'" by force
    then show ?thesis using kb_for_selection_bounds(1) [of k bg] lc by simp
  qed
  show "lc_zc lc \<in> set lifting_sizes" "i_ls_for_zc (lc_zc lc) = Some (nat (lc_i_ls lc))"
    "0 \<le> lc_i_ls lc" "lc_i_ls lc < 8" "k \<le> ?kb * lc_zc lc"
    "lc_kb lc = int (if bg = BG1 then BG1_KB else BG2_KB)"
    using zs i mem lc by simp_all
qed

lemma select_lifting_total:
  assumes "k \<le> kb_for_selection k bg * 384"
  shows "\<exists>lc. select_lifting k bg = Inr lc"
proof -
  let ?kb = "kb_for_selection k bg"
  obtain z i v where f: "foldl (lifting_step ?kb k) (0, 0, 1000000) lifting_candidates = (z, i, v)"
    by (cases "foldl (lifting_step ?kb k) (0, 0, 1000000) lifting_candidates")
  from foldl_lifting_step [OF f] candidates_complete(3) assms
  have "v \<le> ?kb * 384" by force
  also have "\<dots> < 1000000" using kb_for_selection_bounds(2) [of k bg] by linarith
  finally have "(i, z) \<in> set lifting_candidates" "z \<ge> 0" using foldl_lifting_step [OF f] by auto
  with candidates_eval have "0 < z" by (auto simp: list_all_iff)
  with f show ?thesis by (simp add: select_lifting_def Let_def)
qed

lemma select_lifting_error:
  assumes "k > kb_for_selection k bg * 384"
  shows "select_lifting k bg = Inl (Error ''no valid lifting size for K'')"
proof (rule ccontr)
  assume "\<not> ?thesis"
  then obtain lc where lc: "select_lifting k bg = Inr lc"
    by (auto simp: select_lifting_def Let_def split: prod.splits if_splits)
  note s = select_lifting_Inr [OF lc]
  from s(1) have "lc_zc lc \<le> 384" by (simp add: valid_lifting_bounds)
  then have "kb_for_selection k bg * lc_zc lc \<le> kb_for_selection k bg * 384"
    using kb_for_selection_bounds(1) [of k bg] by simp
  with s(5) assms show False by linarith
qed

section \<open>Well-formed graphs\<close>

definition graph_ok :: "graph \<Rightarrow> bool" where
  "graph_ok g \<longleftrightarrow> 0 < g_zc g \<and> int (g_zc g) \<in> set lifting_sizes \<and> g_i_ls g < 8 \<and> 0 < g_kb g \<and>
     g_kb g < g_nb g \<and> g_filler g \<le> K_of g \<and> (\<forall>e\<in>set (g_edges g). edge_ok (g_mb g) (g_nb g) e)"

lemma base_of_ok:
  "base_of bg = (mb, nb, kb, edges, prov) \<Longrightarrow> e \<in> set edges \<Longrightarrow> edge_ok mb nb e"
  using bg_edges_ok by (auto simp: base_of_def list_all_iff split: if_splits)

lemma graph_lifting_Inr:
  assumes "graph_lifting p = Inr (zc, ils)"
  shows "zc \<in> set lifting_sizes" "p_i_ls p \<ge> 0 \<Longrightarrow> ils = p_i_ls p"
    "p_i_ls p < 0 \<Longrightarrow> i_ls_for_zc zc = Some (nat ils) \<and> 0 \<le> ils"
    "p_zc p > 0 \<Longrightarrow> zc = p_zc p"
  using assms valid_lifting_iff [of "p_zc p"]
  by (auto simp: graph_lifting_def Let_def and_then_Inr_iff is_valid_lifting_size_def
      dest: select_lifting_Inr split: if_splits)

lemma make_graph_InrE:
  assumes "make_graph p = Inr g"
  obtains mb0 nb0 kb0 edges0 prov zc ils where
    "base_of (p_bg p) = (mb0, nb0, kb0, edges0, prov)" "graph_lifting p = Inr (zc, ils)"
    "0 \<le> ils" "ils \<le> 7" "g_zc g = nat zc" "g_i_ls g = nat ils" "g_provenance g = prov"
    "g_kb g = (if p_kb p > 0 then nat (p_kb p) else kb0)" "0 < g_kb g" "g_kb g < nb0"
    "p_mb_use p > 0 \<Longrightarrow> p_mb_use p \<le> int mb0"
    "g_mb g = (if p_mb_use p > 0 then nat (p_mb_use p) else mb0)"
    "g_nb g = (if p_mb_use p > 0 then g_kb g + g_mb g else nb0)"
    "g_edges g = (if p_mb_use p > 0
       then filter (\<lambda>e. row e < g_mb g \<and> col e < g_nb g) edges0 else edges0)"
    "p_info_bits p > 0 \<Longrightarrow> p_info_bits p \<le> int (g_kb g) * zc"
    "g_filler g = (if p_info_bits p > 0 then nat (int (g_kb g) * zc - p_info_bits p) else 0)"
proof -
  obtain mb0 nb0 kb0 edges0 prov where b: "base_of (p_bg p) = (mb0, nb0, kb0, edges0, prov)"
    by (cases "base_of (p_bg p)") auto
  from assms b obtain zc ils mb nb edges filler where l: "graph_lifting p = Inr (zc, ils)"
    and i: "0 \<le> ils" "ils \<le> 7"
    and kb: "0 < (if p_kb p > 0 then nat (p_kb p) else kb0)" "(if p_kb p > 0 then nat (p_kb p) else kb0) < nb0"
    and r: "graph_rows p (if p_kb p > 0 then nat (p_kb p) else kb0) (mb0, nb0, edges0) = Inr (mb, nb, edges)"
    and f: "graph_filler p (int (if p_kb p > 0 then nat (p_kb p) else kb0) * zc) = Inr filler"
    and g: "g = \<lparr>g_mb = mb, g_nb = nb, g_kb = (if p_kb p > 0 then nat (p_kb p) else kb0), g_zc = nat zc,
      g_i_ls = nat ils, g_filler = nat filler, g_edges = edges, g_provenance = prov\<rparr>"
    by (auto simp: make_graph_def Let_def and_then_Inr_iff split: if_split_asm)
  from r have r': "p_mb_use p > 0 \<Longrightarrow> p_mb_use p \<le> int mb0" "mb = (if p_mb_use p > 0 then nat (p_mb_use p) else mb0)"
    "nb = (if p_mb_use p > 0 then (if p_kb p > 0 then nat (p_kb p) else kb0) + mb else nb0)"
    "edges = (if p_mb_use p > 0 then filter (\<lambda>e. row e < mb \<and> col e < nb) edges0 else edges0)"
    by (auto simp: graph_rows_def Let_def split: if_split_asm)
  from f have f': "p_info_bits p > 0 \<Longrightarrow> p_info_bits p \<le> int (if p_kb p > 0 then nat (p_kb p) else kb0) * zc"
    "nat filler = (if p_info_bits p > 0 then nat (int (if p_kb p > 0 then nat (p_kb p) else kb0) * zc - p_info_bits p) else 0)"
    by (simp_all add: graph_filler_def split: if_split_asm)
  show thesis
    by (rule that [OF b l]) (use i kb r' f' g in simp_all)
qed

lemma make_graph_ok:
  assumes "make_graph p = Inr g"
  shows "graph_ok g"
  using assms
proof (rule make_graph_InrE)
  fix mb0 nb0 kb0 edges0 prov zc ils
  assume b: "base_of (p_bg p) = (mb0, nb0, kb0, edges0, prov)" and l: "graph_lifting p = Inr (zc, ils)"
    and i: "0 \<le> ils" "ils \<le> 7" "g_zc g = nat zc" "g_i_ls g = nat ils"
    and kb: "0 < g_kb g" "g_kb g < nb0"
    and mb: "g_mb g = (if p_mb_use p > 0 then nat (p_mb_use p) else mb0)"
    and nb: "g_nb g = (if p_mb_use p > 0 then g_kb g + g_mb g else nb0)"
    and ed: "g_edges g = (if p_mb_use p > 0
       then filter (\<lambda>e. row e < g_mb g \<and> col e < g_nb g) edges0 else edges0)"
    and fl: "g_filler g = (if p_info_bits p > 0 then nat (int (g_kb g) * zc - p_info_bits p) else 0)"
  have z: "0 < zc" "zc \<in> set lifting_sizes"
    using graph_lifting_Inr(1) [OF l] valid_lifting_bounds by auto
  have "edge_ok (g_mb g) (g_nb g) e" if "e \<in> set (g_edges g)" for e
    using base_of_ok [OF b, of e] that ed mb nb by (auto simp: edge_ok_def split: if_splits)
  moreover have "g_filler g \<le> K_of g" using fl i z by (auto simp: K_of_def nat_le_iff)
  ultimately show ?thesis using z i kb mb nb by (auto simp: graph_ok_def)
qed

end
