(* ===== verification/Gf2.thy ===== *)
theory Gf2
  imports Prelude
begin

text \<open>
  Linear algebra over GF(2) on 0/1 bytes: finite xor sums, the product of a matrix row with a
  vector, and the solutions of a square system. Shared by the encoders and the decoders.
\<close>

section \<open>Finite xor sums\<close>

primrec xsum :: "nat \<Rightarrow> (nat \<Rightarrow> u8) \<Rightarrow> u8" where
  "xsum 0 f = 0"
| "xsum (Suc n) f = xsum n f XOR f n"

definition xlist :: "('a \<Rightarrow> u8) \<Rightarrow> 'a list \<Rightarrow> u8" where
  "xlist f xs = foldr (\<lambda>x s. f x XOR s) xs 0"

lemma xsum_cong: "(\<And>i. i < n \<Longrightarrow> f i = g i) \<Longrightarrow> xsum n f = xsum n g"
  by (induction n) auto

lemma xsum_zero: "(\<And>i. i < n \<Longrightarrow> f i = 0) \<Longrightarrow> xsum n f = 0"
  by (induction n) auto

lemma xsum_xor: "xsum n (\<lambda>i. f i XOR g i) = xsum n f XOR xsum n g"
  by (induction n) (simp_all add: ac_simps)

lemma xsum_single: "j < n \<Longrightarrow> (\<And>i. i < n \<Longrightarrow> i \<noteq> j \<Longrightarrow> f i = 0) \<Longrightarrow> xsum n f = f j"
proof (induction n)
  case (Suc n)
  show ?case
  proof (cases "j = n")
    case True
    with Suc.prems have "xsum n f = 0" by (intro xsum_zero) auto
    with True show ?thesis by simp
  next
    case False
    with Suc have "xsum n f = f j" "f n = 0" by auto
    then show ?thesis by simp
  qed
qed simp

lemma xsum_split: "xsum (m + n) f = xsum m f XOR xsum n (\<lambda>i. f (m + i))"
  by (induction n) (simp_all add: ac_simps)

lemma is_bit_xsum [bit_vec]: "(\<And>i. i < n \<Longrightarrow> is_bit (f i)) \<Longrightarrow> is_bit (xsum n f)"
  by (induction n) (auto intro: is_bit_xor)

lemma xlist_simps [simp]:
  "xlist f [] = 0"
  "xlist f (x # xs) = f x XOR xlist f xs"
  "xlist f (xs @ ys) = xlist f xs XOR xlist f ys"
proof -
  show "xlist f (xs @ ys) = xlist f xs XOR xlist f ys"
    by (induction xs) (simp_all add: xlist_def ac_simps)
qed (simp_all add: xlist_def)

lemma xlist_concat: "xlist f (concat xss) = xlist (xlist f) xss"
  by (induction xss) simp_all

lemma xlist_map: "xlist f (map g xs) = xlist (\<lambda>x. f (g x)) xs"
  by (induction xs) simp_all

lemma xlist_cong: "(\<And>x. x \<in> set xs \<Longrightarrow> f x = g x) \<Longrightarrow> xlist f xs = xlist g xs"
  by (induction xs) auto

lemma xlist_filter: "xlist f (filter P xs) = xlist (\<lambda>x. if P x then f x else 0) xs"
  by (induction xs) auto

lemma xlist_zero: "(\<And>x. x \<in> set xs \<Longrightarrow> f x = 0) \<Longrightarrow> xlist f xs = 0"
  by (induction xs) auto

lemma xlist_upt: "xlist f [0..<n] = xsum n f"
  by (induction n) simp_all

lemma foldl_xor: "foldl (\<lambda>s x. s XOR f x) a xs = a XOR xlist f xs"
  by (induction xs arbitrary: a) (simp_all add: ac_simps)

section \<open>Rows and systems\<close>

definition dot :: "nat \<Rightarrow> bitvec \<Rightarrow> (nat \<Rightarrow> u8) \<Rightarrow> u8" where
  "dot n row f = xsum n (\<lambda>c. if row ! c \<noteq> 0 then f c else 0)"

lemma dot_cong: "(\<And>c. c < n \<Longrightarrow> row ! c = row' ! c \<and> f c = f' c) \<Longrightarrow> dot n row f = dot n row' f'"
  unfolding dot_def by (rule xsum_cong) auto

lemma dot_xor_row:
  assumes "\<And>c. c < n \<Longrightarrow> is_bit (a ! c) \<and> is_bit (b ! c) \<and> w ! c = a ! c XOR b ! c"
  shows "dot n w f = dot n a f XOR dot n b f"
proof -
  have "dot n w f = xsum n (\<lambda>c. (if a ! c \<noteq> 0 then f c else 0) XOR (if b ! c \<noteq> 0 then f c else 0))"
    unfolding dot_def
  proof (rule xsum_cong)
    fix c assume "c < n"
    with assms [of c] show "(if w ! c \<noteq> 0 then f c else 0) =
        (if a ! c \<noteq> 0 then f c else 0) XOR (if b ! c \<noteq> 0 then f c else 0)"
      by (auto simp: is_bit_def)
  qed
  then show ?thesis by (simp add: dot_def xsum_xor)
qed

lemma dot_xor_fun: "dot n row (\<lambda>c. f c XOR g c) = dot n row f XOR dot n row g"
  unfolding dot_def by (subst xsum_xor [symmetric]) (rule xsum_cong, simp)

lemma dot_unit: "j < n \<Longrightarrow> (\<And>c. c < n \<Longrightarrow> row ! c = of_bool (c = j)) \<Longrightarrow> dot n row f = f j"
  unfolding dot_def by (subst xsum_single [where j = j]) auto

lemma dot_split: "dot (m + n) row f = dot m row f XOR dot n (drop m row) (\<lambda>c. f (m + c))"
  if "m + n \<le> length row"
  using that by (simp add: dot_def xsum_split)

definition square :: "nat \<Rightarrow> bitvec list \<Rightarrow> bool" where
  "square M A \<longleftrightarrow> length A = M \<and> (\<forall>r<M. length (A ! r) = M \<and> bits_ok (A ! r))"

lemma square_bit: "square M A \<Longrightarrow> r < M \<Longrightarrow> c < M \<Longrightarrow> is_bit (A ! r ! c)"
  by (auto simp: square_def intro: bits_ok_nth)

definition solves :: "nat \<Rightarrow> bitvec list \<Rightarrow> bitvec \<Rightarrow> (nat \<Rightarrow> u8) \<Rightarrow> bool" where
  "solves M A b f \<longleftrightarrow> (\<forall>r<M. dot M (A ! r) f = b ! r)"

definition nonsingular :: "nat \<Rightarrow> bitvec list \<Rightarrow> bool" where
  "nonsingular M A \<longleftrightarrow> (\<forall>f. (\<forall>c<M. is_bit (f c)) \<and> (\<forall>r<M. dot M (A ! r) f = 0) \<longrightarrow> (\<forall>c<M. f c = 0))"

end
