(* ===== verification/LdpcEncode.thy ===== *)
theory LdpcEncode
  imports LdpcGraph Gf2
begin

text \<open>
  The systematic encoder of \<open>src/ldpc.cpp\<close> (\<open>encode_ge\<close>, \<open>ldpc_encode\<close>), the syndrome check and
  the reference vectors. The parity bits come from Gauss-Jordan elimination over GF(2); the loop
  over the columns, the pivot search, the row swap and the elimination of the other rows are
  separate definitions, in the order of the code. The lemmas show that the elimination returns the
  unique solution of the system whenever it succeeds, that it fails exactly on a singular matrix,
  and so that every codeword the encoder returns passes the syndrome check.
\<close>

section \<open>The code\<close>

function find_pivot :: "matrix \<Rightarrow> nat \<Rightarrow> nat \<Rightarrow> nat \<Rightarrow> nat" where
  "find_pivot A M cl piv =
     (if piv < M \<and> A ! piv ! cl = 0 then find_pivot A M cl (Suc piv) else piv)"
  by pat_completeness auto
termination by (relation "measure (\<lambda>(A, M, c, piv). M - piv)") auto

declare find_pivot.simps [simp del]

definition swap_rows :: "'a list \<Rightarrow> nat \<Rightarrow> nat \<Rightarrow> 'a list" where
  "swap_rows A i j = A[i := A ! j, j := A ! i]"

definition xor_from :: "nat \<Rightarrow> bitvec \<Rightarrow> bitvec \<Rightarrow> bitvec" where
  "xor_from c dst src = take c dst @ xor_vec (drop c dst) (drop c src)"

definition elim_row :: "nat \<Rightarrow> matrix \<times> bitvec \<Rightarrow> nat \<Rightarrow> matrix \<times> bitvec" where
  "elim_row c st r =
     (case st of (A, rhs) \<Rightarrow>
        if r = c \<or> A ! r ! c = 0 then (A, rhs)
        else (A[r := xor_from c (A ! r) (A ! c)], rhs[r := rhs ! r XOR rhs ! c]))"

definition gj_col :: "string \<Rightarrow> nat \<Rightarrow> matrix \<times> bitvec \<Rightarrow> nat \<Rightarrow> (matrix \<times> bitvec) result" where
  "gj_col msg M st c =
     (case st of (A, rhs) \<Rightarrow>
        let piv = find_pivot A M c c in
        and_then (require (piv < M) msg) (\<lambda>_.
          let st' = (if piv \<noteq> c then (swap_rows A c piv, swap_rows rhs c piv) else (A, rhs)) in
          Inr (foldl (elim_row c) st' [0..<M])))"

fun gauss_jordan :: "string \<Rightarrow> nat \<Rightarrow> matrix \<times> bitvec \<Rightarrow> nat list \<Rightarrow> (matrix \<times> bitvec) result" where
  "gauss_jordan msg M st [] = Inr st"
| "gauss_jordan msg M st (c # cs) = and_then (gj_col msg M st c) (\<lambda>st'. gauss_jordan msg M st' cs)"

definition singular_msg :: string where
  "singular_msg = ''parity submatrix singular '' @ [CHR 0xE2, CHR 0x80, CHR 0x94] @ '' check Zc/i_ls/BG''"

definition info_parity :: "nat \<Rightarrow> bitvec \<Rightarrow> bitvec \<Rightarrow> u8" where
  "info_parity K h info = foldl (\<lambda>s k. if h ! k \<noteq> 0 \<and> info ! k \<noteq> 0 then s XOR 1 else s) 0 [0..<K]"

definition parity_matrix :: "graph \<Rightarrow> matrix" where
  "parity_matrix g = map (\<lambda>r. map (\<lambda>c. build_H g ! r ! (K_of g + c)) [0..<M_of g]) [0..<M_of g]"

definition encode_ge :: "bitvec \<Rightarrow> graph \<Rightarrow> bitvec result" where
  "encode_ge info_full g =
     (let K = K_of g; N = N_of g; M = M_of g in
      and_then (require (length info_full = K) ''info length must equal kb*zc (incl. filler)'') (\<lambda>_.
      let H = build_H g;
          rhs = map (\<lambda>r. info_parity K (H ! r) info_full) [0..<M]
      in if N < K + M then Inl (Undefined ''H read and codeword write past the end'')
         else and_then (gauss_jordan singular_msg M (parity_matrix g, rhs) [0..<M])
           (\<lambda>st. Inr (info_full @ snd st @ replicate (N - (K + M)) 0))))"

definition encode_params :: "bitvec \<Rightarrow> ldpc_params \<Rightarrow> ldpc_params" where
  "encode_params info p =
     (if p_info_bits p < 0 then p\<lparr>p_info_bits := int (length info)\<rparr> else p)"

definition ldpc_encode :: "bitvec \<Rightarrow> ldpc_params \<Rightarrow> bitvec result" where
  "ldpc_encode info p =
     and_then (require (bits_ok info) ''info bits must be 0/1'') (\<lambda>_.
     and_then (make_graph (encode_params info p)) (\<lambda>g.
     let K = K_of g in
     and_then (require (length info \<le> K) ''info longer than kb*Zc'') (\<lambda>_.
     encode_ge (info @ replicate (K - length info) 0) g)))"

definition row_syndrome :: "nat \<Rightarrow> bitvec \<Rightarrow> bitvec \<Rightarrow> u8" where
  "row_syndrome N h cw = foldl (\<lambda>s c. if h ! c \<noteq> 0 then s XOR cw ! c else s) 0 [0..<N]"

definition ldpc_syndrome_ok :: "bitvec \<Rightarrow> ldpc_params \<Rightarrow> bool result" where
  "ldpc_syndrome_ok codeword p =
     and_then (make_graph p) (\<lambda>g.
     and_then (require (length codeword = N_of g) ''codeword length'') (\<lambda>_.
     let H = build_H g in
     Inr (list_all (\<lambda>r. row_syndrome (N_of g) (H ! r) codeword = 0) [0..<M_of g])))"

record ldpc_reference_vector =
  r_info :: bitvec
  r_codeword :: bitvec
  r_params :: ldpc_params
  r_provenance :: string

definition ldpc_make_reference :: "bitvec \<Rightarrow> ldpc_params \<Rightarrow> ldpc_reference_vector result" where
  "ldpc_make_reference info p =
     and_then (ldpc_encode info p) (\<lambda>cw.
     and_then (ldpc_graph_info p) (\<lambda>gi.
     Inr \<lparr>r_info = info, r_codeword = cw, r_params = p,
          r_provenance = i_provenance gi @ ''; self-generated''\<rparr>))"

section \<open>Pivot search, swap and elimination of one column\<close>

lemma find_pivot_spec:
  "find_pivot A M c piv \<ge> piv \<and>
   (find_pivot A M c piv < M \<longrightarrow> A ! find_pivot A M c piv ! c \<noteq> 0) \<and>
   (\<forall>r. piv \<le> r \<and> r < find_pivot A M c piv \<and> r < M \<longrightarrow> A ! r ! c = 0)"
proof (induction A M c piv rule: find_pivot.induct)
  case (1 A M c piv)
  show ?case
  proof (cases "piv < M \<and> A ! piv ! c = 0")
    case True
    with 1 have IH: "find_pivot A M c (Suc piv) \<ge> Suc piv"
      "find_pivot A M c (Suc piv) < M \<longrightarrow> A ! find_pivot A M c (Suc piv) ! c \<noteq> 0"
      "\<forall>r. Suc piv \<le> r \<and> r < find_pivot A M c (Suc piv) \<and> r < M \<longrightarrow> A ! r ! c = 0" by auto
    have "find_pivot A M c piv = find_pivot A M c (Suc piv)"
      using True by (simp add: find_pivot.simps [of A M c piv])
    moreover have "A ! r ! c = 0"
      if "piv \<le> r" "r < find_pivot A M c (Suc piv)" "r < M" for r
      using that True IH(3) by (cases "r = piv") auto
    ultimately show ?thesis using IH(1,2) by auto
  next
    case False
    then have "find_pivot A M c piv = piv" by (auto simp: find_pivot.simps [of A M c piv])
    with False show ?thesis by auto
  qed
qed

lemma length_swap_rows [simp]: "length (swap_rows A i j) = length A"
  by (simp add: swap_rows_def)

lemma nth_swap_rows:
  "i < length A \<Longrightarrow> j < length A \<Longrightarrow> r < length A \<Longrightarrow>
   swap_rows A i j ! r = A ! (if r = i then j else if r = j then i else r)"
  by (auto simp: swap_rows_def nth_list_update)

lemma length_xor_from [simp]: "length dst = length src \<Longrightarrow> length (xor_from c dst src) = length dst"
  by (simp add: xor_from_def)

lemma nth_xor_from:
  "length dst = length src \<Longrightarrow> i < length dst \<Longrightarrow>
   xor_from c dst src ! i = (if i < c then dst ! i else dst ! i XOR src ! i)"
  by (simp add: xor_from_def nth_append)

definition cleared :: "nat \<Rightarrow> matrix \<Rightarrow> nat \<Rightarrow> bool" where
  "cleared M A k \<longleftrightarrow> (\<forall>c<k. \<forall>r<M. A ! r ! c = of_bool (r = c))"

text \<open>The rows after the elimination of column \<open>c\<close>.\<close>

lemma elim_fold:
  assumes "length A = M" "length rhs = M" "c < M" "k \<le> M"
  shows "case foldl (elim_row c) (A, rhs) [0..<k] of (A', rhs') \<Rightarrow>
    length A' = M \<and> length rhs' = M \<and>
    (\<forall>r<M. A' ! r = (if r < k \<and> r \<noteq> c \<and> A ! r ! c \<noteq> 0 then xor_from c (A ! r) (A ! c) else A ! r) \<and>
           rhs' ! r = (if r < k \<and> r \<noteq> c \<and> A ! r ! c \<noteq> 0 then rhs ! r XOR rhs ! c else rhs ! r))"
  using assms(4)
proof (induction k)
  case (Suc k)
  obtain A' rhs' where st: "foldl (elim_row c) (A, rhs) [0..<k] = (A', rhs')"
    by (cases "foldl (elim_row c) (A, rhs) [0..<k]")
  with Suc have IH: "length A' = M" "length rhs' = M"
    "\<And>r. r < M \<Longrightarrow> A' ! r = (if r < k \<and> r \<noteq> c \<and> A ! r ! c \<noteq> 0 then xor_from c (A ! r) (A ! c) else A ! r)"
    "\<And>r. r < M \<Longrightarrow> rhs' ! r = (if r < k \<and> r \<noteq> c \<and> A ! r ! c \<noteq> 0 then rhs ! r XOR rhs ! c else rhs ! r)"
    by auto
  have "A' ! c = A ! c" "A' ! k = A ! k" "rhs' ! c = rhs ! c" "rhs' ! k = rhs ! k"
    using IH assms(3) Suc.prems by simp_all
  then have "foldl (elim_row c) (A, rhs) [0..<Suc k] =
      (if k = c \<or> A ! k ! c = 0 then (A', rhs')
       else (A'[k := xor_from c (A ! k) (A ! c)], rhs'[k := rhs ! k XOR rhs ! c]))"
    using st by (simp add: elim_row_def)
  with IH Suc.prems show ?case by (auto simp: nth_list_update less_Suc_eq)
qed (use assms in simp)

text \<open>What one column of the elimination does: the pivot row is added to every other row with a nonzero entry.\<close>

definition hits :: "nat \<Rightarrow> matrix \<Rightarrow> nat \<Rightarrow> bool" where
  "hits c A r \<longleftrightarrow> r \<noteq> c \<and> A ! r ! c \<noteq> 0"

lemma elim_effect:
  assumes A: "square M A" and b: "length rhs = M" and c: "c < M" and cl: "cleared M A c"
    and st: "foldl (elim_row c) (A, rhs) [0..<M] = (A', rhs')"
  shows "length A' = M" "length rhs' = M" "\<And>r. r < M \<Longrightarrow> length (A' ! r) = M"
    "\<And>r. r < M \<Longrightarrow> rhs' ! r = (if hits c A r then rhs ! r XOR rhs ! c else rhs ! r)"
    "\<And>r i. r < M \<Longrightarrow> i < M \<Longrightarrow> A' ! r ! i = (if hits c A r then A ! r ! i XOR A ! c ! i else A ! r ! i)"
proof -
  have len: "length A = M" "\<And>r. r < M \<Longrightarrow> length (A ! r) = M" using A by (auto simp: square_def)
  from elim_fold [OF len(1) b c order_refl] st
  have A': "length A' = M" "length rhs' = M"
    "\<And>r. r < M \<Longrightarrow> A' ! r = (if hits c A r then xor_from c (A ! r) (A ! c) else A ! r)"
    "\<And>r. r < M \<Longrightarrow> rhs' ! r = (if hits c A r then rhs ! r XOR rhs ! c else rhs ! r)"
    by (auto simp: hits_def)
  show "length A' = M" "length rhs' = M" by fact+
  show "length (A' ! r) = M" if "r < M" for r using A'(3) that len c by simp
  show "rhs' ! r = (if hits c A r then rhs ! r XOR rhs ! c else rhs ! r)" if "r < M" for r using A'(4) that .
  show "A' ! r ! i = (if hits c A r then A ! r ! i XOR A ! c ! i else A ! r ! i)" if "r < M" "i < M" for r i
  proof (cases "hits c A r \<and> i < c")
    case True
    with cl c have "A ! c ! i = 0" by (auto simp: cleared_def)
    with True that A'(3) len c show ?thesis by (simp add: nth_xor_from)
  next
    case False
    with that A'(3) len c show ?thesis by (auto simp: nth_xor_from)
  qed
qed

lemma elim_solves:
  assumes A: "square M A" and b: "length rhs = M" and c: "c < M" and cl: "cleared M A c"
    and st: "foldl (elim_row c) (A, rhs) [0..<M] = (A', rhs')"
  shows "solves M A' rhs' f \<longleftrightarrow> solves M A rhs f"
proof -
  note eff = elim_effect [OF assms]
  have dot: "dot M (A' ! r) f = dot M (A ! r) f XOR (if hits c A r then dot M (A ! c) f else 0)" if r: "r < M" for r
  proof (cases "hits c A r")
    case True
    with r eff(5) square_bit [OF A] c have "dot M (A' ! r) f = dot M (A ! r) f XOR dot M (A ! c) f"
      by (intro dot_xor_row) auto
    with True show ?thesis by simp
  next
    case False
    with r eff(5) show ?thesis by (simp cong: dot_cong)
  qed
  have c_not: "\<not> hits c A c" by (simp add: hits_def)
  show ?thesis
  proof
    assume L: "solves M A' rhs' f"
    then have dc: "dot M (A ! c) f = rhs ! c" using dot [OF c] eff(4) [OF c] c c_not by (simp add: solves_def)
    show "solves M A rhs f" unfolding solves_def
    proof (intro allI impI)
      fix r assume r: "r < M"
      with L have "dot M (A' ! r) f = rhs' ! r" by (simp add: solves_def)
      with dot [OF r] eff(4) [OF r] dc show "dot M (A ! r) f = rhs ! r" by (cases "hits c A r") simp_all
    qed
  next
    assume "solves M A rhs f"
    then show "solves M A' rhs' f" using dot eff(4) c by (auto simp: solves_def)
  qed
qed

lemma elim_column:
  assumes A: "square M A" and b: "length rhs = M" "bits_ok rhs" and c: "c < M"
    and pivot: "A ! c ! c \<noteq> 0" and cl: "cleared M A c"
    and st: "foldl (elim_row c) (A, rhs) [0..<M] = (A', rhs')"
  shows "square M A'" "length rhs' = M" "bits_ok rhs'" "cleared M A' (Suc c)"
    "solves M A' rhs' f \<longleftrightarrow> solves M A rhs f"
    "rhs = replicate M 0 \<Longrightarrow> rhs' = replicate M 0"
proof -
  note eff = elim_effect [OF A b(1) c cl st]
  have bit: "is_bit (A ! r ! i)" if "r < M" "i < M" for r i using square_bit [OF A] that by blast
  have one: "A ! c ! c = 1" using bit [OF c c] pivot by (simp add: is_bit_neq_0)
  show "square M A'" unfolding square_def bits_ok_iff_nth using eff(1,3,5) bit c by (auto intro: is_bit_xor)
  show "length rhs' = M" by (rule eff(2))
  show "bits_ok rhs'" using b eff(2,4) c by (auto simp: bits_ok_iff_nth intro: is_bit_xor)
  show "solves M A' rhs' f \<longleftrightarrow> solves M A rhs f" by (rule elim_solves [OF A b(1) c cl st])
  show "rhs' = replicate M 0" if "rhs = replicate M 0" using that eff(2,4) c by (intro nth_equalityI) auto
  show "cleared M A' (Suc c)" unfolding cleared_def
  proof (intro allI impI)
    fix i r assume "i < Suc c" and r: "r < M"
    then consider "i = c" | "i < c" by linarith
    then show "A' ! r ! i = of_bool (r = i)"
    proof cases
      case 1
      with eff(5) [OF r c] one bit [OF r c] show ?thesis by (auto simp: hits_def is_bit_def)
    next
      case 2
      with cl c r eff(5) [OF r, of i] show ?thesis by (auto simp: cleared_def)
    qed
  qed
qed

lemma swap_column:
  assumes A: "square M A" and b: "length rhs = M" "bits_ok rhs" and c: "c \<le> piv" "piv < M"
    and cl: "cleared M A c"
  shows "square M (swap_rows A c piv)" "length (swap_rows rhs c piv) = M" "bits_ok (swap_rows rhs c piv)"
    "cleared M (swap_rows A c piv) c"
    "solves M (swap_rows A c piv) (swap_rows rhs c piv) f \<longleftrightarrow> solves M A rhs f"
    "rhs = replicate M 0 \<Longrightarrow> swap_rows rhs c piv = replicate M 0"
proof -
  let ?s = "\<lambda>r. if r = c then piv else if r = piv then c else r"
  have len: "length A = M" using A by (simp add: square_def)
  have nA: "swap_rows A c piv ! r = A ! ?s r" "swap_rows rhs c piv ! r = rhs ! ?s r" "?s r < M"
    if "r < M" for r using that len b c by (simp_all add: nth_swap_rows)
  show "square M (swap_rows A c piv)" using A nA by (auto simp: square_def)
  show "length (swap_rows rhs c piv) = M" using b by simp
  show "bits_ok (swap_rows rhs c piv)" using b nA by (simp add: bits_ok_iff_nth)
  show "cleared M (swap_rows A c piv) c"
    using cl nA c by (auto simp: cleared_def)
  show "solves M (swap_rows A c piv) (swap_rows rhs c piv) f \<longleftrightarrow> solves M A rhs f"
  proof
    assume L: "solves M (swap_rows A c piv) (swap_rows rhs c piv) f"
    show "solves M A rhs f" unfolding solves_def
    proof (intro allI impI)
      fix r assume r: "r < M"
      define q where "q = ?s r"
      have q: "q < M" "?s q = r" using nA(3) [OF r] by (auto simp: q_def)
      from L q(1) have "dot M (swap_rows A c piv ! q) f = swap_rows rhs c piv ! q"
        by (simp add: solves_def)
      with nA(1,2) [OF q(1)] q(2) show "dot M (A ! r) f = rhs ! r" by simp
    qed
  next
    assume "solves M A rhs f"
    then show "solves M (swap_rows A c piv) (swap_rows rhs c piv) f" using nA by (simp add: solves_def)
  qed
  show "swap_rows rhs c piv = replicate M 0" if "rhs = replicate M 0"
    using that nA c by (intro nth_equalityI) auto
qed

section \<open>The whole elimination\<close>

text \<open>What holds of matrix and right-hand side before column \<open>c\<close>.\<close>

definition gj_inv :: "nat \<Rightarrow> nat \<Rightarrow> matrix \<times> bitvec \<Rightarrow> bool" where
  "gj_inv M c st \<longleftrightarrow> square M (fst st) \<and> length (snd st) = M \<and> bits_ok (snd st) \<and> cleared M (fst st) c"

lemma gj_col_step:
  assumes inv: "gj_inv M c (A, rhs)" and c: "c < M" and st: "gj_col msg M (A, rhs) c = Inr (A', rhs')"
  shows "gj_inv M (Suc c) (A', rhs')" "solves M A' rhs' f \<longleftrightarrow> solves M A rhs f"
    "rhs = replicate M 0 \<Longrightarrow> rhs' = replicate M 0"
proof -
  define piv where "piv = find_pivot A M c c"
  define A1 where "A1 = (if piv \<noteq> c then swap_rows A c piv else A)"
  define b1 where "b1 = (if piv \<noteq> c then swap_rows rhs c piv else rhs)"
  from inv have i: "square M A" "length rhs = M" "bits_ok rhs" "cleared M A c" by (auto simp: gj_inv_def)
  from st have piv: "piv < M" and f: "foldl (elim_row c) (A1, b1) [0..<M] = (A', rhs')"
    by (auto simp: gj_col_def Let_def piv_def A1_def b1_def split: if_splits)
  from find_pivot_spec [of c A M c] piv have p: "c \<le> piv" "A ! piv ! c \<noteq> 0" by (auto simp: piv_def)
  note sw = swap_column [OF i(1-3) p(1) piv i(4)]
  have 1: "square M A1" "length b1 = M" "bits_ok b1" "cleared M A1 c"
    "\<And>f. solves M A1 b1 f \<longleftrightarrow> solves M A rhs f" "rhs = replicate M 0 \<Longrightarrow> b1 = replicate M 0"
    using i sw by (simp_all add: A1_def b1_def)
  have "A1 ! c ! c \<noteq> 0"
    using p c piv i(1) by (auto simp: A1_def nth_swap_rows square_def)
  note el = elim_column [OF 1(1-3) c this 1(4) f]
  show "gj_inv M (Suc c) (A', rhs')" using el by (simp add: gj_inv_def)
  show "solves M A' rhs' f \<longleftrightarrow> solves M A rhs f" using el(5) 1(5) by simp
  show "rhs' = replicate M 0" if "rhs = replicate M 0" using el(6) 1(6) that by simp
qed

lemma fst_elim_fold:
  "fst (foldl (elim_row c) (A, b) rs) = fst (foldl (elim_row c) (A, b') rs)"
proof (induction rs arbitrary: A b b')
  case (Cons r rs)
  then show ?case by (cases "r = c \<or> A ! r ! c = 0") (simp_all add: elim_row_def)
qed simp

lemma gj_col_matrix:
  "gj_col msg M (A, b) c = Inr (A', d) \<Longrightarrow> \<exists>d'. gj_col msg M (A, b') c = Inr (A', d')"
  using fst_elim_fold
  by (auto simp: gj_col_def Let_def prod_eq_iff split: if_splits)

lemma nonsingular_iff:
  "nonsingular M A \<longleftrightarrow> (\<forall>f. (\<forall>c<M. is_bit (f c)) \<and> solves M A (replicate M 0) f \<longrightarrow> (\<forall>c<M. f c = 0))"
  by (simp add: nonsingular_def solves_def)

lemma gj_col_nonsingular:
  assumes "gj_inv M c (A, rhs)" "c < M" "gj_col msg M (A, rhs) c = Inr (A', rhs')"
  shows "nonsingular M A' \<longleftrightarrow> nonsingular M A"
proof -
  from gj_col_matrix [OF assms(3)] obtain z where z: "gj_col msg M (A, replicate M 0) c = Inr (A', z)" by blast
  have "gj_inv M c (A, replicate M 0)" using assms(1) by (simp add: gj_inv_def)
  note s = gj_col_step [OF this assms(2) z]
  show ?thesis using s(2,3) by (simp add: nonsingular_iff)
qed

text \<open>A missing pivot exhibits a non-zero vector of the kernel.\<close>

lemma gj_col_error:
  assumes inv: "gj_inv M c (A, rhs)" and c: "c < M" and st: "gj_col msg M (A, rhs) c = Inl e"
  shows "e = Error msg \<and> \<not> nonsingular M A"
proof -
  from st have e: "e = Error msg" and piv: "\<not> find_pivot A M c c < M"
    by (auto simp: gj_col_def Let_def split: if_splits)
  have col0: "A ! r ! c = 0" if "c \<le> r" "r < M" for r
    using find_pivot_spec [of c A M c] that piv by auto
  from inv have A: "square M A" and cl: "\<And>i r. i < c \<Longrightarrow> r < M \<Longrightarrow> A ! r ! i = of_bool (r = i)"
    by (auto simp: gj_inv_def cleared_def)
  define g where "g i = (if i < c then A ! i ! c else 0)" for i
  define h :: "nat \<Rightarrow> u8" where "h i = of_bool (i = c)" for i
  have "dot M (A ! r) (\<lambda>i. g i XOR h i) = 0" if r: "r < M" for r
  proof -
    have h: "dot M (A ! r) h = A ! r ! c"
      using c square_bit [OF A r c] unfolding dot_def
      by (subst xsum_single [where j = c]) (auto simp: h_def is_bit_def)
    have g: "dot M (A ! r) g = (if r < c then A ! r ! c else 0)"
    proof (cases "r < c")
      case True
      then show ?thesis using r cl unfolding dot_def
        by (subst xsum_single [where j = r]) (auto simp: g_def)
    next
      case False
      then show ?thesis using r cl unfolding dot_def
        by (auto simp: g_def intro!: xsum_zero)
    qed
    show ?thesis using g h col0 [of r] r by (auto simp: dot_xor_fun not_less)
  qed
  moreover have "is_bit (g i XOR h i)" if "i < M" for i
    using that square_bit [OF A, of i c] c by (auto simp: g_def h_def is_bit_def)
  moreover have "g c XOR h c = 1" by (simp add: g_def h_def)
  ultimately have "\<exists>f. (\<forall>i<M. is_bit (f i)) \<and> (\<forall>r<M. dot M (A ! r) f = 0) \<and> f c \<noteq> 0"
    by (intro exI [of _ "\<lambda>i. g i XOR h i"]) simp
  with c have "\<not> nonsingular M A" unfolding nonsingular_def by blast
  with e show ?thesis by simp
qed

lemma gauss_jordan_sound:
  assumes "gj_inv M c (A, rhs)" "c \<le> M" "gauss_jordan msg M (A, rhs) [c..<M] = Inr (A', rhs')"
  shows "gj_inv M M (A', rhs') \<and> (solves M A' rhs' f \<longleftrightarrow> solves M A rhs f)"
  using assms
proof (induction "M - c" arbitrary: c A rhs)
  case 0
  then show ?case by simp
next
  case (Suc k)
  then have c: "c < M" by simp
  with Suc.prems(3) obtain A1 b1 where 1: "gj_col msg M (A, rhs) c = Inr (A1, b1)"
    and 2: "gauss_jordan msg M (A1, b1) [Suc c..<M] = Inr (A', rhs')"
    by (auto simp: upt_conv_Cons and_then_Inr_iff)
  note s = gj_col_step [OF Suc.prems(1) c 1]
  show ?case using Suc.hyps(1) [OF _ s(1) _ 2] Suc.hyps(2) c s(2) by auto
qed

lemma gauss_jordan_total:
  assumes "gj_inv M c (A, rhs)" "c \<le> M" "nonsingular M A"
  shows "\<exists>A' rhs'. gauss_jordan msg M (A, rhs) [c..<M] = Inr (A', rhs')"
  using assms
proof (induction "M - c" arbitrary: c A rhs)
  case 0
  then show ?case by simp
next
  case (Suc k)
  then have c: "c < M" by simp
  from gj_col_error [OF Suc.prems(1) c] Suc.prems(3)
  obtain A1 b1 where 1: "gj_col msg M (A, rhs) c = Inr (A1, b1)"
    by (cases "gj_col msg M (A, rhs) c") auto
  from gj_col_step(1) [OF Suc.prems(1) c 1] gj_col_nonsingular [OF Suc.prems(1) c 1] Suc.prems(3)
  obtain A' rhs' where "gauss_jordan msg M (A1, b1) [Suc c..<M] = Inr (A', rhs')"
    using Suc.hyps(1) [of "Suc c" A1 b1] Suc.hyps(2) c by force
  with 1 c show ?case by (simp add: upt_conv_Cons)
qed

lemma gauss_jordan_error:
  assumes "gj_inv M c (A, rhs)" "c \<le> M" "gauss_jordan msg M (A, rhs) [c..<M] = Inl e"
  shows "e = Error msg"
  using assms
proof (induction "M - c" arbitrary: c A rhs)
  case 0
  then show ?case by simp
next
  case (Suc k)
  then have c: "c < M" by simp
  show ?case
  proof (cases "gj_col msg M (A, rhs) c")
    case (Inl e')
    with Suc.prems(3) c gj_col_error [OF Suc.prems(1) c Inl] show ?thesis by (simp add: upt_conv_Cons)
  next
    case (Inr st)
    obtain A1 b1 where st: "st = (A1, b1)" by (cases st)
    with Inr Suc.prems(3) c have "gauss_jordan msg M (A1, b1) [Suc c..<M] = Inl e"
      by (simp add: upt_conv_Cons)
    with Suc.hyps(1) [of "Suc c" A1 b1] Suc.hyps(2) c gj_col_step(1) [OF Suc.prems(1) c Inr [unfolded st]]
    show ?thesis by simp
  qed
qed

text \<open>The elimination of a square system returns its solution and finds it exactly when the matrix is
  non-singular.\<close>

lemma gauss_jordan_solution:
  assumes "square M A" "length rhs = M" "bits_ok rhs" "gauss_jordan msg M (A, rhs) [0..<M] = Inr (A', x)"
  shows "length x = M" "bits_ok x" "solves M A rhs f \<longleftrightarrow> (\<forall>c<M. f c = x ! c)"
proof -
  have "gj_inv M 0 (A, rhs)" using assms by (simp add: gj_inv_def cleared_def)
  note s = gauss_jordan_sound [OF this _ assms(4), of f]
  then show "length x = M" "bits_ok x" by (auto simp: gj_inv_def)
  have "dot M (A' ! r) f = f r" if "r < M" for r
    using s that by (intro dot_unit) (auto simp: gj_inv_def cleared_def)
  then have "solves M A' x f \<longleftrightarrow> (\<forall>c<M. f c = x ! c)" by (simp add: solves_def)
  with s show "solves M A rhs f \<longleftrightarrow> (\<forall>c<M. f c = x ! c)" by simp
qed

lemma gauss_jordan_iff:
  assumes "square M A" "length rhs = M" "bits_ok rhs"
  shows "(\<exists>st. gauss_jordan msg M (A, rhs) [0..<M] = Inr st) \<longleftrightarrow> nonsingular M A"
proof
  assume "nonsingular M A"
  moreover have "gj_inv M 0 (A, rhs)" using assms by (simp add: gj_inv_def cleared_def)
  ultimately show "\<exists>st. gauss_jordan msg M (A, rhs) [0..<M] = Inr st"
    using gauss_jordan_total [of M 0 A rhs msg] by auto
next
  assume "\<exists>st. gauss_jordan msg M (A, rhs) [0..<M] = Inr st"
  then obtain A' x where g: "gauss_jordan msg M (A, rhs) [0..<M] = Inr (A', x)" by auto
  show "nonsingular M A" unfolding nonsingular_def
  proof (intro allI impI)
    fix f c assume f: "(\<forall>c<M. is_bit (f c)) \<and> (\<forall>r<M. dot M (A ! r) f = 0)" and c: "c < M"
    have x: "solves M A rhs (\<lambda>c. x ! c)" using gauss_jordan_solution(3) [OF assms g] by simp
    then have "solves M A rhs (\<lambda>c. x ! c XOR f c)" using f by (simp add: solves_def dot_xor_fun)
    with gauss_jordan_solution(3) [OF assms g, of "\<lambda>c. x ! c XOR f c"] c
    have "x ! c XOR f c = x ! c" by simp
    then have "x ! c XOR f c = x ! c XOR 0" by simp
    then show "f c = 0" by (simp only: xor_left_cancel)
  qed
qed

section \<open>The parity-check matrix and the edges\<close>

lemma expand_edge_bounds:
  assumes "graph_ok g" "e \<in> set (g_edges g)" "x \<in> set (expand_edge g e)"
  shows "s_check x < M_of g" "s_var x < N_of g"
proof -
  from assms have z: "0 < g_zc g" and e: "row e < g_mb g" "col e < g_nb g"
    by (auto simp: graph_ok_def edge_ok_def)
  from assms(3) obtain i sh where i: "i < g_zc g"
    and x: "x = \<lparr>s_check = row e * g_zc g + i, s_var = lifted_var (col e) sh i (g_zc g)\<rparr>"
    by (auto simp: expand_edge_def Let_def split: if_splits)
  have block: "a * g_zc g + b < m * g_zc g" if "a < m" "b < g_zc g" for a b m
  proof -
    have "a * g_zc g + b < Suc a * g_zc g" using that(2) by simp
    also have "\<dots> \<le> m * g_zc g" using that(1) by (intro mult_le_mono1) simp
    finally show ?thesis .
  qed
  show "s_check x < M_of g" using block [OF e(1) i] x by (simp add: M_of_def)
  show "s_var x < N_of g" using block [OF e(2), of "(i + sh) mod g_zc g"] z x
    by (simp add: N_of_def lifted_var_def)
qed

lemma expand_edges_bounds:
  assumes "graph_ok g" "x \<in> set (expand_edges g)"
  shows "s_check x < M_of g" "s_var x < N_of g"
  using assms expand_edge_bounds by (auto simp: expand_edges_def)

lemma build_H_toggles:
  "build_H g = foldl (\<lambda>H x. toggle H (s_check x) (s_var x)) (replicate (M_of g) (replicate (N_of g) 0))
     (expand_edges g)"
proof -
  have e: "add_edge g H e = foldl (\<lambda>H x. toggle H (s_check x) (s_var x)) H (expand_edge g e)" for H e
    by (simp add: add_edge_def expand_edge_def Let_def foldl_map)
  have "foldl (add_edge g) H es =
      foldl (\<lambda>H x. toggle H (s_check x) (s_var x)) H (concat (map (expand_edge g) es))" for H es
    by (induction es arbitrary: H) (simp_all add: e)
  then show ?thesis by (simp add: build_H_def expand_edges_def)
qed

definition matrix_ok :: "nat \<Rightarrow> nat \<Rightarrow> matrix \<Rightarrow> bool" where
  "matrix_ok M N H \<longleftrightarrow> length H = M \<and> (\<forall>r<M. length (H ! r) = N \<and> bits_ok (H ! r))"

lemma toggle_ok:
  assumes "matrix_ok M N H" "r < M" "c < N"
  shows "matrix_ok M N (toggle H r c)"
    "k < M \<Longrightarrow> dot N (toggle H r c ! k) f = dot N (H ! k) f XOR (if r = k then f c else 0)"
proof -
  from assms have H: "length H = M" "\<And>k. k < M \<Longrightarrow> length (H ! k) = N"
    "\<And>k i. k < M \<Longrightarrow> i < N \<Longrightarrow> is_bit (H ! k ! i)"
    by (auto simp: matrix_ok_def bits_ok_iff_nth)
  have nth: "toggle H r c ! k ! i = (if k = r \<and> i = c then H ! k ! i XOR 1 else H ! k ! i)"
    if "k < M" "i < N" for k i
    using that H assms by (auto simp: toggle_def nth_list_update)
  show "matrix_ok M N (toggle H r c)"
    unfolding matrix_ok_def bits_ok_iff_nth
    using nth H assms by (auto simp: toggle_def nth_list_update intro: is_bit_xor)
  show "dot N (toggle H r c ! k) f = dot N (H ! k) f XOR (if r = k then f c else 0)" if k: "k < M"
  proof -
    define u :: bitvec where "u = map (\<lambda>i. of_bool (i = c \<and> r = k)) [0..<N]"
    have "dot N (toggle H r c ! k) f = dot N (H ! k) f XOR dot N u f"
      using nth [OF k] H(3) [OF k] by (intro dot_xor_row) (auto simp: u_def is_bit_def)
    moreover have "dot N u f = (if r = k then f c else 0)"
    proof (cases "r = k")
      case True
      then show ?thesis using assms(3) unfolding dot_def
        by (subst xsum_single [where j = c]) (auto simp: u_def)
    next
      case False
      then show ?thesis unfolding dot_def by (auto simp: u_def intro: xsum_zero)
    qed
    ultimately show ?thesis by simp
  qed
qed

lemma toggles_ok:
  "matrix_ok M N H \<Longrightarrow> (\<And>x. x \<in> set xs \<Longrightarrow> s_check x < M \<and> s_var x < N) \<Longrightarrow>
   matrix_ok M N (foldl (\<lambda>H x. toggle H (s_check x) (s_var x)) H xs) \<and>
   (\<forall>k<M. dot N (foldl (\<lambda>H x. toggle H (s_check x) (s_var x)) H xs ! k) f =
      dot N (H ! k) f XOR xlist (\<lambda>x. if s_check x = k then f (s_var x) else 0) xs)"
proof (induction xs arbitrary: H)
  case (Cons x xs)
  have b: "s_check x < M" "s_var x < N" using Cons.prems(2) by auto
  note t = toggle_ok [OF Cons.prems(1) b]
  show ?case using Cons.IH [OF t(1)] Cons.prems(2) t(2) by (simp add: xor.assoc)
qed simp

lemma build_H_ok:
  assumes "graph_ok g"
  shows "matrix_ok (M_of g) (N_of g) (build_H g)"
    "r < M_of g \<Longrightarrow> dot (N_of g) (build_H g ! r) f =
       xlist (\<lambda>x. if s_check x = r then f (s_var x) else 0) (expand_edges g)"
proof -
  let ?Z = "replicate (M_of g) (replicate (N_of g) (0 :: u8))"
  have z: "matrix_ok (M_of g) (N_of g) ?Z" by (simp add: matrix_ok_def)
  have d: "dot (N_of g) (?Z ! r) f = 0" if "r < M_of g" for r
    using that by (simp add: dot_def xsum_zero)
  note t = toggles_ok [OF z, of "expand_edges g" f, folded build_H_toggles]
  show "matrix_ok (M_of g) (N_of g) (build_H g)" using t expand_edges_bounds [OF assms] by blast
  show "r < M_of g \<Longrightarrow> dot (N_of g) (build_H g ! r) f =
       xlist (\<lambda>x. if s_check x = r then f (s_var x) else 0) (expand_edges g)"
    using t expand_edges_bounds [OF assms] d by simp
qed

section \<open>Correctness of the encoder\<close>

definition in_code :: "graph \<Rightarrow> (nat \<Rightarrow> u8) \<Rightarrow> bool" where
  "in_code g f \<longleftrightarrow> (\<forall>r<M_of g. dot (N_of g) (build_H g ! r) f = 0)"

lemma row_syndrome_eq: "row_syndrome N h cw = dot N h (\<lambda>c. cw ! c)"
proof -
  have "foldl (\<lambda>s c. if h ! c \<noteq> 0 then s XOR cw ! c else s) a cs =
      a XOR xlist (\<lambda>c. if h ! c \<noteq> 0 then cw ! c else 0) cs" for a cs
    by (induction cs arbitrary: a) (simp_all add: xor.assoc)
  then show ?thesis by (simp add: row_syndrome_def dot_def xlist_upt)
qed

lemma info_parity_eq:
  assumes "\<And>k. k < K \<Longrightarrow> is_bit (info ! k)"
  shows "info_parity K h info = dot K h (\<lambda>c. info ! c)"
proof -
  have "foldl (\<lambda>s k. if h ! k \<noteq> 0 \<and> info ! k \<noteq> 0 then s XOR 1 else s) a ks =
      a XOR xlist (\<lambda>c. if h ! c \<noteq> 0 then info ! c else 0) ks"
    if "set ks \<subseteq> {..<K}" for a ks
    using that
  proof (induction ks arbitrary: a)
    case (Cons k ks)
    then show ?case using is_bit_neq_0 [OF assms, of k] by (auto simp: xor.assoc)
  qed simp
  from this [of "[0..<K]"] show ?thesis by (simp add: info_parity_def dot_def xlist_upt lessThan_atLeast0)
qed

lemma parity_matrix_ok:
  assumes "graph_ok g" "K_of g + M_of g \<le> N_of g"
  shows "square (M_of g) (parity_matrix g)"
    "r < M_of g \<Longrightarrow> c < M_of g \<Longrightarrow> parity_matrix g ! r ! c = build_H g ! r ! (K_of g + c)"
  using build_H_ok(1) [OF assms(1)] assms(2)
  by (auto simp: parity_matrix_def square_def matrix_ok_def bits_ok_iff_nth)

lemma dot_codeword:
  assumes "graph_ok g" "K_of g + M_of g \<le> N_of g" "r < M_of g"
    and "length info = K_of g" "length x = M_of g"
  shows "dot (N_of g) (build_H g ! r) (\<lambda>c. (info @ x @ replicate (N_of g - (K_of g + M_of g)) 0) ! c) =
    dot (K_of g) (build_H g ! r) (\<lambda>c. info ! c) XOR dot (M_of g) (parity_matrix g ! r) (\<lambda>c. x ! c)"
proof -
  let ?K = "K_of g" and ?M = "M_of g" and ?N = "N_of g" and ?h = "build_H g ! r"
  let ?cw = "info @ x @ replicate (?N - (?K + ?M)) 0"
  let ?F = "\<lambda>c. if ?h ! c \<noteq> 0 then ?cw ! c else 0"
  have "xsum ?N ?F = xsum (?K + ?M + (?N - (?K + ?M))) ?F" using assms(2) by simp
  also have "\<dots> = xsum (?K + ?M) ?F XOR xsum (?N - (?K + ?M)) (\<lambda>i. ?F (?K + ?M + i))"
    by (rule xsum_split)
  also have "xsum (?N - (?K + ?M)) (\<lambda>i. ?F (?K + ?M + i)) = 0"
    using assms by (intro xsum_zero) (simp add: nth_append)
  also have "xsum (?K + ?M) ?F = xsum ?K ?F XOR xsum ?M (\<lambda>i. ?F (?K + i))" by (rule xsum_split)
  also have "xsum ?K ?F = dot ?K ?h (\<lambda>c. info ! c)"
    unfolding dot_def using assms by (intro xsum_cong) (simp add: nth_append)
  also have "xsum ?M (\<lambda>i. ?F (?K + i)) = dot ?M (parity_matrix g ! r) (\<lambda>c. x ! c)"
    unfolding dot_def using assms parity_matrix_ok(2) [OF assms(1,2,3)]
    by (intro xsum_cong) (simp add: nth_append)
  finally show ?thesis by (simp add: dot_def)
qed

lemma encode_ge_Inr:
  assumes g: "graph_ok g" and ok: "bits_ok info" and cw: "encode_ge info g = Inr cw"
  shows "length cw = N_of g" "bits_ok cw" "take (K_of g) cw = info" "in_code g (\<lambda>c. cw ! c)"
    "length info = K_of g"
proof -
  let ?K = "K_of g" and ?M = "M_of g" and ?N = "N_of g"
  let ?rhs = "map (\<lambda>r. info_parity ?K (build_H g ! r) info) [0..<?M]"
  from cw obtain A' x where len: "length info = ?K" and le: "?K + ?M \<le> ?N"
    and gj: "gauss_jordan singular_msg ?M (parity_matrix g, ?rhs) [0..<?M] = Inr (A', x)"
    and cw_eq: "cw = info @ x @ replicate (?N - (?K + ?M)) 0"
    by (auto simp: encode_ge_def Let_def and_then_Inr_iff split: if_splits)
  have info_bit: "\<And>k. k < ?K \<Longrightarrow> is_bit (info ! k)" using ok len by (simp add: bits_ok_iff_nth)
  have par: "info_parity ?K (build_H g ! r) info = dot ?K (build_H g ! r) (\<lambda>c. info ! c)" for r
    by (rule info_parity_eq) (rule info_bit)
  have "bits_ok ?rhs"
    using info_bit by (auto simp: bits_ok_iff_nth par dot_def intro!: is_bit_xsum)
  note s = gauss_jordan_solution [OF parity_matrix_ok(1) [OF g le] _ this gj]
  then have x: "length x = ?M" "bits_ok x" "solves ?M (parity_matrix g) ?rhs (\<lambda>c. x ! c)" by simp_all
  show "length cw = ?N" "bits_ok cw" "take ?K cw = info" "length info = ?K"
    using cw_eq x len le ok by auto
  show "in_code g (\<lambda>c. cw ! c)"
    using x(3) dot_codeword [OF g le _ len x(1)] cw_eq
    by (simp add: in_code_def solves_def par)
qed

lemma encode_ge_total:
  assumes "graph_ok g" "bits_ok info" "length info = K_of g" "K_of g + M_of g \<le> N_of g"
  shows "(\<exists>cw. encode_ge info g = Inr cw) \<longleftrightarrow> nonsingular (M_of g) (parity_matrix g)"
proof -
  let ?K = "K_of g" and ?M = "M_of g"
  let ?rhs = "map (\<lambda>r. info_parity ?K (build_H g ! r) info) [0..<?M]"
  have "bits_ok ?rhs"
    using assms(2,3) by (auto simp: bits_ok_iff_nth info_parity_eq dot_def intro!: is_bit_xsum)
  from gauss_jordan_iff [OF parity_matrix_ok(1) [OF assms(1,4)] _ this, of singular_msg] assms
  show ?thesis by (auto simp: encode_ge_def Let_def and_then_Inr_iff)
qed

lemma syndrome_of_code:
  assumes "make_graph p = Inr g" "length cw = N_of g"
  shows "ldpc_syndrome_ok cw p = Inr (in_code g (\<lambda>c. cw ! c))"
  using assms by (auto simp: ldpc_syndrome_ok_def row_syndrome_eq in_code_def list_all_iff)

lemma make_graph_info_bits:
  assumes "make_graph (p\<lparr>p_info_bits := k\<rparr>) = Inr g" "p_zc p > 0" "p_info_bits p \<le> 0"
  shows "make_graph p = Inr (g\<lparr>g_filler := 0\<rparr>)"
proof -
  have l: "graph_lifting (p\<lparr>p_info_bits := k\<rparr>) = graph_lifting p"
    using assms(2) by (simp add: graph_lifting_def Let_def cong: if_cong)
  have r: "graph_rows (p\<lparr>p_info_bits := k\<rparr>) = graph_rows p"
    by (intro ext) (simp add: graph_rows_def Let_def cong: if_cong)
  have f: "graph_filler p x = Inr 0" for x using assms(3) by (simp add: graph_filler_def)
  obtain mb0 nb0 kb0 edges0 prov where b: "base_of (p_bg p) = (mb0, nb0, kb0, edges0, prov)"
    by (cases "base_of (p_bg p)") auto
  define kb where "kb = (if p_kb p > 0 then nat (p_kb p) else kb0)"
  note mk = make_graph_def [unfolded Let_def]
  have "p_bg (p\<lparr>p_info_bits := k\<rparr>) = p_bg p" "p_kb (p\<lparr>p_info_bits := k\<rparr>) = p_kb p" by simp_all
  then show ?thesis
    using assms(1) by (simp only: mk l r b f prod.case kb_def [symmetric]) (force simp: and_then_Inr_iff split: if_split_asm)
qed

lemma build_H_filler [simp]: "build_H (g\<lparr>g_filler := k\<rparr>) = build_H g"
proof -
  have "add_edge (g\<lparr>g_filler := k\<rparr>) = add_edge g" by (intro ext) (simp add: add_edge_def Let_def cong: if_cong)
  then show ?thesis by (simp add: build_H_def M_of_def N_of_def)
qed

lemma ldpc_encode_InrE:
  assumes "ldpc_encode info p = Inr cw"
  obtains g where "make_graph (encode_params info p) = Inr g" "bits_ok info" "length info \<le> K_of g"
    "encode_ge (info @ replicate (K_of g - length info) 0) g = Inr cw"
  using assms by (auto simp: ldpc_encode_def Let_def and_then_Inr_iff split: if_splits)

lemma encode_params_fixed:
  assumes "make_graph (encode_params info p) = Inr g" "p_zc p > 0"
  obtains g' where "make_graph p = Inr g'" "build_H g' = build_H g" "N_of g' = N_of g" "M_of g' = M_of g"
    "K_of g' = K_of g"
proof (cases "p_info_bits p < 0")
  case True
  with assms show thesis
    by (intro that [OF make_graph_info_bits]) (auto simp: encode_params_def N_of_def M_of_def K_of_def)
next
  case False
  with assms show thesis by (intro that [of g]) (simp_all add: encode_params_def)
qed

section \<open>Properties\<close>

text \<open>C4: a codeword that \<open>ldpc_encode\<close> returns has the length of the lifted graph, consists of
  bits, starts with the information bits followed by the filler zeros, and satisfies every parity
  check of the graph, for the parameters the encoder works with and, when the lifting size is
  given, for the parameters of the caller.\<close>

theorem ldpc_encode_codeword:
  assumes "ldpc_encode info p = Inr cw"
  shows "\<exists>g. make_graph (encode_params info p) = Inr g \<and> length cw = N_of g \<and> bits_ok cw \<and>
    length info \<le> K_of g \<and> take (K_of g) cw = info @ replicate (K_of g - length info) 0 \<and>
    ldpc_syndrome_ok cw (encode_params info p) = Inr True \<and>
    (p_zc p > 0 \<longrightarrow> ldpc_syndrome_ok cw p = Inr True)"
proof -
  from assms obtain g where g: "make_graph (encode_params info p) = Inr g" and ok: "bits_ok info"
    and len: "length info \<le> K_of g"
    and enc: "encode_ge (info @ replicate (K_of g - length info) 0) g = Inr cw" by (rule ldpc_encode_InrE)
  have "bits_ok (info @ replicate (K_of g - length info) 0)" using ok by simp
  note e = encode_ge_Inr [OF make_graph_ok [OF g] this enc]
  have "ldpc_syndrome_ok cw p = Inr True" if z: "p_zc p > 0"
  proof -
    obtain g' where "make_graph p = Inr g'" "build_H g' = build_H g" "N_of g' = N_of g"
      "M_of g' = M_of g" by (rule encode_params_fixed [OF g z])
    then show ?thesis using e syndrome_of_code [of p g' cw] by (simp add: in_code_def)
  qed
  with g len e syndrome_of_code [OF g e(1)] show ?thesis by auto
qed

text \<open>The codeword is the only one: every word of bits of the graph's length that starts with the
  information bits and the filler zeros and passes the syndrome check is the one \<open>ldpc_encode\<close>
  returns (on graphs with as many columns as information and parity columns together).\<close>

theorem ldpc_encode_unique:
  assumes "ldpc_encode info p = Inr cw" "make_graph (encode_params info p) = Inr g"
    and "K_of g + M_of g = N_of g"
    and "length w = N_of g" "bits_ok w" "take (K_of g) w = info @ replicate (K_of g - length info) 0"
    and "ldpc_syndrome_ok w (encode_params info p) = Inr True"
  shows "w = cw"
proof -
  let ?K = "K_of g" and ?M = "M_of g" and ?u = "info @ replicate (K_of g - length info) 0"
  from assms(1,2) have ok: "bits_ok info" and len: "length info \<le> ?K" and enc: "encode_ge ?u g = Inr cw"
    by (auto elim: ldpc_encode_InrE)
  have u: "bits_ok ?u" "length ?u = ?K" using ok len by simp_all
  have g: "graph_ok g" by (rule make_graph_ok [OF assms(2)])
  note e = encode_ge_Inr [OF g u(1) enc]
  have split: "v = ?u @ drop ?K v" if "take ?K v = ?u" for v by (metis append_take_drop_id that)
  have code: "in_code g (\<lambda>c. w ! c)" "in_code g (\<lambda>c. cw ! c)"
    using assms(7) syndrome_of_code [OF assms(2,4)] e(4) by simp_all
  define f where "f c = drop ?K w ! c XOR drop ?K cw ! c" for c
  have "dot ?M (parity_matrix g ! r) f = 0" if r: "r < ?M" for r
  proof -
    have "dot ?K (build_H g ! r) ((!) ?u) XOR dot ?M (parity_matrix g ! r) ((!) (drop ?K v)) = 0"
      if "length v = N_of g" "take ?K v = ?u" "in_code g ((!) v)" for v
    proof -
      have v: "?u @ drop ?K v @ replicate (N_of g - (?K + ?M)) 0 = v" using split [OF that(2)] assms(3) by simp
      have "length (drop ?K v) = ?M" using that(1) assms(3) by simp
      from dot_codeword [OF g _ r u(2) this, unfolded v] that(3) r assms(3)
      show ?thesis unfolding in_code_def by simp
    qed
    from this [OF assms(4) assms(6) code(1)] this [OF e(1) e(3) code(2)]
    have "dot ?M (parity_matrix g ! r) ((!) (drop ?K w)) = dot ?M (parity_matrix g ! r) ((!) (drop ?K cw))"
      by (simp add: xor_eq_0_iff)
    then show ?thesis unfolding f_def dot_xor_fun by (simp add: xor_eq_0_iff)
  qed
  moreover have "is_bit (f c)" if "c < ?M" for c
    using that assms(3-5) e(1,2) by (auto simp: f_def bits_ok_iff_nth intro!: is_bit_xor)
  moreover have "nonsingular ?M (parity_matrix g)"
    using encode_ge_total [OF g u] enc assms(3) by auto
  ultimately have "f c = 0" if "c < ?M" for c using that by (auto simp: nonsingular_def)
  then have "drop ?K w = drop ?K cw"
    using assms(3,4) e(1) by (intro nth_equalityI) (simp_all add: f_def xor_eq_0_iff)
  then show ?thesis using split [OF assms(6)] split [OF e(3)] by metis
qed

end
