(* ===== verification/LdpcShape.thy ===== *)
theory LdpcShape
  imports LdpcTables
begin

text \<open>
  The shape of the parity part of the two base graphs of \<open>include/nr_bb/ldpc_bg_tables.hpp\<close>,
  evaluated once for all eight lifting sets: four core rows in dual-diagonal form, then extension
  rows that each add one column with shift 0.
\<close>

section \<open>The shape of the two tables\<close>

definition parity_part :: "nat \<Rightarrow> nat \<Rightarrow> bg_edge list \<Rightarrow> (nat \<times> int list) list" where
  "parity_part kb R edges =
     map (\<lambda>e. (col e - kb, shift e)) (filter (\<lambda>e. row e = R \<and> kb \<le> col e) edges)"

definition no_shift :: "int list" where
  "no_shift = [0, 0, 0, 0, 0, 0, 0, 0]"

definition extension_edge :: "nat \<Rightarrow> bg_edge \<Rightarrow> bool" where
  "extension_edge kb e \<longleftrightarrow> col e < kb + 4 \<or> col e = kb + row e \<and> shift e = no_shift"

lemma bg1_core:
  "parity_part 22 0 BG1_EDGES = [(0, [1, 1, 1, 1, 1, 1, 0, 1]), (1, no_shift)]"
  "parity_part 22 1 BG1_EDGES = [(0, [0, 0, 0, 0, 0, 0, 105, 0]), (1, no_shift), (2, no_shift)]"
  "parity_part 22 2 BG1_EDGES = [(2, no_shift), (3, no_shift)]"
  "parity_part 22 3 BG1_EDGES = [(0, [1, 1, 1, 1, 1, 1, 0, 1]), (3, no_shift)]"
  by code_simp+

lemma bg2_core:
  "parity_part 10 0 BG2_EDGES = [(0, [0, 0, 0, 1, 0, 0, 0, 1]), (1, no_shift)]"
  "parity_part 10 1 BG2_EDGES = [(1, no_shift), (2, no_shift)]"
  "parity_part 10 2 BG2_EDGES = [(0, [1, 1, 1, 0, 1, 1, 1, 0]), (2, no_shift), (3, no_shift)]"
  "parity_part 10 3 BG2_EDGES = [(0, [0, 0, 0, 1, 0, 0, 0, 1]), (3, no_shift)]"
  by code_simp+

lemma bg1_extension_1: "list_all (extension_edge 22) BG1_EDGES"
  by code_simp

lemma bg2_extension_1: "list_all (extension_edge 10) BG2_EDGES"
  by code_simp

lemma bg1_extension_2: "map row (filter (\<lambda>e. 26 \<le> col e) BG1_EDGES) = [4..<46]"
  by code_simp

lemma bg2_extension_2: "map row (filter (\<lambda>e. 14 \<le> col e) BG2_EDGES) = [4..<42]"
  by code_simp

end
