(* ===== verification/LdpcTotal.thy ===== *)
theory LdpcTotal
  imports LdpcEncode LdpcShape
begin

text \<open>
  Why the elimination of \<open>encode_ge\<close> never meets a singular matrix on the 5G base graphs: the four
  core parity rows are dual-diagonal (their sum isolates the first parity block as one circulant),
  and every extension row adds one new column with shift 0. The shape of the two tables is
  evaluated once, for all eight lifting sets; the argument from the shape is independent of the
  lifting size.
\<close>

section \<open>The equation of one row\<close>

definition edge_var :: "graph \<Rightarrow> nat \<Rightarrow> bg_edge \<Rightarrow> nat" where
  "edge_var g z e = lifted_var (col e) (mod_shift (shift e ! g_i_ls g) (g_zc g)) z (g_zc g)"

lemma block_eq_iff:
  assumes "(i::nat) < zc" "z < zc"
  shows "a * zc + i = b * zc + z \<longleftrightarrow> a = b \<and> i = z"
proof
  assume eq: "a * zc + i = b * zc + z"
  then have "(a * zc + i) div zc = (b * zc + z) div zc" "(a * zc + i) mod zc = (b * zc + z) mod zc"
    by simp_all
  then show "a = b \<and> i = z" using assms by simp
qed simp

lemma expand_edge_row:
  assumes "z < g_zc g" "0 \<le> shift e ! g_i_ls g"
  shows "xlist (\<lambda>x. if s_check x = R * g_zc g + z then f (s_var x) else 0) (expand_edge g e) =
    (if row e = R then f (edge_var g z e) else 0)"
proof -
  have *: "xlist (\<lambda>x. if s_check x = R * g_zc g + z then f (s_var x) else 0) (expand_edge g e) =
    xsum (g_zc g) (\<lambda>i. if row e * g_zc g + i = R * g_zc g + z then f (edge_var g i e) else 0)"
    using assms(2)
    by (simp add: expand_edge_def edge_var_def Let_def xlist_map xlist_upt cong: if_cong)
  show ?thesis
  proof (cases "row e = R")
    case True
    then show ?thesis unfolding * by (subst xsum_single [where j = z]) (use assms in auto)
  next
    case False
    then show ?thesis unfolding * by (auto intro!: xsum_zero simp: block_eq_iff assms(1))
  qed
qed

lemma row_sum:
  assumes g: "graph_ok g" and R: "R < g_mb g" and z: "z < g_zc g"
  shows "dot (N_of g) (build_H g ! (R * g_zc g + z)) f = xlist (\<lambda>e. f (edge_var g z e)) (filter (\<lambda>e. row e = R) (g_edges g))"
proof -
  have s: "0 \<le> shift e ! g_i_ls g" if "e \<in> set (g_edges g)" for e
    using g that by (auto simp: graph_ok_def edge_ok_def list_all_length)
  have "R * g_zc g + z < M_of g" unfolding M_of_def by (rule grid_index_less [OF R z])
  then have "dot (N_of g) (build_H g ! (R * g_zc g + z)) f =
      xlist (\<lambda>e. if row e = R then f (edge_var g z e) else 0) (g_edges g)"
    by (simp add: build_H_ok(2) [OF g] expand_edges_def xlist_concat xlist_map)
      (intro xlist_cong, simp add: expand_edge_row z s)
  then show ?thesis by (simp add: xlist_filter)
qed

lemma row_equation:
  assumes g: "graph_ok g" and R: "R < g_mb g" and z: "z < g_zc g"
    and low: "\<And>c. c < K_of g \<Longrightarrow> f c = 0"
  shows "dot (N_of g) (build_H g ! (R * g_zc g + z)) f =
    xlist (\<lambda>e. f (edge_var g z e)) (filter (\<lambda>e. row e = R \<and> g_kb g \<le> col e) (g_edges g))"
proof -
  have "f (edge_var g z e) = 0" if "\<not> g_kb g \<le> col e" for e
    using that z grid_index_less [of "col e" "g_kb g" "(z + k) mod g_zc g" "g_zc g" for k]
    by (intro low) (simp add: edge_var_def lifted_var_def K_of_def)
  then show ?thesis unfolding row_sum [OF g R z] xlist_filter by (intro xlist_cong) auto
qed

section \<open>Non-singularity from the shape\<close>

definition core_rows :: "graph \<Rightarrow> bool" where
  "core_rows g \<longleftrightarrow> (\<exists>a b.
     let P = (\<lambda>R. map (\<lambda>(c, s). (c, s ! g_i_ls g)) (parity_part (g_kb g) R (g_edges g))) in
     P 0 = [(0, a), (1, 0)] \<and> P 3 = [(0, a), (3, 0)] \<and>
     (P 1 = [(0, b), (1, 0), (2, 0)] \<and> P 2 = [(2, 0), (3, 0)] \<or>
      P 1 = [(1, 0), (2, 0)] \<and> P 2 = [(0, b), (2, 0), (3, 0)]))"

definition extension_rows :: "graph \<Rightarrow> bool" where
  "extension_rows g \<longleftrightarrow> (\<forall>R. 4 \<le> R \<and> R < g_mb g \<longrightarrow>
     (\<exists>e. filter (\<lambda>e. row e = R \<and> g_kb g + 4 \<le> col e) (g_edges g) = [e] \<and>
          col e = g_kb g + R \<and> shift e = no_shift))"

definition block_val :: "graph \<Rightarrow> (nat \<Rightarrow> u8) \<Rightarrow> nat \<Rightarrow> nat \<Rightarrow> u8" where
  "block_val g f c z = f ((g_kb g + c) * g_zc g + z)"

lemma row_equation_part:
  assumes "graph_ok g" "R < g_mb g" "z < g_zc g" "\<And>c. c < K_of g \<Longrightarrow> f c = 0"
  shows "dot (N_of g) (build_H g ! (R * g_zc g + z)) f =
    xlist (\<lambda>(c, s). block_val g f c ((z + mod_shift s (g_zc g)) mod g_zc g))
      (map (\<lambda>(c, s). (c, s ! g_i_ls g)) (parity_part (g_kb g) R (g_edges g)))"
  by (subst row_equation [OF assms], assumption)
    (auto simp: parity_part_def xlist_map edge_var_def block_val_def lifted_var_def intro!: xlist_cong)

lemma mod_shift_0 [simp]: "mod_shift 0 zc = 0"
  by (simp add: mod_shift_def)

lemma mod_shift_less: "0 < zc \<Longrightarrow> 0 \<le> s \<Longrightarrow> mod_shift s zc < zc"
  by (simp add: mod_shift_def Let_def nat_less_iff)

lemma rotation_onto:
  assumes "y < zc" "(s::nat) < zc"
  obtains z where "z < zc" "(z + s) mod zc = y"
proof
  show "(y + zc - s) mod zc < zc" using assms by simp
  show "((y + zc - s) mod zc + s) mod zc = y" using assms by (simp add: mod_add_left_eq)
qed

text \<open>The parity blocks of a core row, as pairs of the block and the shift of the lifting set.\<close>

definition core_part :: "graph \<Rightarrow> nat \<Rightarrow> (nat \<times> int) list" where
  "core_part g R = map (\<lambda>(c, s). (c, s ! g_i_ls g)) (parity_part (g_kb g) R (g_edges g))"

lemma core_row_equation:
  assumes g: "graph_ok g" "4 \<le> g_mb g" and low: "\<And>c. c < K_of g \<Longrightarrow> f c = 0"
    and rows: "\<And>r. r < M_of g \<Longrightarrow> dot (N_of g) (build_H g ! r) f = 0" and R: "R < 4" and z: "z < g_zc g"
  shows "xlist (\<lambda>(c, s). block_val g f c ((z + mod_shift s (g_zc g)) mod g_zc g)) (core_part g R) = 0"
proof -
  have "R * g_zc g + z < Suc R * g_zc g" using z by simp
  also have "\<dots> \<le> g_mb g * g_zc g" using R g(2) by (intro mult_le_mono1) simp
  finally have "R * g_zc g + z < M_of g" by (simp add: M_of_def)
  with rows have "dot (N_of g) (build_H g ! (R * g_zc g + z)) f = 0" by simp
  moreover have "R < g_mb g" using R g(2) by simp
  ultimately show ?thesis using row_equation_part [where f = f, OF g(1) _ z low, of R] by (simp add: core_part_def)
qed

lemma core_shift_nonneg:
  assumes "graph_ok g" "(c, s) \<in> set (core_part g R)"
  shows "0 \<le> s"
  using assms by (auto simp: core_part_def parity_part_def graph_ok_def edge_ok_def list_all_length)

lemma core_blocks_zero:
  assumes g: "graph_ok g" "4 \<le> g_mb g" and core: "core_rows g"
    and low: "\<And>c. c < K_of g \<Longrightarrow> f c = 0"
    and rows: "\<And>r. r < M_of g \<Longrightarrow> dot (N_of g) (build_H g ! r) f = 0"
    and c: "c < 4" and z: "z < g_zc g"
  shows "block_val g f c z = 0"
proof -
  let ?zc = "g_zc g" and ?B = "block_val g f" and ?P = "core_part g"
  have row: "xlist (\<lambda>(c, s). ?B c ((z + mod_shift s ?zc) mod ?zc)) (?P R) = 0" if "R < 4" "z < ?zc" for R z
    by (rule core_row_equation [where f = f, OF g low rows that])
  from core obtain a b where P: "?P 0 = [(0, a), (1, 0)]" "?P 3 = [(0, a), (3, 0)]"
    "?P 1 = [(0, b), (1, 0), (2, 0)] \<and> ?P 2 = [(2, 0), (3, 0)] \<or>
     ?P 1 = [(1, 0), (2, 0)] \<and> ?P 2 = [(0, b), (2, 0), (3, 0)]"
    unfolding core_rows_def core_part_def Let_def by auto
  have b0: "0 \<le> b" using P(3) core_shift_nonneg [OF g(1), of 0 b] by (metis list.set_intros(1))
  let ?a = "\<lambda>z. (z + mod_shift a ?zc) mod ?zc" and ?b = "\<lambda>z. (z + mod_shift b ?zc) mod ?zc"
  have e: "?B 0 (?a z) = ?B 1 z" "?B 0 (?a z) = ?B 3 z" "?B 2 z = ?B 3 z" "?B 0 (?b z) = 0"
    if z: "z < ?zc" for z
  proof -
    show 1: "?B 0 (?a z) = ?B 1 z" using row [OF _ z, of 0] P(1) z by (simp add: xor_eq_0_iff)
    show 3: "?B 0 (?a z) = ?B 3 z" using row [OF _ z, of 3] P(2) z by (simp add: xor_eq_0_iff)
    from P(3) have "?B 2 z = ?B 3 z \<and> ?B 0 (?b z) = 0"
    proof
      assume "?P 1 = [(0, b), (1, 0), (2, 0)] \<and> ?P 2 = [(2, 0), (3, 0)]"
      then show ?thesis
        using row [OF _ z, of 1] row [OF _ z, of 2] z 1 3 by (simp add: xor_eq_0_iff)
    next
      assume "?P 1 = [(1, 0), (2, 0)] \<and> ?P 2 = [(0, b), (2, 0), (3, 0)]"
      then show ?thesis
        using row [OF _ z, of 1] row [OF _ z, of 2] z 1 3 by (simp add: xor_eq_0_iff)
    qed
    then show "?B 2 z = ?B 3 z" "?B 0 (?b z) = 0" by simp_all
  qed
  have B0: "?B 0 y = 0" if "y < ?zc" for y
    using rotation_onto [OF that mod_shift_less [OF _ b0]] z e(4) by (metis gr_zeroI not_less0)
  have "?B 0 (?a z) = 0" using z by (intro B0) simp
  with e [OF z] B0 [OF z] have "?B 0 z = 0" "?B 1 z = 0" "?B 2 z = 0" "?B 3 z = 0" by simp_all
  then show ?thesis using c by (auto simp: less_Suc_eq numeral_eq_Suc)
qed

lemma extension_block_zero:
  assumes g: "graph_ok g" "4 \<le> g_mb g" and core: "core_rows g" and ext: "extension_rows g"
    and low: "\<And>c. c < K_of g \<Longrightarrow> f c = 0"
    and rows: "\<And>r. r < M_of g \<Longrightarrow> dot (N_of g) (build_H g ! r) f = 0"
    and R: "4 \<le> R" "R < g_mb g" and z: "z < g_zc g"
  shows "block_val g f R z = 0"
proof -
  let ?zc = "g_zc g"
  have zero: "f (edge_var g z e) = 0" if "e \<in> set (g_edges g)" "g_kb g \<le> col e" "col e < g_kb g + 4" for e
    using core_blocks_zero [OF g core low rows, of "col e - g_kb g"
        "(z + mod_shift (shift e ! g_i_ls g) ?zc) mod ?zc"] that z
    by (auto simp: block_val_def edge_var_def lifted_var_def)
  from ext R obtain e where e: "filter (\<lambda>e. row e = R \<and> g_kb g + 4 \<le> col e) (g_edges g) = [e]"
    "col e = g_kb g + R" "shift e = no_shift" unfolding extension_rows_def by blast
  have i: "no_shift ! g_i_ls g = 0"
  proof -
    have "\<forall>i<8. no_shift ! i = 0" by (simp add: no_shift_def numeral_eq_Suc less_Suc_eq all_conj_distrib)
    with g(1) show ?thesis by (simp add: graph_ok_def)
  qed
  have "R * ?zc + z < M_of g"
  proof -
    have "R * ?zc + z < Suc R * ?zc" using z by simp
    also have "\<dots> \<le> g_mb g * ?zc" using R by (intro mult_le_mono1) simp
    finally show ?thesis by (simp add: M_of_def)
  qed
  then have "0 = xlist (\<lambda>e. f (edge_var g z e)) (filter (\<lambda>e. row e = R \<and> g_kb g \<le> col e) (g_edges g))"
    using rows row_equation [where f = f, OF g(1) R(2) z low] by simp
  also have "\<dots> = xlist (\<lambda>e. f (edge_var g z e)) (filter (\<lambda>e. row e = R \<and> g_kb g + 4 \<le> col e) (g_edges g))"
    unfolding xlist_filter by (intro xlist_cong) (auto simp: zero)
  also have "\<dots> = block_val g f R z"
    using e(2,3) i z by (simp add: e(1) edge_var_def lifted_var_def block_val_def)
  finally show ?thesis by simp
qed

text \<open>The parity part of the matrix is non-singular when every word of the code without information bits is
  zero.\<close>

lemma nonsingularI:
  assumes g: "graph_ok g" and N: "K_of g + M_of g = N_of g"
    and zero: "\<And>F C z. (\<And>c. c < K_of g \<Longrightarrow> F c = 0) \<Longrightarrow> (\<And>r. r < M_of g \<Longrightarrow> dot (N_of g) (build_H g ! r) F = 0) \<Longrightarrow>
      C < g_mb g \<Longrightarrow> z < g_zc g \<Longrightarrow> block_val g F C z = 0"
  shows "nonsingular (M_of g) (parity_matrix g)"
  unfolding nonsingular_def
proof (intro allI impI)
  fix f c assume f: "(\<forall>c<M_of g. is_bit (f c)) \<and> (\<forall>r<M_of g. dot (M_of g) (parity_matrix g ! r) f = 0)"
    and c: "c < M_of g"
  define F where "F c = (if c < K_of g then 0 else f (c - K_of g))" for c
  have low: "F c = 0" if "c < K_of g" for c using that by (simp add: F_def)
  have rows: "dot (N_of g) (build_H g ! r) F = 0" if r: "r < M_of g" for r
  proof -
    have "dot (N_of g) (build_H g ! r) F =
        dot (K_of g) (build_H g ! r) F XOR dot (M_of g) (drop (K_of g) (build_H g ! r)) (\<lambda>c. F (K_of g + c))"
      unfolding N [symmetric]
      by (rule dot_split) (use N r build_H_ok(1) [OF g] in \<open>simp add: matrix_ok_def\<close>)
    also have "dot (K_of g) (build_H g ! r) F = 0"
      unfolding dot_def by (rule xsum_zero) (simp add: low)
    also have "dot (M_of g) (drop (K_of g) (build_H g ! r)) (\<lambda>c. F (K_of g + c)) =
        dot (M_of g) (parity_matrix g ! r) f"
      using parity_matrix_ok(2) [OF g _ r] build_H_ok(1) [OF g] N r
      by (intro dot_cong) (auto simp: F_def matrix_ok_def)
    finally show ?thesis using f r by simp
  qed
  have zc: "0 < g_zc g" using g by (simp add: graph_ok_def)
  have C: "c div g_zc g < g_mb g" "c mod g_zc g < g_zc g"
    using c zc by (simp_all add: M_of_def less_mult_imp_div_less)
  have "block_val g F (c div g_zc g) (c mod g_zc g) = 0" by (rule zero [OF low rows C])
  moreover have "(g_kb g + c div g_zc g) * g_zc g + c mod g_zc g = K_of g + c"
    by (simp add: K_of_def add_mult_distrib)
  ultimately show "f c = 0" by (simp add: block_val_def F_def)
qed

lemma nonsingular_parity:
  assumes g: "graph_ok g" "4 \<le> g_mb g" "core_rows g" "extension_rows g"
    and N: "K_of g + M_of g = N_of g"
  shows "nonsingular (M_of g) (parity_matrix g)"
proof (rule nonsingularI [OF g(1) N])
  fix F C z assume "\<And>c. c < K_of g \<Longrightarrow> F c = 0" "\<And>r. r < M_of g \<Longrightarrow> dot (N_of g) (build_H g ! r) F = 0" "C < g_mb g" "z < g_zc g"
  then show "block_val g F C z = 0"
    using core_blocks_zero [OF g(1-3), of F C z] extension_block_zero [OF g, of F C z] by (cases "C < 4") auto
qed

section \<open>The graphs of the code have the shape\<close>

definition default_kb :: "base_graph \<Rightarrow> nat" where
  "default_kb bg = (if bg = BG1 then 22 else 10)"

definition default_mb :: "base_graph \<Rightarrow> nat" where
  "default_mb bg = (if bg = BG1 then 46 else 42)"

definition standard_params :: "ldpc_params \<Rightarrow> bool" where
  "standard_params p \<longleftrightarrow> (p_kb p \<le> 0 \<or> p_kb p = int (default_kb (p_bg p))) \<and>
     (p_mb_use p \<le> 0 \<or> 4 \<le> p_mb_use p \<and> p_mb_use p \<le> int (default_mb (p_bg p)))"

lemma filter_row_single:
  assumes "map row (filter P es) = [4..<m]" "4 \<le> R" "R < m"
  obtains e where "filter (\<lambda>e. row e = R \<and> P e) es = [e]" "e \<in> set es" "P e" "row e = R"
proof -
  let ?xs = "filter P es"
  have "R \<in> set (map row ?xs)" unfolding assms(1) using assms(2,3) by simp
  then have "R \<in> row ` set ?xs" unfolding set_map .
  moreover have d: "distinct (map row ?xs)" unfolding assms(1) by simp
  ultimately obtain e where m: "e \<in> set ?xs" and e: "row e = R" by auto
  from split_list [OF m] obtain us vs where s: "?xs = us @ e # vs" by blast
  with d e have "R \<notin> row ` set us" "R \<notin> row ` set vs" by auto
  then have "filter (\<lambda>e. row e = R) us = []" "filter (\<lambda>e. row e = R) vs = []"
    by (auto simp: filter_empty_conv)
  then have "filter (\<lambda>e. row e = R) ?xs = [e]" unfolding s using e by simp
  with m e show thesis using that [of e] by (auto simp: conj_commute)
qed

lemma parity_part_filter:
  assumes "\<forall>q\<in>set (parity_part kb R es). fst q < mb" "R < mb"
  shows "parity_part kb R (filter (\<lambda>e. row e < mb \<and> col e < kb + mb) es) = parity_part kb R es"
proof -
  have "col e < kb + mb" if "e \<in> set es" "row e = R" "kb \<le> col e" for e
    using assms(1) that by (force simp: parity_part_def)
  then show ?thesis unfolding parity_part_def filter_filter
    using assms(2) by (intro arg_cong [of _ _ "map _"] filter_cong) auto
qed

lemma all_less_8: "(\<forall>i<8. P i) \<longleftrightarrow> P 0 \<and> P 1 \<and> P 2 \<and> P 3 \<and> P 4 \<and> P 5 \<and> P 6 \<and> P (7::nat)"
  by (simp add: numeral_eq_Suc less_Suc_eq all_conj_distrib)

lemma no_shift_nth: "i < 8 \<Longrightarrow> no_shift ! i = 0"
proof -
  have "\<forall>i<8. no_shift ! i = 0" by (simp only: all_less_8 no_shift_def) simp
  then show "i < 8 \<Longrightarrow> no_shift ! i = 0" by blast
qed

definition table_of :: "base_graph \<Rightarrow> bg_edge list" where
  "table_of bg = (if bg = BG1 then BG1_EDGES else BG2_EDGES)"

lemma table_core:
  assumes "R < 4" "q \<in> set (parity_part (default_kb bg) R (table_of bg))"
  shows "fst q < 4"
  using assms bg1_core bg2_core
  by (auto simp: table_of_def default_kb_def less_Suc_eq numeral_eq_Suc split: if_splits)

lemma table_core_rows:
  assumes "i < 8"
  shows "\<exists>a b.
     let P = (\<lambda>R. map (\<lambda>(c, s). (c, s ! i)) (parity_part (default_kb bg) R (table_of bg))) in
     P 0 = [(0, a), (1, 0)] \<and> P 3 = [(0, a), (3, 0)] \<and>
     (P 1 = [(0, b), (1, 0), (2, 0)] \<and> P 2 = [(2, 0), (3, 0)] \<or>
      P 1 = [(1, 0), (2, 0)] \<and> P 2 = [(0, b), (2, 0), (3, 0)])"
  using no_shift_nth [OF assms]
  by (cases bg) (auto simp: table_of_def default_kb_def bg1_core bg2_core simp del: One_nat_def)

lemma table_extension:
  "e \<in> set (table_of bg) \<Longrightarrow> default_kb bg + 4 \<le> col e \<Longrightarrow> col e = default_kb bg + row e \<and> shift e = no_shift"
  using bg1_extension_1 bg2_extension_1
  by (auto simp: table_of_def default_kb_def list_all_iff extension_edge_def split: if_splits)

lemma table_extension_rows:
  "map row (filter (\<lambda>e. default_kb bg + 4 \<le> col e) (table_of bg)) = [4..<default_mb bg]"
  using bg1_extension_2 bg2_extension_2 by (simp add: table_of_def default_kb_def default_mb_def)

lemma base_of_eq:
  "\<exists>prov. base_of bg = (default_mb bg, default_kb bg + default_mb bg, default_kb bg, table_of bg, prov)"
  by (cases bg) (simp_all add: base_of_def default_mb_def default_kb_def table_of_def bg_dims)

lemma standard_edges:
  assumes mk: "make_graph p = Inr g" and st: "standard_params p"
  shows "g_kb g = default_kb (p_bg p)" "4 \<le> g_mb g" "g_mb g \<le> default_mb (p_bg p)" "g_nb g = g_kb g + g_mb g"
    "g_edges g = table_of (p_bg p) \<and> g_mb g = default_mb (p_bg p) \<or>
      g_edges g = filter (\<lambda>e. row e < g_mb g \<and> col e < g_kb g + g_mb g) (table_of (p_bg p))"
proof -
  let ?kb = "default_kb (p_bg p)" and ?T = "table_of (p_bg p)" and ?mb = "default_mb (p_bg p)"
  from base_of_eq [of "p_bg p"] obtain prov0 where b: "base_of (p_bg p) = (?mb, ?kb + ?mb, ?kb, ?T, prov0)"
    by blast
  obtain mb0 nb0 kb0 edges0 prov where b': "base_of (p_bg p) = (mb0, nb0, kb0, edges0, prov)"
    and kb': "g_kb g = (if p_kb p > 0 then nat (p_kb p) else kb0)"
    and mb': "p_mb_use p > 0 \<Longrightarrow> p_mb_use p \<le> int mb0" "g_mb g = (if p_mb_use p > 0 then nat (p_mb_use p) else mb0)"
    and nb': "g_nb g = (if p_mb_use p > 0 then g_kb g + g_mb g else nb0)"
    and ed': "g_edges g = (if p_mb_use p > 0
       then filter (\<lambda>e. row e < g_mb g \<and> col e < g_nb g) edges0 else edges0)"
    by (rule make_graph_InrE [OF mk]) (rule that, simp_all only:)
  from b b' have b0: "mb0 = ?mb" "nb0 = ?kb + ?mb" "kb0 = ?kb" "edges0 = ?T" by simp_all
  show kb: "g_kb g = ?kb" using kb' st b0 by (auto simp: standard_params_def)
  show mb: "4 \<le> g_mb g" "g_mb g \<le> ?mb"
    using mb' st b0 by (auto simp: standard_params_def default_mb_def split: if_splits)
  show nb: "g_nb g = g_kb g + g_mb g" using nb' mb'(2) b0 kb by simp
  show ed: "g_edges g = ?T \<and> g_mb g = ?mb \<or>
      g_edges g = filter (\<lambda>e. row e < g_mb g \<and> col e < g_kb g + g_mb g) ?T"
    using ed' mb'(2) nb b0 by (cases "p_mb_use p > 0") simp_all
qed

lemma standard_graph:
  assumes mk: "make_graph p = Inr g" and st: "standard_params p"
  shows "graph_ok g" "4 \<le> g_mb g" "core_rows g" "extension_rows g" "K_of g + M_of g = N_of g"
    "g_kb g = default_kb (p_bg p)"
proof -
  show ok: "graph_ok g" by (rule make_graph_ok [OF mk])
  let ?kb = "default_kb (p_bg p)" and ?T = "table_of (p_bg p)" and ?mb = "default_mb (p_bg p)"
  note ed_facts = standard_edges [OF mk st]
  note kb = ed_facts(1) and mb = ed_facts(2,3) and nb = ed_facts(4) and ed = ed_facts(5)
  show "4 \<le> g_mb g" "g_kb g = ?kb" by fact+
  show "K_of g + M_of g = N_of g" by (simp add: K_of_def M_of_def N_of_def nb algebra_simps)
  have part: "parity_part (g_kb g) R (g_edges g) = parity_part ?kb R ?T" if "R < 4" for R
    using ed
  proof
    assume e: "g_edges g = filter (\<lambda>e. row e < g_mb g \<and> col e < g_kb g + g_mb g) ?T"
    show ?thesis unfolding e kb
      by (rule parity_part_filter) (use table_core [OF that] that mb in force)+
  qed (simp add: kb)
  show "core_rows g"
    using table_core_rows [of "g_i_ls g" "p_bg p"] ok part
    by (simp add: core_rows_def graph_ok_def)
  show "extension_rows g" unfolding extension_rows_def
  proof (intro allI impI)
    fix R assume R: "4 \<le> R \<and> R < g_mb g"
    then have R': "R < ?mb" using mb by simp
    from R obtain e where e: "filter (\<lambda>e. row e = R \<and> ?kb + 4 \<le> col e) ?T = [e]" "e \<in> set ?T"
      "?kb + 4 \<le> col e" "row e = R"
      using filter_row_single [OF table_extension_rows _ R'] by blast
    have "filter (\<lambda>e. row e = R \<and> g_kb g + 4 \<le> col e) (g_edges g) = filter (\<lambda>e. row e = R \<and> ?kb + 4 \<le> col e) ?T"
      using ed
    proof
      assume g: "g_edges g = filter (\<lambda>e. row e < g_mb g \<and> col e < g_kb g + g_mb g) ?T"
      show ?thesis unfolding g filter_filter
      proof (rule filter_cong [OF refl])
        fix x assume "x \<in> set ?T"
        with table_extension [OF this] R kb
        show "((row x < g_mb g \<and> col x < g_kb g + g_mb g) \<and> row x = R \<and> g_kb g + 4 \<le> col x) \<longleftrightarrow>
          (row x = R \<and> ?kb + 4 \<le> col x)" by auto
      qed
    qed (simp add: kb)
    with e table_extension [OF e(2,3)] kb
    show "\<exists>e. filter (\<lambda>e. row e = R \<and> g_kb g + 4 \<le> col e) (g_edges g) = [e] \<and>
      col e = g_kb g + R \<and> shift e = no_shift" by auto
  qed
qed

section \<open>The encoder is total on the standard parameters\<close>

lemma make_graph_standard:
  assumes "standard_params p" "graph_lifting p = Inr (zc, ils)" "p_i_ls p \<le> 7"
    and "p_info_bits p \<le> int (default_kb (p_bg p)) * zc"
  shows "\<exists>g. make_graph p = Inr g \<and> int (g_zc g) = zc \<and> g_kb g = default_kb (p_bg p)"
proof -
  let ?kb = "default_kb (p_bg p)" and ?mb = "default_mb (p_bg p)"
  from base_of_eq [of "p_bg p"] obtain prov
    where b: "base_of (p_bg p) = (?mb, ?kb + ?mb, ?kb, table_of (p_bg p), prov)" by blast
  have kb: "(if p_kb p > 0 then nat (p_kb p) else ?kb) = ?kb"
    using assms(1) by (auto simp: standard_params_def)
  have ils: "0 \<le> ils" "ils \<le> 7"
    using graph_lifting_Inr [OF assms(2)] i_ls_for_zc_less [of zc "nat ils"] assms(3)
    by (cases "p_i_ls p \<ge> 0"; fastforce)+
  have zc: "0 < zc" using graph_lifting_Inr(1) [OF assms(2)] valid_lifting_bounds by auto
  have pos: "0 < ?kb" "?kb < ?kb + ?mb" by (simp_all add: default_kb_def default_mb_def)
  obtain mb nb es where r: "graph_rows p ?kb (?mb, ?kb + ?mb, table_of (p_bg p)) = Inr (mb, nb, es)"
    using assms(1) by (auto simp: graph_rows_def Let_def standard_params_def)
  obtain fl where f: "graph_filler p (int ?kb * zc) = Inr fl"
    using assms(4) by (cases "p_info_bits p > 0") (simp_all add: graph_filler_def)
  show ?thesis
    using ils zc pos by (simp add: make_graph_def b kb assms(2) r f Let_def)
qed

lemma ldpc_encode_standard:
  assumes "bits_ok info" "standard_params p" "p_i_ls p \<le> 7"
    and "graph_lifting (encode_params info p) = Inr (zc, ils)"
    and "int (length info) \<le> int (default_kb (p_bg p)) * zc" "p_info_bits p \<le> int (default_kb (p_bg p)) * zc"
  shows "\<exists>g cw. make_graph (encode_params info p) = Inr g \<and> int (g_zc g) = zc \<and> K_of g + M_of g = N_of g \<and>
    ldpc_encode info p = Inr cw"
proof -
  let ?p = "encode_params info p"
  have st: "standard_params ?p" "p_bg ?p = p_bg p" "p_i_ls ?p = p_i_ls p"
    using assms(2) by (simp_all add: encode_params_def standard_params_def)
  moreover have "p_info_bits ?p \<le> int (default_kb (p_bg p)) * zc"
    using assms(5,6) by (simp add: encode_params_def)
  ultimately obtain g where g: "make_graph ?p = Inr g" "int (g_zc g) = zc" "g_kb g = default_kb (p_bg p)"
    using make_graph_standard [of ?p zc ils] assms(3,4) by auto
  note s = standard_graph [OF g(1) st(1)]
  have "int (length info) \<le> int (K_of g)" using assms(5) g by (simp add: K_of_def)
  then have len: "length info \<le> K_of g" by simp
  have "nonsingular (M_of g) (parity_matrix g)" by (rule nonsingular_parity) (use s in simp_all)
  then obtain cw where "encode_ge (info @ replicate (K_of g - length info) 0) g = Inr cw"
    using encode_ge_total [OF s(1), of "info @ replicate (K_of g - length info) 0"] len assms(1) s(5) by auto
  then have "ldpc_encode info p = Inr cw" using g(1) len assms(1) by (simp add: ldpc_encode_def)
  with g s(5) show ?thesis by blast
qed

lemma encode_lifting_given:
  assumes "p_zc p \<in> set lifting_sizes"
  shows "\<exists>ils. graph_lifting (encode_params info p) = Inr (p_zc p, ils)"
  using assms valid_lifting_iff [of "p_zc p"] valid_lifting_bounds [OF assms]
  by (auto simp: graph_lifting_def encode_params_def is_valid_lifting_size_def Let_def)

lemma encode_lifting_selected:
  assumes "p_zc p \<le> 0" "p_info_bits p < 0" "info \<noteq> []"
    and "int (length info) \<le> kb_for_selection (int (length info)) (p_bg p) * 384"
  shows "\<exists>zc ils. graph_lifting (encode_params info p) = Inr (zc, ils) \<and>
    int (length info) \<le> int (default_kb (p_bg p)) * zc"
proof -
  obtain lc where lc: "select_lifting (int (length info)) (p_bg p) = Inr lc"
    using select_lifting_total [OF assms(4)] by blast
  note s = select_lifting_Inr [OF lc]
  have "kb_for_selection (int (length info)) (p_bg p) * lc_zc lc \<le> int (default_kb (p_bg p)) * lc_zc lc"
    using kb_for_selection_bounds(3) [of "int (length info)" "p_bg p"] valid_lifting_bounds [OF s(1)]
    by (intro mult_right_mono) (simp_all add: default_kb_def bg_dims split: if_splits)
  with s(5) lc assms(1-3) show ?thesis
    by (auto simp: graph_lifting_def encode_params_def)
qed

text \<open>The parameters of \<open>tests/test_ldpc.cpp\<close>: base graph 2, lifting size 2, four parity rows.\<close>

definition test_params :: ldpc_params where
  "test_params = default_params\<lparr>p_zc := 2, p_mb_use := 4\<rparr>"

lemma test_params_simps [simp]:
  "p_bg test_params = BG2" "p_zc test_params = 2" "p_i_ls test_params = -1" "p_mb_use test_params = 4"
  "p_info_bits test_params = -1" "standard_params test_params" "2 \<in> set lifting_sizes"
  by (simp_all add: test_params_def default_params_def standard_params_def default_mb_def
      lifting_sizes_def upt_rec)

lemma test_graph:
  assumes "bits_ok info" "length info = 20"
  obtains g cw where "make_graph (encode_params info test_params) = Inr g" "ldpc_encode info test_params = Inr cw"
    "N_of g = 28" "K_of g = 20" "M_of g = 8" "graph_ok g"
proof -
  obtain ils where "graph_lifting (encode_params info test_params) = Inr (2, ils)"
    using encode_lifting_given [of test_params info] by auto
  from ldpc_encode_standard [OF assms(1) _ _ this] assms(2) obtain g cw
    where g: "make_graph (encode_params info test_params) = Inr g" "g_zc g = 2" "K_of g + M_of g = N_of g"
      and cw: "ldpc_encode info test_params = Inr cw"
    by (force simp: default_kb_def)
  have p: "standard_params (encode_params info test_params)" "p_bg (encode_params info test_params) = BG2"
    "p_mb_use (encode_params info test_params) = 4"
    by (simp_all add: encode_params_def standard_params_def test_params_def default_params_def default_mb_def)
  from g(1) have "g_mb g = 4" by (rule make_graph_InrE) (simp_all add: p)
  with g standard_graph [OF g(1) p(1)] p(2) have "N_of g = 28" "K_of g = 20" "M_of g = 8" "graph_ok g"
    by (simp_all add: K_of_def M_of_def default_kb_def)
  with g cw show thesis by (intro that) auto
qed

lemma in_code_zero: "in_code g (\<lambda>c. 0)"
  by (simp add: in_code_def dot_def xsum_zero)

section \<open>Properties\<close>

text \<open>C3: with the 5G number of information columns, at least the four core rows and a valid
  lifting size, the encoder accepts every bit vector that fits and returns a codeword: the
  elimination never reports a singular matrix, for any lifting size and any lifting set.\<close>

theorem ldpc_encode_total:
  assumes "bits_ok info" "standard_params p" "p_zc p \<in> set lifting_sizes" "p_i_ls p \<le> 7"
    and "int (length info) \<le> int (default_kb (p_bg p)) * p_zc p"
    and "p_info_bits p \<le> int (default_kb (p_bg p)) * p_zc p"
  shows "\<exists>cw. ldpc_encode info p = Inr cw"
proof -
  obtain ils where "graph_lifting (encode_params info p) = Inr (p_zc p, ils)"
    using encode_lifting_given [OF assms(3)] by blast
  from ldpc_encode_standard [OF assms(1,2,4) this assms(5,6)] show ?thesis by blast
qed

text \<open>With no lifting size given the encoder selects one and succeeds exactly when the
  information bits fit the largest lifting size of the selection table.\<close>

theorem ldpc_encode_auto:
  assumes "bits_ok info" "standard_params p" "p_zc p \<le> 0" "p_i_ls p \<le> 7" "p_info_bits p < 0" "info \<noteq> []"
  shows "(\<exists>cw. ldpc_encode info p = Inr cw) \<longleftrightarrow>
    int (length info) \<le> kb_for_selection (int (length info)) (p_bg p) * 384"
proof
  assume "int (length info) \<le> kb_for_selection (int (length info)) (p_bg p) * 384"
  from encode_lifting_selected [OF assms(3,5,6) this] obtain zc ils
    where l: "graph_lifting (encode_params info p) = Inr (zc, ils)" "int (length info) \<le> int (default_kb (p_bg p)) * zc"
    by blast
  with ldpc_encode_standard [OF assms(1,2,4) l] assms(5) show "\<exists>cw. ldpc_encode info p = Inr cw" by force
next
  assume "\<exists>cw. ldpc_encode info p = Inr cw"
  then obtain g where "make_graph (encode_params info p) = Inr g" by (auto elim: ldpc_encode_InrE)
  then have "\<exists>l. graph_lifting (encode_params info p) = Inr l"
    by (auto simp: make_graph_def Let_def and_then_Inr_iff split: prod.splits)
  then have "\<exists>lc. select_lifting (int (length info)) (p_bg p) = Inr lc"
    using assms(3,5) by (auto simp: graph_lifting_def encode_params_def and_then_Inr_iff split: if_splits)
  then show "int (length info) \<le> kb_for_selection (int (length info)) (p_bg p) * 384"
    using select_lifting_error [of "int (length info)" "p_bg p"] by fastforce
qed

section \<open>Witnesses\<close>

theorem ldpc_encode_total_witness: "\<exists>cw. ldpc_encode (replicate 20 1) test_params = Inr cw"
  by (rule ldpc_encode_total) (simp_all add: default_kb_def)

theorem ldpc_encode_auto_witness: "\<exists>cw. ldpc_encode (replicate 100 1) default_params = Inr cw"
proof -
  have "standard_params default_params" by (simp add: default_params_def standard_params_def)
  with ldpc_encode_auto [of "replicate 100 1" default_params] show ?thesis
    by (simp add: default_params_def kb_for_selection_def)
qed

theorem ldpc_encode_codeword_witness:
  "\<exists>cw. ldpc_encode (replicate 20 1) test_params = Inr cw \<and> ldpc_syndrome_ok cw test_params = Inr True"
proof -
  obtain g cw where "ldpc_encode (replicate 20 1) test_params = Inr cw"
    by (rule test_graph [of "replicate 20 1"]) simp_all
  with ldpc_encode_codeword [OF this] show ?thesis by auto
qed

theorem ldpc_encode_unique_witness: "ldpc_encode (replicate 20 0) test_params = Inr (replicate 28 0)"
proof -
  obtain g cw where g: "make_graph (encode_params (replicate 20 0) test_params) = Inr g" "N_of g = 28" "K_of g = 20"
    "M_of g = 8" and cw: "ldpc_encode (replicate 20 0) test_params = Inr cw"
    by (rule test_graph [of "replicate 20 0"]) simp_all
  have "in_code g (\<lambda>c. replicate 28 0 ! c)"
    using in_code_zero [of g] g(2) dot_cong [of 28 _ _ "\<lambda>c. replicate 28 0 ! c" "\<lambda>c. 0"]
    by (auto simp: in_code_def)
  then have "replicate 28 0 = cw"
    using ldpc_encode_unique [OF cw g(1), of "replicate 28 0"] syndrome_of_code [OF g(1), of "replicate 28 0"] g
    by simp
  with cw show ?thesis by simp
qed

end
