(* ===== verification/Llr.thy ===== *)
theory Llr
  imports Prelude "HOL-Library.Multiset"
begin

text \<open>
  \<open>include/nr_bb/llr.hpp\<close> and \<open>src/llr.cpp\<close>: hard bits to log-likelihood ratios, hard decisions
  and Chase combining. The locale \<open>soft_combining\<close> is the contract of a combiner (a commutative
  monoid on the vectors of one length); HARQ and the campaigns use it through its interpretation on
  \<open>llr_combine\<close>'s vector sum.
\<close>

section \<open>The code\<close>

definition bits_to_llr :: "bitvec \<Rightarrow> real \<Rightarrow> softvec result" where
  "bits_to_llr bits magnitude =
     mapE (\<lambda>b. and_then (require (b = 0 \<or> b = 1) ''bits 0/1'')
                 (\<lambda>_. Inr (if b = 0 then magnitude else - magnitude))) bits"

definition llr_to_bits :: "softvec \<Rightarrow> bitvec" where
  "llr_to_bits llr = map (\<lambda>l. if l \<ge> 0 then 0 else 1) llr"

definition vec_add :: "softvec \<Rightarrow> softvec \<Rightarrow> softvec" where
  "vec_add a b = map (\<lambda>i. a ! i + b ! i) [0..<length a]"

definition llr_combine :: "softvec \<Rightarrow> softvec \<Rightarrow> softvec result" where
  "llr_combine a b =
     and_then (require (length a = length b) ''llr_combine size mismatch'') (\<lambda>_. Inr (vec_add a b))"

section \<open>Lemmas\<close>

lemma bits_to_llr_eq:
  "bits_ok bits \<Longrightarrow> bits_to_llr bits m = Inr (map (\<lambda>b. if b = 0 then m else - m) bits)"
  unfolding bits_to_llr_def
  by (rule mapE_Inr) (auto simp: bits_ok_def list_all_iff is_bit_def)

lemma bits_to_llr_error: "\<not> bits_ok bits \<Longrightarrow> bits_to_llr bits m = Inl (Error ''bits 0/1'')"
  by (induction bits) (auto simp: bits_to_llr_def is_bit_def)

lemma length_llr_to_bits [simp]: "length (llr_to_bits l) = length l"
  by (simp add: llr_to_bits_def)

lemma nth_llr_to_bits [simp]: "i < length l \<Longrightarrow> llr_to_bits l ! i = (if l ! i \<ge> 0 then 0 else 1)"
  by (simp add: llr_to_bits_def)

lemma bits_ok_llr_to_bits [simp]: "bits_ok (llr_to_bits l)"
  by (auto simp: bits_ok_iff_nth)

lemma llr_to_bits_of_bits:
  "bits_ok bits \<Longrightarrow> m > 0 \<Longrightarrow> llr_to_bits (map (\<lambda>b. if b = 0 then m else - m) bits) = bits"
  by (rule nth_equalityI) (auto simp: bits_ok_iff_nth is_bit_def)

lemma length_vec_add [simp]: "length (vec_add a b) = length a"
  by (simp add: vec_add_def)

lemma nth_vec_add [simp]: "i < length a \<Longrightarrow> vec_add a b ! i = a ! i + b ! i"
  by (simp add: vec_add_def)

section \<open>The contract of a combiner\<close>

locale soft_combining =
  fixes comb :: "'v \<Rightarrow> 'v \<Rightarrow> 'v" and dom_of :: "'v \<Rightarrow> 'n"
  assumes comb_closed: "dom_of a = dom_of b \<Longrightarrow> dom_of (comb a b) = dom_of a"
    and comb_assoc: "dom_of a = dom_of b \<Longrightarrow> dom_of b = dom_of c \<Longrightarrow>
      comb (comb a b) c = comb a (comb b c)"
    and comb_commute: "dom_of a = dom_of b \<Longrightarrow> comb a b = comb b a"
begin

lemma foldl_closed:
  "(\<And>x. x \<in> set xs \<Longrightarrow> dom_of x = dom_of a) \<Longrightarrow> dom_of (foldl comb a xs) = dom_of a"
  by (induction xs arbitrary: a) (simp_all add: comb_closed)

lemma foldl_comb_swap:
  "(\<And>x. x \<in> set xs \<Longrightarrow> dom_of x = dom_of a) \<Longrightarrow> dom_of b = dom_of a \<Longrightarrow>
   foldl comb (comb a b) xs = comb (foldl comb a xs) b"
proof (induction xs arbitrary: a)
  case (Cons x xs)
  have "comb (comb a b) x = comb (comb a x) b"
    using Cons.prems by (metis comb_assoc comb_commute list.set_intros(1))
  with Cons show ?case by (simp add: comb_closed)
qed simp

text \<open>The order in which transmissions are combined does not matter.\<close>

lemma foldl_comb_perm:
  assumes "mset xs = mset ys" "\<And>x. x \<in> set xs \<Longrightarrow> dom_of x = dom_of a"
  shows "foldl comb a xs = foldl comb a ys"
  using assms
proof (induction xs arbitrary: a ys)
  case (Cons x xs)
  from Cons.prems(1) have "x \<in> set ys" by (metis list.set_intros(1) mset_eq_setD)
  then obtain us vs where ys: "ys = us @ x # vs" by (metis split_list)
  with Cons.prems(1) have ms: "mset xs = mset (us @ vs)" by simp
  have dom: "dom_of z = dom_of a" if "z \<in> set ys" for z
    using that Cons.prems by (metis mset_eq_setD)
  have "foldl comb a (x # xs) = foldl comb (comb a x) (us @ vs)"
    using Cons.IH [OF ms, of "comb a x"] Cons.prems(2) by (simp add: comb_closed)
  also have "\<dots> = foldl comb (comb (foldl comb a us) x) vs"
    using dom ys by (simp add: foldl_comb_swap)
  finally show ?case using ys by simp
qed simp

end

interpretation llr: soft_combining vec_add length
  by unfold_locales (auto intro!: nth_equalityI)

section \<open>Properties\<close>

text \<open>Hard decisions undo the conversion of bits to LLRs, for any positive magnitude, and no
  other input is accepted.\<close>

theorem llr_bits_roundtrip:
  "bits_to_llr bits m = (if bits_ok bits then Inr (map (\<lambda>b. if b = 0 then m else - m) bits)
                         else Inl (Error ''bits 0/1'')) \<and>
   (bits_ok bits \<and> m > 0 \<longrightarrow> llr_to_bits (map (\<lambda>b. if b = 0 then m else - m) bits) = bits)"
  by (auto simp: bits_to_llr_eq bits_to_llr_error llr_to_bits_of_bits)

theorem llr_bits_roundtrip_witness:
  "llr_to_bits (map (\<lambda>b. if b = 0 then 2 else - 2) ([0, 1, 1, 0] :: bitvec)) = [0, 1, 1, 0]"
  using llr_bits_roundtrip [of "[0, 1, 1, 0]" 2] by simp

end
