(* ===== verification/Dbl.thy ===== *)
theory Dbl
  imports Complex_Main
begin

text \<open>
  \<open>double\<close> where the code uses infinity as a value: exact reals extended by the two infinities and
  \<open>NaN\<close>, with the IEEE rules for addition, subtraction, absolute value, comparison and
  multiplication by a finite factor. Rounding and the sign of zero are not modelled (no operation
  used here distinguishes the two zeros).
\<close>

datatype dbl = Fin real | PInf | NInf | NaN

fun d_neg :: "dbl \<Rightarrow> dbl" where
  "d_neg (Fin x) = Fin (- x)"
| "d_neg PInf = NInf"
| "d_neg NInf = PInf"
| "d_neg NaN = NaN"

fun d_add :: "dbl \<Rightarrow> dbl \<Rightarrow> dbl" where
  "d_add (Fin x) (Fin y) = Fin (x + y)"
| "d_add NaN y = NaN"
| "d_add x NaN = NaN"
| "d_add PInf NInf = NaN"
| "d_add NInf PInf = NaN"
| "d_add PInf y = PInf"
| "d_add x PInf = PInf"
| "d_add NInf y = NInf"
| "d_add x NInf = NInf"

definition d_sub :: "dbl \<Rightarrow> dbl \<Rightarrow> dbl" where
  "d_sub x y = d_add x (d_neg y)"

fun d_less :: "dbl \<Rightarrow> dbl \<Rightarrow> bool" where
  "d_less NaN y = False"
| "d_less x NaN = False"
| "d_less (Fin x) (Fin y) = (x < y)"
| "d_less NInf y = (y \<noteq> NInf)"
| "d_less x PInf = (x \<noteq> PInf)"
| "d_less x y = False"

definition d_ge0 :: "dbl \<Rightarrow> bool" where
  "d_ge0 x = (case x of Fin r \<Rightarrow> 0 \<le> r | PInf \<Rightarrow> True | NInf \<Rightarrow> False | NaN \<Rightarrow> False)"

fun d_abs :: "dbl \<Rightarrow> dbl" where
  "d_abs (Fin x) = Fin \<bar>x\<bar>"
| "d_abs PInf = PInf"
| "d_abs NInf = PInf"
| "d_abs NaN = NaN"

text \<open>Multiplication by a finite factor.\<close>

fun d_scale :: "real \<Rightarrow> dbl \<Rightarrow> dbl" where
  "d_scale k (Fin x) = Fin (k * x)"
| "d_scale k PInf = (if k > 0 then PInf else if k < 0 then NInf else NaN)"
| "d_scale k NInf = (if k > 0 then NInf else if k < 0 then PInf else NaN)"
| "d_scale k NaN = NaN"

lemma d_add_0 [simp]: "d_add x (Fin 0) = x"
  by (cases x) simp_all

lemma d_ge0_Fin [simp]: "d_ge0 (Fin x) \<longleftrightarrow> 0 \<le> x"
  by (simp add: d_ge0_def)

lemma d_neg_neg [simp]: "d_neg (d_neg x) = x"
  by (cases x) simp_all

lemma d_neg_add: "d_neg (d_add x y) = d_add (d_neg x) (d_neg y)"
  by (cases x; cases y) simp_all

lemma d_neg_sub: "d_neg (d_sub x y) = d_sub (d_neg x) (d_neg y)"
  by (simp add: d_sub_def d_neg_add)

lemma d_abs_neg [simp]: "d_abs (d_neg x) = d_abs x"
  by (cases x) simp_all

text \<open>Without rounding the addition is associative and commutative also where infinities meet, so that the
  sums of the library apply and the order in which a loop adds values does not matter.\<close>

instantiation dbl :: comm_monoid_add
begin

definition zero_dbl :: dbl where "zero_dbl = Fin 0"

definition plus_dbl :: "dbl \<Rightarrow> dbl \<Rightarrow> dbl" where "plus_dbl = d_add"

instance
proof
  fix a b c :: dbl
  show "a + b + c = a + (b + c)" by (cases a; cases b; cases c) (simp_all add: plus_dbl_def)
  show "a + b = b + a" by (cases a; cases b) (simp_all add: plus_dbl_def)
  show "0 + a = a" by (cases a) (simp_all add: plus_dbl_def zero_dbl_def)
qed

end

lemma foldl_d_add: "foldl (\<lambda>s x. d_add s (f x)) a xs = a + (\<Sum>x\<leftarrow>xs. f x)"
  by (induction xs arbitrary: a) (simp_all add: plus_dbl_def [symmetric] add.assoc)

lemma sum_list_Fin: "(\<Sum>x\<leftarrow>xs. Fin (f x)) = Fin (\<Sum>x\<leftarrow>xs. f x)"
  by (induction xs) (simp_all add: plus_dbl_def zero_dbl_def)

end
