(* ===== verification/LdpcDecode.thy ===== *)
theory LdpcDecode
  imports LdpcTotal Llr Dbl
begin

text \<open>
  The normalised min-sum decoder of \<open>src/ldpc.cpp\<close> (\<open>decode_minsum\<close>, \<open>ldpc_decode\<close>). The loop
  \<open>for (it = 0; it < max_iter; ++it)\<close> is the recursion of \<open>minsum_loop\<close> on the iterations that
  are left; one pass over the variables, the syndrome test and one pass over the checks are separate
  definitions. Messages are \<open>dbl\<close>, because the minimum over an empty set of edges is infinity.
\<close>

section \<open>The code\<close>

definition var_edges :: "sparse_edge list \<Rightarrow> nat \<Rightarrow> nat list" where
  "var_edges edges v = filter (\<lambda>i. s_var (edges ! i) = v) [0..<length edges]"

definition chk_edges :: "sparse_edge list \<Rightarrow> nat \<Rightarrow> nat list" where
  "chk_edges edges c = filter (\<lambda>i. s_check (edges ! i) = c) [0..<length edges]"

definition hard_of :: "nat \<Rightarrow> dbl list \<Rightarrow> bitvec" where
  "hard_of N a = map (\<lambda>i. if d_ge0 (a ! i) then 0 else 1) [0..<N]"

definition syndrome :: "sparse_edge list \<Rightarrow> nat \<Rightarrow> bitvec \<Rightarrow> bool" where
  "syndrome edges M hard =
     list_all (\<lambda>c. foldl (\<lambda>s ei. s XOR hard ! s_var (edges ! ei)) 0 (chk_edges edges c) = 0) [0..<M]"

definition app_of :: "sparse_edge list \<Rightarrow> nat \<Rightarrow> dbl list \<Rightarrow> dbl list \<Rightarrow> dbl list" where
  "app_of edges N channel c2v =
     map (\<lambda>v. foldl (\<lambda>s ei. d_add s (c2v ! ei)) (channel ! v) (var_edges edges v)) [0..<N]"

definition v2c_of :: "sparse_edge list \<Rightarrow> nat \<Rightarrow> dbl list \<Rightarrow> dbl list \<Rightarrow> dbl list \<Rightarrow> dbl list" where
  "v2c_of edges N app c2v v2c =
     foldl (\<lambda>m v. foldl (\<lambda>m ei. m[ei := d_sub (app ! v) (c2v ! ei)]) m (var_edges edges v)) v2c [0..<N]"

definition check_step :: "dbl list \<Rightarrow> nat \<Rightarrow> dbl \<times> int \<Rightarrow> nat \<Rightarrow> dbl \<times> int" where
  "check_step v2c ei st ej =
     (case st of (min1, sign) \<Rightarrow>
        if ej = ei then st
        else let a = d_abs (v2c ! ej) in
          (if d_less a min1 then a else min1, if d_less (v2c ! ej) (Fin 0) then - sign else sign))"

definition check_msg :: "dbl list \<Rightarrow> nat list \<Rightarrow> nat \<Rightarrow> dbl" where
  "check_msg v2c els ei =
     (case foldl (check_step v2c ei) (PInf, 1) els of (min1, sign) \<Rightarrow>
        d_scale (3 / 4) (d_scale (real_of_int sign) min1))"

definition c2v_of :: "sparse_edge list \<Rightarrow> nat \<Rightarrow> dbl list \<Rightarrow> dbl list \<Rightarrow> dbl list" where
  "c2v_of edges M v2c c2v =
     foldl (\<lambda>m c. foldl (\<lambda>m ei. m[ei := check_msg v2c (chk_edges edges c) ei]) m (chk_edges edges c)) c2v [0..<M]"

fun minsum_loop :: "graph \<Rightarrow> sparse_edge list \<Rightarrow> dbl list \<Rightarrow> nat \<Rightarrow> dbl list \<Rightarrow> dbl list \<Rightarrow> bitvec" where
  "minsum_loop g edges channel 0 c2v v2c = take (K_of g) (hard_of (N_of g) (app_of edges (N_of g) channel c2v))"
| "minsum_loop g edges channel (Suc n) c2v v2c =
     (let app = app_of edges (N_of g) channel c2v;
          v2c' = v2c_of edges (N_of g) app c2v v2c;
          hard = hard_of (N_of g) app
      in if syndrome edges (M_of g) hard then take (K_of g) hard
         else minsum_loop g edges channel n (c2v_of edges (M_of g) v2c' c2v) v2c')"

definition decode_minsum :: "softvec \<Rightarrow> graph \<Rightarrow> int \<Rightarrow> bitvec result" where
  "decode_minsum llr g max_iter =
     and_then (require (length llr = N_of g) ''LLR length must equal nb*zc'') (\<lambda>_.
     let edges = expand_edges g; zeros = replicate (length edges) (Fin 0) in
     Inr (minsum_loop g edges (map Fin llr) (nat max_iter) zeros zeros))"

definition ldpc_decode :: "softvec \<Rightarrow> ldpc_params \<Rightarrow> bitvec result" where
  "ldpc_decode llr p =
     and_then (if p_zc p = 0 then require (p_info_bits p > 0) ''decode with zc==0 needs info_bits'' else Inr ()) (\<lambda>_.
     and_then (make_graph p) (\<lambda>g. decode_minsum llr g (p_max_iter p)))"

section \<open>The syndrome test\<close>

lemma length_hard_of [simp]: "length (hard_of N a) = N"
  by (simp add: hard_of_def)

lemma bits_ok_hard_of [simp]: "bits_ok (hard_of N a)"
  by (auto simp: hard_of_def bits_ok_iff_nth)

lemma edge_syndrome:
  "foldl (\<lambda>s ei. s XOR hard ! s_var (edges ! ei)) 0 (chk_edges edges c) =
   xlist (\<lambda>x. if s_check x = c then hard ! s_var x else 0) edges"
proof -
  have "foldl (\<lambda>s ei. s XOR hard ! s_var (edges ! ei)) 0 (chk_edges edges c) =
      xlist (\<lambda>i. if s_check (edges ! i) = c then hard ! s_var (edges ! i) else 0) [0..<length edges]"
    by (simp add: foldl_xor chk_edges_def xlist_filter)
  also have "\<dots> = xlist (\<lambda>x. if s_check x = c then hard ! s_var x else 0) (map ((!) edges) [0..<length edges])"
    by (simp add: xlist_map)
  finally show ?thesis by (simp add: map_nth)
qed

text \<open>The test over the edges agrees with the one over the parity-check matrix.\<close>

lemma syndrome_in_code:
  assumes "graph_ok g"
  shows "syndrome (expand_edges g) (M_of g) hard \<longleftrightarrow> in_code g (\<lambda>c. hard ! c)"
  by (auto simp: syndrome_def in_code_def list_all_iff edge_syndrome build_H_ok(2) [OF assms])

section \<open>The iterations\<close>

fun iterate :: "graph \<Rightarrow> dbl list \<Rightarrow> nat \<Rightarrow> dbl list \<times> dbl list" where
  "iterate g channel 0 = (replicate (length (expand_edges g)) (Fin 0), replicate (length (expand_edges g)) (Fin 0))"
| "iterate g channel (Suc n) =
     (case iterate g channel n of (c2v, v2c) \<Rightarrow>
        let v2c' = v2c_of (expand_edges g) (N_of g) (app_of (expand_edges g) (N_of g) channel c2v) c2v v2c
        in (c2v_of (expand_edges g) (M_of g) v2c' c2v, v2c'))"

text \<open>The hard decisions of the \<open>n\<close>-th iteration.\<close>

definition decision :: "graph \<Rightarrow> softvec \<Rightarrow> nat \<Rightarrow> bitvec" where
  "decision g llr n =
     hard_of (N_of g) (app_of (expand_edges g) (N_of g) (map Fin llr) (fst (iterate g (map Fin llr) n)))"

text \<open>The a-posteriori value of a variable is the channel value plus the messages of its checks, in any order.\<close>

lemma app_of_sum: "v < N \<Longrightarrow> app_of edges N channel c2v ! v = channel ! v + (\<Sum>i\<leftarrow>var_edges edges v. c2v ! i)"
  by (simp add: app_of_def foldl_d_add)

lemma app_of_zero:
  assumes "v < N"
  shows "app_of edges N channel (replicate (length edges) (Fin 0)) ! v = channel ! v"
proof -
  have "map ((!) (replicate (length edges) (Fin 0))) (var_edges edges v) = map (\<lambda>_. 0) (var_edges edges v)"
    by (simp add: var_edges_def zero_dbl_def)
  then show ?thesis unfolding app_of_sum [OF assms] by (simp only:) simp
qed

lemma decision_0:
  assumes "length llr = N_of g"
  shows "decision g llr 0 = llr_to_bits llr"
  using assms by (intro nth_equalityI) (simp_all add: decision_def hard_of_def app_of_zero)

text \<open>The index of the first decision in \<open>[a..<b]\<close> that is a codeword, \<open>b\<close> if there is none.\<close>

definition first_hit :: "(nat \<Rightarrow> bool) \<Rightarrow> nat \<Rightarrow> nat \<Rightarrow> nat" where
  "first_hit P a b = (case find P [a..<b] of Some i \<Rightarrow> i | None \<Rightarrow> b)"

lemma first_hit_simps:
  "first_hit P a a = a" "P a \<Longrightarrow> a < b \<Longrightarrow> first_hit P a b = a" "\<not> P a \<Longrightarrow> a < b \<Longrightarrow> first_hit P a b = first_hit P (Suc a) b"
  by (simp_all add: first_hit_def upt_conv_Cons)

lemma first_hit_spec:
  assumes "a \<le> b"
  shows "a \<le> first_hit P a b \<and> first_hit P a b \<le> b \<and> (first_hit P a b < b \<longrightarrow> P (first_hit P a b)) \<and>
    (\<forall>i. a \<le> i \<and> i < first_hit P a b \<longrightarrow> \<not> P i)"
  using assms
proof (induction "b - a" arbitrary: a)
  case (Suc k)
  show ?case
  proof (cases "P a")
    case False
    from Suc.hyps(2) have ab: "k = b - Suc a" "Suc a \<le> b" "a < b" by simp_all
    have "i = a \<or> Suc a \<le> i" if "a \<le> i" for i using that by auto
    then show ?thesis
      using Suc.hyps(1) [OF ab(1,2)] False unfolding first_hit_simps(3) [of P, OF False ab(3)]
      by (metis Suc_leD)
  qed (use Suc in \<open>auto simp: first_hit_simps\<close>)
qed (auto simp: first_hit_simps)

lemma minsum_loop_eq:
  assumes "graph_ok g" "iterate g (map Fin llr) n = (c2v, v2c)"
  shows "minsum_loop g (expand_edges g) (map Fin llr) k c2v v2c =
    take (K_of g) (decision g llr (first_hit (\<lambda>i. in_code g (\<lambda>c. decision g llr i ! c)) n (n + k)))"
  using assms(2)
proof (induction k arbitrary: n c2v v2c)
  case 0
  then show ?case by (simp add: decision_def first_hit_simps)
next
  case (Suc k)
  let ?app = "app_of (expand_edges g) (N_of g) (map Fin llr) c2v"
  have d: "hard_of (N_of g) ?app = decision g llr n" using Suc.prems by (simp add: decision_def)
  show ?case
  proof (cases "in_code g (\<lambda>c. decision g llr n ! c)")
    case True
    then show ?thesis by (simp add: Let_def d syndrome_in_code [OF assms(1)] first_hit_simps)
  next
    case False
    obtain c2v' v2c' where "iterate g (map Fin llr) (Suc n) = (c2v', v2c')"
      "c2v' = c2v_of (expand_edges g) (M_of g) v2c' c2v" "v2c' = v2c_of (expand_edges g) (N_of g) ?app c2v v2c"
      using Suc.prems by (simp add: Let_def)
    then show ?thesis
      using Suc.IH [of "Suc n" c2v' v2c'] False
      by (simp add: Let_def d syndrome_in_code [OF assms(1)] first_hit_simps)
  qed
qed

lemma decode_minsum_eq:
  assumes "graph_ok g" "length llr = N_of g"
  shows "decode_minsum llr g max_iter = Inr (take (K_of g) (decision g llr
    (first_hit (\<lambda>i. in_code g (\<lambda>c. decision g llr i ! c)) 0 (nat max_iter))))"
proof -
  let ?z = "replicate (length (expand_edges g)) (Fin 0)"
  have "iterate g (map Fin llr) 0 = (?z, ?z)" by simp
  note eq = minsum_loop_eq [OF assms(1) this, of "nat max_iter", simplified]
  show ?thesis using assms(2) by (simp add: decode_minsum_def Let_def eq)
qed

text \<open>Hard decisions that form a codeword are accepted before the first iteration.\<close>

lemma decode_minsum_hit:
  assumes "graph_ok g" "length llr = N_of g" "in_code g (\<lambda>c. llr_to_bits llr ! c)"
  shows "decode_minsum llr g n = Inr (take (K_of g) (llr_to_bits llr))"
proof -
  have "in_code g (\<lambda>c. decision g llr 0 ! c)" using assms(3) by (simp add: decision_0 [OF assms(2)])
  then have "first_hit (\<lambda>i. in_code g (\<lambda>c. decision g llr i ! c)) 0 (nat n) = 0"
    by (cases "nat n") (simp_all add: first_hit_simps)
  then show ?thesis by (simp add: decode_minsum_eq [OF assms(1,2)] decision_0 [OF assms(2)])
qed

lemma ldpc_decode_hit:
  assumes "make_graph p = Inr g" "length llr = N_of g" "p_zc p = 0 \<longrightarrow> p_info_bits p > 0" "in_code g (\<lambda>c. llr_to_bits llr ! c)"
  shows "ldpc_decode llr p = Inr (take (K_of g) (llr_to_bits llr))"
  using assms(1,3) decode_minsum_hit [OF make_graph_ok [OF assms(1)] assms(2,4)] by (auto simp: ldpc_decode_def)

section \<open>Properties\<close>

text \<open>C7: what the decoder returns. For every input of the right length the result is the first
  \<open>K\<close> bits of the hard decisions of one iteration: the first that satisfies all parity checks, or
  the one after the last allowed iteration when none does. So the early exit never returns a word
  that fails the syndrome test and never misses an earlier codeword.\<close>

theorem ldpc_decode_first_codeword:
  assumes "make_graph p = Inr g" "length llr = N_of g" "p_zc p = 0 \<longrightarrow> p_info_bits p > 0"
  shows "\<exists>n. n \<le> nat (p_max_iter p) \<and> ldpc_decode llr p = Inr (take (K_of g) (decision g llr n)) \<and>
    (n < nat (p_max_iter p) \<longrightarrow> ldpc_syndrome_ok (decision g llr n) p = Inr True) \<and>
    (\<forall>i<n. ldpc_syndrome_ok (decision g llr i) p = Inr False)"
proof -
  let ?P = "\<lambda>i. in_code g (\<lambda>c. decision g llr i ! c)"
  let ?n = "first_hit ?P 0 (nat (p_max_iter p))"
  have "ldpc_decode llr p = Inr (take (K_of g) (decision g llr ?n))"
    using assms decode_minsum_eq [OF make_graph_ok [OF assms(1)] assms(2)] by (auto simp: ldpc_decode_def)
  moreover have "ldpc_syndrome_ok (decision g llr i) p = Inr (?P i)" for i
    using syndrome_of_code [OF assms(1), of "decision g llr i"] by (simp add: decision_def)
  ultimately show ?thesis using first_hit_spec [of 0 "nat (p_max_iter p)" ?P] by (intro exI [of _ ?n]) auto
qed

text \<open>A received word whose hard decisions already form a codeword is decoded to its information
  part, for any number of iterations (none included) and any reliabilities.\<close>

theorem ldpc_decode_codeword:
  assumes "make_graph p = Inr g" "length llr = N_of g" "p_zc p = 0 \<longrightarrow> p_info_bits p > 0"
    and "ldpc_syndrome_ok (llr_to_bits llr) p = Inr True"
  shows "ldpc_decode llr p = Inr (take (K_of g) (llr_to_bits llr))"
  using assms syndrome_of_code [OF assms(1), of "llr_to_bits llr"] by (intro ldpc_decode_hit) simp_all

lemma decode_params:
  assumes "make_graph (encode_params info p) = Inr g" "p_zc p > 0 \<or> p_info_bits p > 0"
  obtains g' where "make_graph p = Inr g'" "N_of g' = N_of g" "K_of g' = K_of g" "build_H g' = build_H g"
    "M_of g' = M_of g"
proof (cases "p_zc p > 0")
  case True
  then show thesis using that encode_params_fixed [OF assms(1)] by metis
next
  case False
  with assms show thesis by (intro that [of g]) (auto simp: encode_params_def)
qed

text \<open>Round trip of the channel code without noise: for every information vector the encoder
  accepts, decoding the soft values of its codeword (any positive magnitude, any number of
  iterations) gives the information bits followed by the filler zeros.\<close>

theorem ldpc_encode_decode:
  assumes "ldpc_encode info p = Inr cw" "p_zc p > 0 \<or> p_info_bits p > 0" "0 < m"
  shows "\<exists>g llr. make_graph p = Inr g \<and> bits_to_llr cw m = Inr llr \<and>
    ldpc_decode llr p = Inr (info @ replicate (K_of g - length info) 0)"
proof -
  from assms(1) obtain g where g: "make_graph (encode_params info p) = Inr g" and ok: "bits_ok info"
    and len: "length info \<le> K_of g"
    and enc: "encode_ge (info @ replicate (K_of g - length info) 0) g = Inr cw" by (rule ldpc_encode_InrE)
  have "bits_ok (info @ replicate (K_of g - length info) 0)" using ok by simp
  note e = encode_ge_Inr [OF make_graph_ok [OF g] this enc]
  obtain g' where g': "make_graph p = Inr g'" "N_of g' = N_of g" "K_of g' = K_of g" "build_H g' = build_H g"
    "M_of g' = M_of g" by (rule decode_params [OF g assms(2)])
  let ?llr = "map (\<lambda>b. if b = 0 then m else - m) cw"
  have h: "llr_to_bits ?llr = cw" using llr_to_bits_of_bits [OF e(2) assms(3)] .
  have len': "length ?llr = N_of g'" using e(1) g' by simp
  have "ldpc_decode ?llr p = Inr (take (K_of g') cw)"
    using assms(2) e(4) g' ldpc_decode_hit [OF g'(1) len'] by (auto simp: h in_code_def)
  then show ?thesis using bits_to_llr_eq [OF e(2), of m] g'(1,3) e(3) by auto
qed

text \<open>The default arguments cannot be used: with \<open>LdpcParams{}\<close> the decoder, the syndrome check
  and \<open>ldpc_make_reference\<close> throw on every input, although the encoder accepts it.\<close>

theorem ldpc_defaults_throw:
  "ldpc_decode llr default_params = Inl (Error ''decode with zc==0 needs info_bits'') \<and>
   ldpc_syndrome_ok cw default_params = Inl (Error ''zc==0 requires info_bits for lifting selection'') \<and>
   (\<nexists>r. ldpc_make_reference info default_params = Inr r)"
proof -
  have "p_zc default_params = 0" "p_info_bits default_params = -1" by (simp_all add: default_params_def)
  then have "make_graph default_params = Inl (Error ''zc==0 requires info_bits for lifting selection'')"
    by (simp add: make_graph_def graph_lifting_def Let_def split: prod.splits)
  then show ?thesis
    by (simp add: ldpc_decode_def ldpc_syndrome_ok_def ldpc_make_reference_def ldpc_graph_info_def and_then_Inr_iff
        default_params_def)
qed

section \<open>Witnesses\<close>

theorem ldpc_encode_decode_witness:
  "\<exists>cw llr. ldpc_encode (replicate 20 1) test_params = Inr cw \<and> bits_to_llr cw 5 = Inr llr \<and>
     ldpc_decode llr test_params = Inr (replicate 20 1)"
proof -
  let ?i = "replicate 20 1 :: bitvec"
  obtain g cw where g: "make_graph (encode_params ?i test_params) = Inr g" "K_of g = 20"
    and cw: "ldpc_encode ?i test_params = Inr cw"
    by (rule test_graph [of ?i]) simp_all
  obtain g' where g': "make_graph test_params = Inr g'" "K_of g' = 20"
    using encode_params_fixed [OF g(1)] g(2) by auto
  with cw ldpc_encode_decode [OF cw, of 5] show ?thesis by auto
qed

lemma test_params_graph: "\<exists>g. make_graph test_params = Inr g \<and> N_of g = 28 \<and> K_of g = 20"
proof -
  obtain g cw where "make_graph (encode_params (replicate 20 0) test_params) = Inr g" "N_of g = 28" "K_of g = 20"
    by (rule test_graph [of "replicate 20 0"]) simp_all
  then show ?thesis using encode_params_fixed [of "replicate 20 0" test_params g] by auto
qed

theorem ldpc_decode_first_codeword_witness:
  "\<exists>bits n. ldpc_decode (replicate 28 1) test_params = Inr bits \<and> length bits = 20 \<and> n \<le> nat (p_max_iter test_params)"
proof -
  obtain g where g: "make_graph test_params = Inr g" "N_of g = 28" "K_of g = 20" using test_params_graph by blast
  have "length (take 20 (decision g (replicate 28 1) n)) = 20" for n
    using g(2) by (simp add: decision_def)
  with ldpc_decode_first_codeword [OF g(1), of "replicate 28 1"] g show ?thesis by fastforce
qed

theorem ldpc_decode_codeword_witness: "ldpc_decode (replicate 28 3) test_params = Inr (replicate 20 0)"
proof -
  obtain g where g: "make_graph test_params = Inr g" "N_of g = 28" "K_of g = 20" using test_params_graph by blast
  have z: "llr_to_bits (replicate 28 3) = replicate 28 0" by (simp add: llr_to_bits_def)
  have "in_code g (\<lambda>c. replicate 28 0 ! c)"
    using in_code_zero [of g] g(2) dot_cong [of 28 _ _ "\<lambda>c. replicate 28 0 ! c" "\<lambda>c. 0"]
    by (auto simp: in_code_def)
  then have "ldpc_syndrome_ok (llr_to_bits (replicate 28 3)) test_params = Inr True"
    using syndrome_of_code [OF g(1), of "replicate 28 0"] g(2) z by simp
  with ldpc_decode_codeword [OF g(1), of "replicate 28 3"] g z show ?thesis by simp
qed

end
