(* ===== verification/Erasures.thy ===== *)
theory Erasures
  imports LdpcDecode
begin

text \<open>
  What the min-sum decoder of theory \<open>LdpcDecode\<close> does with erasures, soft values that are 0: punctured
  positions and positions that no transmission covered. As long as the other values have the sign
  of a codeword, every message has that sign or is 0, and the positions the decoder resolves are the ones that
  peeling resolves (a check with a single unresolved variable determines it). When
  peeling resolves everything, decoding returns the codeword, also when it stops early.
\<close>

section \<open>Peeling\<close>

definition check_vars :: "sparse_edge list \<Rightarrow> nat \<Rightarrow> nat list" where
  "check_vars edges c = map (\<lambda>ei. s_var (edges ! ei)) (chk_edges edges c)"

text \<open>\<open>peel g known n v\<close>: variable \<open>v\<close> is resolved after \<open>n\<close> rounds.\<close>

fun peel :: "graph \<Rightarrow> (nat \<Rightarrow> bool) \<Rightarrow> nat \<Rightarrow> nat \<Rightarrow> bool" where
  "peel g known 0 v = known v"
| "peel g known (Suc n) v =
     (peel g known n v \<or>
      list_ex (\<lambda>c. filter (\<lambda>u. \<not> peel g known n u) (check_vars (expand_edges g) c) = [v]) [0..<M_of g])"

text \<open>Every check has a second edge, so no minimum is taken over the empty set.\<close>

definition checks_paired :: "graph \<Rightarrow> bool" where
  "checks_paired g \<longleftrightarrow> list_all (\<lambda>c. length (chk_edges (expand_edges g) c) \<noteq> 1) [0..<M_of g]"

lemma peel_mono: "m \<le> n \<Longrightarrow> peel g known m v \<Longrightarrow> peel g known n v"
  by (induction n) (auto simp: le_Suc_eq)

section \<open>The updates of the messages\<close>

text \<open>A nested loop over groups of indices updates every index once.\<close>

lemma group_update:
  assumes "n \<le> N" "\<And>i. i < L \<Longrightarrow> key i < N" "length m = L"
  shows "length (foldl (\<lambda>m v. foldl (\<lambda>m i. m[i := h v i]) m (filter (\<lambda>i. key i = v) [0..<L])) m [0..<n]) = L \<and>
    (\<forall>i<L. foldl (\<lambda>m v. foldl (\<lambda>m i. m[i := h v i]) m (filter (\<lambda>i. key i = v) [0..<L])) m [0..<n] ! i =
       (if key i < n then h (key i) i else m ! i))"
  using assms(1)
proof (induction n)
  case (Suc n)
  have inner: "length (foldl (\<lambda>m i. m[i := f i]) m is) = length m \<and>
      (\<forall>i<length m. foldl (\<lambda>m i. m[i := f i]) m is ! i = (if i \<in> set is then f i else m ! i))" for f "is" and m :: "'a list"
    by (induction "is" arbitrary: m) (auto simp: nth_list_update)
  let ?m = "foldl (\<lambda>m v. foldl (\<lambda>m i. m[i := h v i]) m (filter (\<lambda>i. key i = v) [0..<L])) m [0..<n]"
  have m: "length ?m = L" "\<And>i. i < L \<Longrightarrow> ?m ! i = (if key i < n then h (key i) i else m ! i)" using Suc by simp_all
  show ?case using inner [of "h n" ?m "filter (\<lambda>i. key i = n) [0..<L]"] m by (auto simp: less_Suc_eq)
qed (use assms(3) in simp)

lemma v2c_nth:
  assumes "length v2c = length edges" "\<And>x. x \<in> set edges \<Longrightarrow> s_var x < N"
  shows "length (v2c_of edges N app c2v v2c) = length edges"
    and "i < length edges \<Longrightarrow> v2c_of edges N app c2v v2c ! i = d_sub (app ! s_var (edges ! i)) (c2v ! i)"
  using group_update [where n = N and N = N and L = "length edges" and key = "\<lambda>i. s_var (edges ! i)" and m = v2c
      and h = "\<lambda>v i. d_sub (app ! v) (c2v ! i)"] assms
  by (simp_all add: v2c_of_def var_edges_def)

lemma c2v_nth:
  assumes "length c2v = length edges" "\<And>x. x \<in> set edges \<Longrightarrow> s_check x < M"
  shows "length (c2v_of edges M v2c c2v) = length edges"
    and "i < length edges \<Longrightarrow> c2v_of edges M v2c c2v ! i = check_msg v2c (chk_edges edges (s_check (edges ! i))) i"
  using group_update [where n = M and N = M and L = "length edges" and key = "\<lambda>i. s_check (edges ! i)" and m = c2v
      and h = "\<lambda>c i. check_msg v2c (chk_edges edges c) i"] assms
  by (simp_all add: c2v_of_def chk_edges_def)

section \<open>Sound messages\<close>

definition sgn_bit :: "u8 \<Rightarrow> int" where
  "sgn_bit b = (if b = 0 then 1 else - 1)"

text \<open>A finite value whose sign is the one of bit \<open>b\<close>, or 0.\<close>

definition sound :: "u8 \<Rightarrow> dbl \<Rightarrow> bool" where
  "sound b x \<longleftrightarrow> (\<exists>w\<ge>0. x = Fin (w * of_int (sgn_bit b)))"

definition firm :: "u8 \<Rightarrow> dbl \<Rightarrow> bool" where
  "firm b x \<longleftrightarrow> (\<exists>w>0. x = Fin (w * of_int (sgn_bit b)))"

lemma sgn_bit_square [simp]: "sgn_bit b * sgn_bit b = 1"
  by (simp add: sgn_bit_def)

lemma sgn_bit_xor: "is_bit a \<Longrightarrow> is_bit b \<Longrightarrow> sgn_bit (a XOR b) = sgn_bit a * sgn_bit b"
  by (auto simp: is_bit_def sgn_bit_def)

lemma firm_sound: "firm b x \<Longrightarrow> sound b x"
  by (auto simp: firm_def sound_def intro: less_imp_le)

lemma sound_zero: "sound b (Fin 0)"
  by (auto simp: sound_def)

lemma firm_iff: "firm b x \<longleftrightarrow> sound b x \<and> x \<noteq> Fin 0"
  by (auto simp: firm_def sound_def sgn_bit_def order_le_less split: if_splits)

lemma sound_add: "sound b x \<Longrightarrow> sound b y \<Longrightarrow> sound b (d_add x y)"
  unfolding sound_def
  by (elim exE conjE, rule_tac x = "w + wa" in exI) (simp add: distrib_right)

lemma firm_add: "firm b x \<Longrightarrow> sound b y \<Longrightarrow> firm b (d_add x y)" "sound b x \<Longrightarrow> firm b y \<Longrightarrow> firm b (d_add x y)"
  unfolding sound_def firm_def
  by (elim exE conjE, rule_tac x = "w + wa" in exI, simp add: distrib_right)+

lemma hard_firm: "firm b x \<Longrightarrow> is_bit b \<Longrightarrow> (if d_ge0 x then 0 else 1) = b"
  by (auto simp: firm_def is_bit_def sgn_bit_def)

section \<open>One check\<close>

text \<open>The inner loop computes the least magnitude and the sign of the product of the other values.\<close>

lemma check_fold:
  assumes "\<And>j. j \<in> set els \<Longrightarrow> j \<noteq> ei \<Longrightarrow> v2c ! j = Fin (f j)"
  shows "foldl (check_step v2c ei) (PInf, 1) els =
    (let os = filter (\<lambda>j. j \<noteq> ei) els in
     (if os = [] then PInf else Fin (Min (set (map (\<lambda>j. \<bar>f j\<bar>) os))), prod_list (map (\<lambda>j. if f j < 0 then - 1 else 1) os)))"
  using assms
proof (induction els rule: rev_induct)
  case (snoc j els)
  let ?os = "filter (\<lambda>j. j \<noteq> ei) els"
  have IH: "foldl (check_step v2c ei) (PInf, 1) els =
      (if ?os = [] then PInf else Fin (Min (set (map (\<lambda>j. \<bar>f j\<bar>) ?os))), prod_list (map (\<lambda>j. if f j < 0 then - 1 else 1) ?os))"
    using snoc by (simp add: Let_def)
  show ?case
  proof (cases "j = ei")
    case True
    moreover have "check_step v2c ei st ei = st" for st by (cases st) (simp add: check_step_def)
    ultimately show ?thesis using IH by (simp add: Let_def)
  next
    case False
    then have v: "v2c ! j = Fin (f j)" using snoc.prems by simp
    have step: "check_step v2c ei (x, s) j = (if d_less (Fin \<bar>f j\<bar>) x then Fin \<bar>f j\<bar> else x, if f j < 0 then - s else s)" for x s
      using False by (simp add: check_step_def v Let_def)
    have snoc_min: "Min (set (map g (js @ [j]))) = min (g j) (Min (set (map g js)))" if "js \<noteq> []" for g :: "nat \<Rightarrow> real" and js
      using that by simp
    have "(if d_less (Fin \<bar>f j\<bar>) (if ?os = [] then PInf else Fin (Min (set (map (\<lambda>j. \<bar>f j\<bar>) ?os)))) then Fin \<bar>f j\<bar>
        else if ?os = [] then PInf else Fin (Min (set (map (\<lambda>j. \<bar>f j\<bar>) ?os)))) = Fin (Min (set (map (\<lambda>j. \<bar>f j\<bar>) (?os @ [j]))))"
    proof (cases "?os = []")
      case False
      define q where "q = Min (set (map (\<lambda>j. \<bar>f j\<bar>) ?os))"
      show ?thesis using False unfolding snoc_min [OF False] q_def [symmetric] by (simp add: min_def)
    qed simp
    then show ?thesis using False by (simp add: IH step Let_def del: set_map)
  qed
qed simp

text \<open>The message to edge \<open>ei\<close> when the bits \<open>b\<close> of the check have even parity: up to the sign of its bit
  it is \<open>\<plusminus> 3 / 4\<close> of the least magnitude, with a plus if all other values have the sign of their bit.\<close>

lemma check_value:
  assumes els: "distinct els" "ei \<in> set els" "length els \<noteq> 1" and f: "\<And>j. j \<in> set els \<Longrightarrow> j \<noteq> ei \<Longrightarrow> v2c ! j = Fin (f j)"
    and parity: "prod_list (map (\<lambda>j. sgn_bit (b j)) els) = 1"
  shows "\<exists>r t. check_msg v2c els ei = Fin (3 / 4 * (r * of_int t) * of_int (sgn_bit (b ei))) \<and> (t = 1 \<or> t = - 1) \<and>
    (\<forall>j\<in>set els - {ei}. r \<le> \<bar>f j\<bar>) \<and> (\<exists>j\<in>set els - {ei}. r = \<bar>f j\<bar>) \<and>
    ((\<forall>j\<in>set els - {ei}. 0 < f j * of_int (sgn_bit (b j))) \<longrightarrow> t = 1)"
proof -
  let ?os = "filter (\<lambda>j. j \<noteq> ei) els" and ?s = "\<lambda>j. if f j < 0 then - 1 else 1 :: int"
  have set_os: "set ?os = set els - {ei}" by auto
  from els(2) obtain us vs where s: "els = us @ ei # vs" by (auto dest: split_list)
  with els(1) have "ei \<notin> set us" "ei \<notin> set vs" by auto
  then have "filter (\<lambda>j. j \<noteq> ei) us = us" "filter (\<lambda>j. j \<noteq> ei) vs = vs" by (auto intro: filter_True)
  then have os: "?os = us @ vs" unfolding s by simp
  then have ne: "?os \<noteq> []" using els(3) s by auto
  have "sgn_bit (b ei) * prod_list (map (\<lambda>j. sgn_bit (b j)) ?os) = 1" using parity unfolding os by (simp add: s ac_simps)
  then have b: "prod_list (map (\<lambda>j. sgn_bit (b j)) ?os) = sgn_bit (b ei)" by (auto simp: sgn_bit_def split: if_splits)
  define r where "r = Min (set (map (\<lambda>j. \<bar>f j\<bar>) ?os))"
  define t where "t = prod_list (map ?s ?os) * sgn_bit (b ei)"
  have "check_msg v2c els ei = Fin (3 / 4 * (of_int (prod_list (map ?s ?os)) * r))"
    using ne by (simp add: check_msg_def check_fold [OF f] Let_def r_def)
  also have "of_int (prod_list (map ?s ?os)) * r = r * of_int t * of_int (sgn_bit (b ei))"
    by (simp add: t_def flip: of_int_mult)
  finally have msg: "check_msg v2c els ei = Fin (3 / 4 * (r * of_int t) * of_int (sgn_bit (b ei)))" by simp
  have sq: "prod_list (map ?s js) = 1 \<or> prod_list (map ?s js) = - 1" for js by (induction js) auto
  then have t: "t = 1 \<or> t = - 1" using sq [of ?os] by (auto simp: t_def sgn_bit_def)
  have "t = 1" if pos: "\<forall>j\<in>set ?os. 0 < f j * of_int (sgn_bit (b j))"
  proof -
    have "map ?s ?os = map (\<lambda>j. sgn_bit (b j)) ?os"
      by (rule map_cong [OF refl]) (use pos in \<open>force simp: sgn_bit_def zero_less_mult_iff split: if_splits\<close>)
    then have "t = sgn_bit (b ei) * sgn_bit (b ei)" unfolding t_def b [symmetric] by (simp only:)
    then show ?thesis by simp
  qed
  moreover have "r \<le> \<bar>f j\<bar>" if "j \<in> set ?os" for j using that by (simp add: r_def)
  moreover have "r \<in> set (map (\<lambda>j. \<bar>f j\<bar>) ?os)" unfolding r_def using ne by (intro Min_in) (simp_all del: set_filter)
  then have "\<exists>j\<in>set ?os. r = \<bar>f j\<bar>" by auto
  ultimately show ?thesis using msg t unfolding set_os by blast
qed

text \<open>Sound values give a sound message, firm values a firm one.\<close>

lemma check_msg_sound:
  assumes els: "distinct els" "ei \<in> set els" "length els \<noteq> 1"
    and sound: "\<And>j. j \<in> set els \<Longrightarrow> j \<noteq> ei \<Longrightarrow> sound (b j) (v2c ! j)"
    and parity: "prod_list (map (\<lambda>j. sgn_bit (b j)) els) = 1"
  shows "sound (b ei) (check_msg v2c els ei)"
    and "(\<And>j. j \<in> set els \<Longrightarrow> j \<noteq> ei \<Longrightarrow> firm (b j) (v2c ! j)) \<Longrightarrow> firm (b ei) (check_msg v2c els ei)"
proof -
  have "\<exists>w. 0 \<le> w \<and> v2c ! j = Fin (w * of_int (sgn_bit (b j)))" if "j \<in> set els - {ei}" for j
    using that sound by (auto simp: sound_def)
  then obtain w where w: "\<And>j. j \<in> set els - {ei} \<Longrightarrow> 0 \<le> w j \<and> v2c ! j = Fin (w j * of_int (sgn_bit (b j)))" by metis
  let ?f = "\<lambda>j. w j * of_int (sgn_bit (b j))"
  have abs: "\<bar>?f j\<bar> = \<bar>w j\<bar>" "?f j * of_int (sgn_bit (b j)) = w j" for j by (simp_all add: sgn_bit_def)
  from check_value [OF els, of v2c ?f b] w parity obtain r t where
    msg: "check_msg v2c els ei = Fin (3 / 4 * (r * of_int t) * of_int (sgn_bit (b ei)))" and t: "t = 1 \<or> t = - 1"
    and r: "\<And>j. j \<in> set els - {ei} \<Longrightarrow> r \<le> w j" "\<exists>j\<in>set els - {ei}. r = w j"
    and pos: "(\<forall>j\<in>set els - {ei}. 0 < w j) \<longrightarrow> t = 1"
    unfolding abs by (auto split: if_splits)
  have r0: "0 \<le> r" using r(2) w by auto
  have "t = 1 \<or> r = 0"
  proof (rule ccontr)
    assume "\<not> ?thesis"
    with pos w obtain j where "j \<in> set els - {ei}" "w j = 0" by (metis order_le_less)
    with r(1) [of j] r0 \<open>\<not> ?thesis\<close> show False by simp
  qed
  then have val: "check_msg v2c els ei = Fin (3 / 4 * r * of_int (sgn_bit (b ei)))" unfolding msg by auto
  then show "sound (b ei) (check_msg v2c els ei)" using r0 unfolding sound_def by (intro exI [of _ "3 / 4 * r"]) simp
  assume firm: "\<And>j. j \<in> set els \<Longrightarrow> j \<noteq> ei \<Longrightarrow> firm (b j) (v2c ! j)"
  obtain j where j: "j \<in> set els - {ei}" "r = w j" using r(2) by blast
  then have "firm (b j) (Fin (?f j))" using firm [of j] w [OF j(1)] by simp
  then have "0 < r" using w [OF j(1)] by (auto simp: j(2) firm_def sgn_bit_def order_le_less split: if_splits)
  then show "firm (b ei) (check_msg v2c els ei)" using val unfolding firm_def by (intro exI [of _ "3 / 4 * r"]) simp
qed

section \<open>One variable\<close>

lemma app_signed:
  assumes v: "v < N" and ch: "channel ! v = Fin (a * t)"
    and c2v: "\<And>i. i \<in> set (var_edges edges v) \<Longrightarrow> c2v ! i = Fin (wt i * t)"
  shows "app_of edges N channel c2v ! v = Fin ((a + (\<Sum>i\<leftarrow>var_edges edges v. wt i)) * t)"
proof -
  have "map ((!) c2v) (var_edges edges v) = map (\<lambda>i. Fin (wt i * t)) (var_edges edges v)" using c2v by simp
  then have "(\<Sum>i\<leftarrow>var_edges edges v. c2v ! i) = Fin ((\<Sum>i\<leftarrow>var_edges edges v. wt i) * t)"
    by (simp only: sum_list_Fin sum_list_mult_const)
  then show ?thesis by (simp add: app_of_sum [OF v] ch plus_dbl_def distrib_right)
qed

text \<open>The sum at a variable and the sum without one edge.\<close>

lemma app_sound:
  assumes v: "v < N" and ch: "sound b (channel ! v)" and c2v: "\<forall>i\<in>set (var_edges edges v). sound b (c2v ! i)"
  defines "app \<equiv> app_of edges N channel c2v"
  shows "sound b (app ! v)"
    and "firm b (channel ! v) \<or> (\<exists>i\<in>set (var_edges edges v). firm b (c2v ! i)) \<Longrightarrow> firm b (app ! v)"
    and "j \<in> set (var_edges edges v) \<Longrightarrow> sound b (d_sub (app ! v) (c2v ! j))"
    and "j \<in> set (var_edges edges v) \<Longrightarrow> firm b (channel ! v) \<or> (\<exists>i\<in>set (var_edges edges v). i \<noteq> j \<and> firm b (c2v ! i)) \<Longrightarrow>
      firm b (d_sub (app ! v) (c2v ! j))"
proof -
  let ?s = "of_int (sgn_bit b) :: real" and ?is = "var_edges edges v"
  obtain a where a: "0 \<le> a" "channel ! v = Fin (a * ?s)" using ch by (auto simp: sound_def)
  have "\<forall>i\<in>set ?is. \<exists>w. 0 \<le> w \<and> c2v ! i = Fin (w * ?s)" using c2v by (auto simp: sound_def)
  then obtain wt where wt: "\<And>i. i \<in> set ?is \<Longrightarrow> 0 \<le> wt i \<and> c2v ! i = Fin (wt i * ?s)" by metis
  have d: "distinct ?is" by (simp add: var_edges_def)
  have s: "?s \<noteq> 0" by (simp add: sgn_bit_def)
  have app: "app ! v = Fin ((a + (\<Sum>i\<in>set ?is. wt i)) * ?s)"
    using app_signed [OF v a(2), of edges c2v wt] wt by (simp add: app_def sum_list_distinct_conv_sum_set [OF d])
  have sum: "0 \<le> (\<Sum>i\<in>A. wt i)" if "A \<subseteq> set ?is" for A using that wt by (intro sum_nonneg) blast
  have pos: "0 < (\<Sum>i\<in>A. wt i)" if "A \<subseteq> set ?is" "i \<in> A" "firm b (c2v ! i)" for A i
  proof -
    have "wt i \<noteq> 0" using that wt s by (auto simp: firm_def)
    then have "0 < wt i" using that wt by (metis order_le_less subsetD)
    then show ?thesis using that wt by (intro sum_pos2 [of A i]) (auto intro: finite_subset)
  qed
  have cpos: "0 < a" if "firm b (channel ! v)" using that a s by (auto simp: firm_def)
  show "sound b (app ! v)" using app a(1) sum [OF order_refl] unfolding sound_def by (intro exI [of _ "a + (\<Sum>i\<in>set ?is. wt i)"]) simp
  show "firm b (app ! v)" if "firm b (channel ! v) \<or> (\<exists>i\<in>set ?is. firm b (c2v ! i))"
    using that app a(1) sum [OF order_refl] cpos pos [OF order_refl] unfolding firm_def
    by (intro exI [of _ "a + (\<Sum>i\<in>set ?is. wt i)"]) (auto intro: add_pos_nonneg add_nonneg_pos)
  assume j: "j \<in> set ?is"
  have "(\<Sum>i\<in>set ?is. wt i) = wt j + (\<Sum>i\<in>set ?is - {j}. wt i)" using j by (intro sum.remove) simp_all
  then have sub: "d_sub (app ! v) (c2v ! j) = Fin ((a + (\<Sum>i\<in>set ?is - {j}. wt i)) * ?s)"
    using wt [OF j] by (simp add: app d_sub_def algebra_simps)
  have sub0: "0 \<le> (\<Sum>i\<in>set ?is - {j}. wt i)" by (rule sum) blast
  show "sound b (d_sub (app ! v) (c2v ! j))"
    using a(1) sub0 unfolding sub sound_def by (intro exI [of _ "a + (\<Sum>i\<in>set ?is - {j}. wt i)"]) simp
  show "firm b (d_sub (app ! v) (c2v ! j))" if "firm b (channel ! v) \<or> (\<exists>i\<in>set ?is. i \<noteq> j \<and> firm b (c2v ! i))"
    using that a(1) sub0 cpos pos [of "set ?is - {j}"] unfolding sub firm_def
    by (intro exI [of _ "a + (\<Sum>i\<in>set ?is - {j}. wt i)"]) (auto intro: add_pos_nonneg add_nonneg_pos)
qed

section \<open>The invariant of the iterations\<close>

lemma filter_single:
  assumes "filter P (map f is) = [y]" "i \<in> set is" "f i = y"
  shows "P y" "j \<in> set is \<Longrightarrow> j \<noteq> i \<Longrightarrow> \<not> P (f j)"
proof -
  have "y \<in> set (filter P (map f is))" unfolding assms(1) by simp
  then show y: "P y" by simp
  assume j: "j \<in> set is" "j \<noteq> i"
  have len: "length (filter (P \<circ> f) is) = 1" using arg_cong [OF assms(1), of length] by (simp add: filter_map)
  show "\<not> P (f j)"
  proof
    assume "P (f j)"
    then have "{i, j} \<subseteq> set (filter (P \<circ> f) is)" using y assms(2,3) j(1) by auto
    then have "card {i, j} \<le> card (set (filter (P \<circ> f) is))" by (intro card_mono) simp_all
    also have "\<dots> \<le> 1" using card_length [of "filter (P \<circ> f) is"] len by linarith
    finally show False using j(2) by simp
  qed
qed

lemma prod_sgn: "(\<And>i. i \<in> set is \<Longrightarrow> is_bit (f i)) \<Longrightarrow> prod_list (map (\<lambda>i. sgn_bit (f i)) is) = sgn_bit (xlist f is)"
proof (induction "is")
  case (Cons i "is")
  have "is_bit (xlist f is)" using Cons.prems by (induction "is") (auto intro: is_bit_xor)
  with Cons show ?case by (simp add: sgn_bit_xor)
qed (simp add: sgn_bit_def)

text \<open>Check \<open>c\<close> resolves \<open>v\<close> in round \<open>m + 1\<close>.\<close>

definition resolves :: "graph \<Rightarrow> (nat \<Rightarrow> bool) \<Rightarrow> nat \<Rightarrow> nat \<Rightarrow> nat \<Rightarrow> bool" where
  "resolves g known m c v \<longleftrightarrow> filter (\<lambda>u. \<not> peel g known m u) (check_vars (expand_edges g) c) = [v]"

lemma peel_resolves:
  assumes "peel g known n v" "\<not> known v"
  shows "\<exists>m<n. \<exists>c<M_of g. resolves g known m c v"
  using assms(1)
proof (induction n)
  case (Suc n)
  show ?case
  proof (cases "peel g known n v")
    case True
    then show ?thesis using Suc.IH less_SucI by blast
  next
    case False
    then obtain c where "c < M_of g" "resolves g known n c v" using Suc.prems by (auto simp: resolves_def list_ex_iff)
    then show ?thesis by blast
  qed
qed (use assms(2) in simp)

lemma resolves_edge:
  assumes "resolves g known m c v"
  obtains i where "i \<in> set (chk_edges (expand_edges g) c)" "s_var (expand_edges g ! i) = v"
    "\<And>j. j \<in> set (chk_edges (expand_edges g) c) \<Longrightarrow> j \<noteq> i \<Longrightarrow> peel g known m (s_var (expand_edges g ! j))"
    "\<not> peel g known m v"
proof -
  let ?P = "\<lambda>u. \<not> peel g known m u" and ?f = "\<lambda>ei. s_var (expand_edges g ! ei)" and ?is = "chk_edges (expand_edges g) c"
  have f: "filter ?P (map ?f ?is) = [v]" using assms by (simp add: resolves_def check_vars_def)
  then have "v \<in> set (filter ?P (map ?f ?is))" by simp
  then obtain i where i: "i \<in> set ?is" "?f i = v" by auto
  from filter_single [OF f i] i that show thesis by blast
qed

lemma chk_edges_iff: "i \<in> set (chk_edges edges c) \<longleftrightarrow> i < length edges \<and> s_check (edges ! i) = c"
  by (auto simp: chk_edges_def)

lemma var_edges_iff: "i \<in> set (var_edges edges v) \<longleftrightarrow> i < length edges \<and> s_var (edges ! i) = v"
  by (auto simp: var_edges_def)

text \<open>After \<open>n\<close> iterations: every message from a check is sound, and firm on the edges whose check
  resolves their variable within \<open>n\<close> rounds.\<close>

definition messages_ok :: "graph \<Rightarrow> bitvec \<Rightarrow> (nat \<Rightarrow> bool) \<Rightarrow> nat \<Rightarrow> dbl list \<times> dbl list \<Rightarrow> bool" where
  "messages_ok g x known n st \<longleftrightarrow>
     length (fst st) = length (expand_edges g) \<and> length (snd st) = length (expand_edges g) \<and>
     (\<forall>i<length (expand_edges g). sound (x ! s_var (expand_edges g ! i)) (fst st ! i) \<and>
       ((\<exists>m<n. resolves g known m (s_check (expand_edges g ! i)) (s_var (expand_edges g ! i)) \<and>
          (\<forall>j\<in>set (chk_edges (expand_edges g) (s_check (expand_edges g ! i))). j \<noteq> i \<longrightarrow> peel g known m (s_var (expand_edges g ! j)))) \<longrightarrow>
         firm (x ! s_var (expand_edges g ! i)) (fst st ! i)))"

text \<open>A received word that knows some bits of the codeword \<open>x\<close> and no wrong ones.\<close>

definition agrees :: "graph \<Rightarrow> bitvec \<Rightarrow> softvec \<Rightarrow> bool" where
  "agrees g x llr \<longleftrightarrow> graph_ok g \<and> checks_paired g \<and> length llr = N_of g \<and> bits_ok x \<and> length x = N_of g \<and>
     in_code g (\<lambda>c. x ! c) \<and> (\<forall>v<N_of g. llr ! v = 0 \<or> (0 < llr ! v \<longleftrightarrow> x ! v = 0))"

lemma agreesD:
  assumes "agrees g x llr"
  shows "graph_ok g" "checks_paired g" "length llr = N_of g" "bits_ok x" "length x = N_of g" "in_code g (\<lambda>c. x ! c)"
    and "v < N_of g \<Longrightarrow> sound (x ! v) (Fin (llr ! v))" "v < N_of g \<Longrightarrow> llr ! v \<noteq> 0 \<Longrightarrow> firm (x ! v) (Fin (llr ! v))"
proof -
  show "graph_ok g" "checks_paired g" "length llr = N_of g" "bits_ok x" "length x = N_of g" "in_code g (\<lambda>c. x ! c)"
    using assms by (simp_all add: agrees_def)
  assume v: "v < N_of g"
  then have "llr ! v = 0 \<or> (0 < llr ! v \<longleftrightarrow> x ! v = 0)" using assms by (simp add: agrees_def)
  then have "Fin (llr ! v) = Fin (\<bar>llr ! v\<bar> * of_int (sgn_bit (x ! v)))" by (auto simp: sgn_bit_def)
  then show "sound (x ! v) (Fin (llr ! v))" unfolding sound_def by (intro exI [of _ "\<bar>llr ! v\<bar>"]) simp
  then show "firm (x ! v) (Fin (llr ! v))" if "llr ! v \<noteq> 0" using that by (simp add: firm_iff)
qed

lemma edge_bounds:
  assumes g: "graph_ok g"
  shows "i < length (expand_edges g) \<Longrightarrow> s_var (expand_edges g ! i) < N_of g"
    and "i < length (expand_edges g) \<Longrightarrow> s_check (expand_edges g ! i) < M_of g"
  using expand_edges_bounds [OF g] by simp_all

lemma parity:
  assumes g: "graph_ok g" and x: "bits_ok x" "length x = N_of g" "in_code g (\<lambda>c. x ! c)" and c: "c < M_of g"
  shows "prod_list (map (\<lambda>j. sgn_bit (x ! s_var (expand_edges g ! j))) (chk_edges (expand_edges g) c)) = 1"
proof -
  have "syndrome (expand_edges g) (M_of g) x" using x(3) by (simp add: syndrome_in_code [OF g])
  then have "foldl (\<lambda>s ei. s XOR x ! s_var (expand_edges g ! ei)) 0 (chk_edges (expand_edges g) c) = 0"
    using c by (simp add: syndrome_def list_all_iff)
  then have "xlist (\<lambda>j. x ! s_var (expand_edges g ! j)) (chk_edges (expand_edges g) c) = 0" by (simp add: foldl_xor)
  moreover have "is_bit (x ! s_var (expand_edges g ! j))" if "j \<in> set (chk_edges (expand_edges g) c)" for j
    using that edge_bounds [OF g] x(1,2) by (intro bits_ok_nth) (simp_all add: chk_edges_iff)
  ultimately show ?thesis by (subst prod_sgn) (simp_all add: sgn_bit_def)
qed

lemma app_ok:
  assumes ag: "agrees g x llr" and ok: "messages_ok g x (\<lambda>v. llr ! v \<noteq> 0) n st" and v: "v < N_of g"
  defines "app \<equiv> app_of (expand_edges g) (N_of g) (map Fin llr) (fst st)"
  shows "sound (x ! v) (app ! v)" "peel g (\<lambda>v. llr ! v \<noteq> 0) n v \<Longrightarrow> firm (x ! v) (app ! v)"
    and "j < length (expand_edges g) \<Longrightarrow> s_var (expand_edges g ! j) = v \<Longrightarrow> sound (x ! v) (d_sub (app ! v) (fst st ! j))"
    and "j < length (expand_edges g) \<Longrightarrow> s_var (expand_edges g ! j) = v \<Longrightarrow> peel g (\<lambda>v. llr ! v \<noteq> 0) m v \<Longrightarrow> m \<le> n \<Longrightarrow>
      u \<in> set (check_vars (expand_edges g) (s_check (expand_edges g ! j))) \<Longrightarrow> \<not> peel g (\<lambda>v. llr ! v \<noteq> 0) m u \<Longrightarrow>
      firm (x ! v) (d_sub (app ! v) (fst st ! j))"
proof -
  let ?E = "expand_edges g" and ?k = "\<lambda>v. llr ! v \<noteq> 0"
  have ch: "sound (x ! v) (map Fin llr ! v)" "?k v \<Longrightarrow> firm (x ! v) (map Fin llr ! v)"
    using agreesD(3,7,8) [OF ag] v by simp_all
  have snd: "\<forall>i\<in>set (var_edges ?E v). sound (x ! v) (fst st ! i)"
    using ok by (auto simp: messages_ok_def var_edges_iff)
  have edge: "?k v \<or> (\<exists>i\<in>set (var_edges ?E v). \<exists>m'<m. firm (x ! v) (fst st ! i) \<and> resolves g ?k m' (s_check (?E ! i)) v)"
    if r: "peel g ?k m v" "m \<le> n" for m
  proof (cases "?k v")
    case False
    with peel_resolves [OF r(1)] obtain m' c where m': "m' < m" "resolves g ?k m' c v" by blast
    from m'(2) obtain i where i: "i \<in> set (chk_edges ?E c)" "s_var (?E ! i) = v"
      "\<And>j. j \<in> set (chk_edges ?E c) \<Longrightarrow> j \<noteq> i \<Longrightarrow> peel g ?k m' (s_var (?E ! j))" by (rule resolves_edge) blast
    have "m' < n" using m' r(2) by simp
    have iE: "i < length ?E" "s_check (?E ! i) = c" using i(1) by (simp_all add: chk_edges_iff)
    have "\<exists>m<n. resolves g ?k m (s_check (?E ! i)) (s_var (?E ! i)) \<and>
        (\<forall>j\<in>set (chk_edges ?E (s_check (?E ! i))). j \<noteq> i \<longrightarrow> peel g ?k m (s_var (?E ! j)))"
      using \<open>m' < n\<close> m'(2) i(3) unfolding iE(2) i(2) by blast
    with ok iE(1) have "firm (x ! s_var (?E ! i)) (fst st ! i)" unfolding messages_ok_def by blast
    then have "firm (x ! v) (fst st ! i)" unfolding i(2) .
    moreover have "i \<in> set (var_edges ?E v)" "s_check (?E ! i) = c" using i(2) iE by (simp_all add: var_edges_iff)
    ultimately show ?thesis using m' by blast
  qed simp
  note app = app_sound [OF v ch(1) snd, folded app_def]
  show "sound (x ! v) (app ! v)" by (rule app(1))
  show "firm (x ! v) (app ! v)" if "peel g ?k n v" using edge [OF that order_refl] app(2) ch(2) by blast
  assume j: "j < length ?E" "s_var (?E ! j) = v"
  then show "sound (x ! v) (d_sub (app ! v) (fst st ! j))" by (intro app(3)) (simp add: var_edges_iff)
  assume r: "peel g ?k m v" "m \<le> n" and u: "u \<in> set (check_vars ?E (s_check (?E ! j)))" "\<not> peel g ?k m u"
  have other: "i \<noteq> j" if i: "i \<in> set (var_edges ?E v)" "m' < m" "resolves g ?k m' (s_check (?E ! i)) v" for i m'
  proof
    assume "i = j"
    moreover have "\<not> peel g ?k m' u" using peel_mono u(2) i(2) less_imp_le by blast
    ultimately have "u \<in> set (filter (\<lambda>u. \<not> peel g ?k m' u) (check_vars ?E (s_check (?E ! i))))" using u(1) by simp
    then have "u \<in> set [v]" by (simp only: i(3) [unfolded resolves_def])
    then have "u = v" by simp
    then show False using r(1) u(2) by simp
  qed
  have "firm (x ! v) (map Fin llr ! v) \<or> (\<exists>i\<in>set (var_edges ?E v). i \<noteq> j \<and> firm (x ! v) (fst st ! i))"
    using edge [OF r] other ch(2) by blast
  then show "firm (x ! v) (d_sub (app ! v) (fst st ! j))" using j by (intro app(4)) (simp_all add: var_edges_iff)
qed

lemma messages_step:
  assumes ag: "agrees g x llr" and ok: "messages_ok g x (\<lambda>v. llr ! v \<noteq> 0) n (iterate g (map Fin llr) n)"
  shows "messages_ok g x (\<lambda>v. llr ! v \<noteq> 0) (Suc n) (iterate g (map Fin llr) (Suc n))"
proof -
  let ?E = "expand_edges g" and ?k = "\<lambda>v. llr ! v \<noteq> 0"
  note g = agreesD(1) [OF ag] and paired = agreesD(2) [OF ag]
  note edge_bounds = edge_bounds [OF g]
  obtain c2v v2c where st: "iterate g (map Fin llr) n = (c2v, v2c)" by fastforce
  define app where "app = app_of ?E (N_of g) (map Fin llr) c2v"
  define w where "w = v2c_of ?E (N_of g) app c2v v2c"
  have L: "length c2v = length ?E" "length v2c = length ?E" using ok by (simp_all add: messages_ok_def st)
  have next_st: "iterate g (map Fin llr) (Suc n) = (c2v_of ?E (M_of g) w c2v, w)" by (simp add: st w_def app_def Let_def)
  have w: "length w = length ?E" "\<And>j. j < length ?E \<Longrightarrow> w ! j = d_sub (app ! s_var (?E ! j)) (c2v ! j)"
    using v2c_nth [OF L(2) expand_edges_bounds(2) [OF g], where app = app and c2v = c2v] by (simp_all add: w_def)
  have bound: "s_check e < M_of g" if "e \<in> set ?E" for e by (rule expand_edges_bounds(1) [OF g that])
  note c2v' = c2v_nth [OF L(1) bound, where v2c = w]
  note ok' = app_ok [OF ag ok, unfolded st fst_conv, folded app_def]
  have msg: "sound (x ! s_var (?E ! i)) (c2v_of ?E (M_of g) w c2v ! i) \<and>
      (\<forall>m<Suc n. resolves g ?k m (s_check (?E ! i)) (s_var (?E ! i)) \<and>
        (\<forall>j\<in>set (chk_edges ?E (s_check (?E ! i))). j \<noteq> i \<longrightarrow> peel g ?k m (s_var (?E ! j))) \<longrightarrow>
        firm (x ! s_var (?E ! i)) (c2v_of ?E (M_of g) w c2v ! i))" if i: "i < length ?E" for i
  proof -
    let ?c = "s_check (?E ! i)"
    have c: "?c < M_of g" by (rule edge_bounds(2) [OF i])
    have els: "distinct (chk_edges ?E ?c)" "i \<in> set (chk_edges ?E ?c)" "length (chk_edges ?E ?c) \<noteq> 1"
      using i paired c by (simp_all add: chk_edges_def checks_paired_def list_all_iff)
    have ws: "sound (x ! s_var (?E ! j)) (w ! j)" if "j \<in> set (chk_edges ?E ?c)" for j
      using that ok'(3) [OF edge_bounds(1), of j j] w(2) by (simp add: chk_edges_iff)
    note cm = check_msg_sound [OF els, of "\<lambda>j. x ! s_var (?E ! j)" w, OF ws parity [OF g agreesD(4-6) [OF ag] c]]
    have "firm (x ! s_var (?E ! i)) (check_msg w (chk_edges ?E ?c) i)"
      if m: "m < Suc n" "resolves g ?k m ?c (s_var (?E ! i))"
        "\<forall>j\<in>set (chk_edges ?E ?c). j \<noteq> i \<longrightarrow> peel g ?k m (s_var (?E ! j))" for m
    proof (rule cm(2))
      fix j assume j: "j \<in> set (chk_edges ?E ?c)" "j \<noteq> i"
      have "s_var (?E ! i) \<in> set (filter (\<lambda>u. \<not> peel g ?k m u) (check_vars ?E ?c))"
        by (simp only: m(2) [unfolded resolves_def]) simp
      then have "s_var (?E ! i) \<in> set (check_vars ?E ?c)" "\<not> peel g ?k m (s_var (?E ! i))" by simp_all
      then show "firm (x ! s_var (?E ! j)) (w ! j)"
        using j m(1,3) ok'(4) [OF edge_bounds(1), of j j m "s_var (?E ! i)"] w(2) by (simp add: chk_edges_iff)
    qed
    then show ?thesis using cm(1) c2v'(2) i by simp
  qed
  then show ?thesis unfolding messages_ok_def next_st fst_conv snd_conv using c2v'(1) w(1) by blast
qed

lemma messages_all: "agrees g x llr \<Longrightarrow> messages_ok g x (\<lambda>v. llr ! v \<noteq> 0) n (iterate g (map Fin llr) n)"
proof (induction n)
  case 0
  then show ?case by (simp add: messages_ok_def sound_zero)
next
  case (Suc n)
  show ?case by (rule messages_step [OF Suc.prems Suc.IH [OF Suc.prems]])
qed

text \<open>The decisions of iteration \<open>n\<close> are right wherever \<open>n\<close> rounds of peeling reach.\<close>

lemma decision_peeled:
  assumes "agrees g x llr" "v < N_of g" "peel g (\<lambda>v. llr ! v \<noteq> 0) n v"
  shows "decision g llr n ! v = x ! v"
  using app_ok(2) [OF assms(1) messages_all [OF assms(1)] assms(2,3)] assms(2)
    hard_firm [OF _ bits_ok_nth [OF agreesD(4) [OF assms(1)]]] agreesD(5) [OF assms(1)]
  by (simp add: decision_def hard_of_def)

section \<open>What peeling determines\<close>

lemma unit_factor: "P * (s * Q) = 1 \<Longrightarrow> P * (t * Q) = 1 \<Longrightarrow> s = (t::int)"
  by (metis mult_cancel_left mult_cancel_right mult_zero_left mult_zero_right zero_neq_one)

text \<open>Two codewords that agree where \<open>known\<close> holds agree wherever peeling reaches.\<close>

lemma peel_unique:
  assumes g: "graph_ok g" and x: "bits_ok x" "length x = N_of g" "in_code g (\<lambda>c. x ! c)"
    and y: "bits_ok y" "length y = N_of g" "in_code g (\<lambda>c. y ! c)" and known: "\<And>v. v < N_of g \<Longrightarrow> known v \<Longrightarrow> y ! v = x ! v"
  shows "v < N_of g \<Longrightarrow> peel g known n v \<Longrightarrow> y ! v = x ! v"
proof (induction n arbitrary: v)
  case 0
  then show ?case using known by simp
next
  case (Suc n)
  show ?case
  proof (cases "peel g known n v")
    case False
    then obtain c where c: "c < M_of g" "resolves g known n c v" using Suc.prems(2) by (auto simp: resolves_def list_ex_iff)
    let ?E = "expand_edges g" and ?els = "chk_edges (expand_edges g) c"
    from c(2) obtain i where i: "i \<in> set ?els" "s_var (?E ! i) = v"
      "\<And>j. j \<in> set ?els \<Longrightarrow> j \<noteq> i \<Longrightarrow> peel g known n (s_var (?E ! j))" by (rule resolves_edge) blast
    have same: "y ! s_var (?E ! j) = x ! s_var (?E ! j)" if "j \<in> set ?els" "j \<noteq> i" for j
      using that i(3) Suc.IH edge_bounds(1) [OF g] by (simp add: chk_edges_iff)
    obtain us vs where els: "?els = us @ i # vs" using i(1) by (auto dest: split_list)
    have "distinct ?els" by (simp add: chk_edges_def)
    then have "i \<notin> set us" "i \<notin> set vs" unfolding els by auto
    then have "y ! s_var (?E ! j) = x ! s_var (?E ! j)" if "j \<in> set us \<or> j \<in> set vs" for j
      using that same unfolding els by auto
    then have "map (\<lambda>j. sgn_bit (y ! s_var (?E ! j))) us = map (\<lambda>j. sgn_bit (x ! s_var (?E ! j))) us"
      "map (\<lambda>j. sgn_bit (y ! s_var (?E ! j))) vs = map (\<lambda>j. sgn_bit (x ! s_var (?E ! j))) vs" by simp_all
    with parity [OF g x c(1)] parity [OF g y c(1)] have "sgn_bit (y ! v) = sgn_bit (x ! v)"
      using unit_factor [of "prod_list (map (\<lambda>j. sgn_bit (x ! s_var (?E ! j))) us)" "sgn_bit (y ! v)"
          "prod_list (map (\<lambda>j. sgn_bit (x ! s_var (?E ! j))) vs)" "sgn_bit (x ! v)"]
      unfolding els by (simp only: map_append prod_list.append list.map prod_list.Cons i(2) simp_thms)
    moreover have "is_bit (x ! v)" "is_bit (y ! v)" using x y Suc.prems(1) by (simp_all add: bits_ok_nth)
    ultimately show ?thesis by (auto simp: is_bit_def sgn_bit_def split: if_splits)
  qed (use Suc in simp)
qed

text \<open>Decoding of a word that peeling resolves: the early exit can only accept the codeword, and
  after enough iterations the decision is the codeword.\<close>

lemma decode_minsum_peeled:
  assumes ag: "agrees g x llr" and peel: "\<And>v. v < N_of g \<Longrightarrow> peel g (\<lambda>v. llr ! v \<noteq> 0) n v" and n: "n \<le> nat max_iter"
  shows "decode_minsum llr g max_iter = Inr (take (K_of g) x)"
proof -
  let ?P = "\<lambda>i. in_code g (\<lambda>c. decision g llr i ! c)"
  let ?h = "first_hit ?P 0 (nat max_iter)"
  note g = agreesD(1) [OF ag] and x = agreesD(4-6) [OF ag]
  have hit: "?h \<le> nat max_iter" "?h < nat max_iter \<Longrightarrow> ?P ?h" using first_hit_spec [of 0 "nat max_iter" ?P] by auto
  have known: "decision g llr i ! v = x ! v" if "v < N_of g" "llr ! v \<noteq> 0" for i v
    using decision_peeled [OF ag that(1) peel_mono [of 0 i]] that(2) by simp
  have len: "length (decision g llr ?h) = N_of g" "bits_ok (decision g llr ?h)" by (simp_all add: decision_def)
  have "decision g llr ?h ! v = x ! v" if v: "v < N_of g" for v
  proof (cases "?h < nat max_iter")
    case True
    show ?thesis by (rule peel_unique [OF g x len(2,1) hit(2) [OF True] known v peel [OF v]])
  next
    case False
    then have "n \<le> ?h" using n hit(1) by simp
    then show ?thesis using decision_peeled [OF ag v] peel_mono peel [OF v] by blast
  qed
  then have "decision g llr ?h = x" using len(1) x(2) by (intro nth_equalityI) simp_all
  then show ?thesis using decode_minsum_eq [OF g agreesD(3) [OF ag]] by simp
qed

lemma ldpc_decode_peeled:
  assumes "make_graph p = Inr g" "p_zc p = 0 \<longrightarrow> p_info_bits p > 0" "agrees g x llr"
    and "\<And>v. v < N_of g \<Longrightarrow> peel g (\<lambda>v. llr ! v \<noteq> 0) n v" "n \<le> nat (p_max_iter p)"
  shows "ldpc_decode llr p = Inr (take (K_of g) x)"
  using assms(1,2) decode_minsum_peeled [OF assms(3-5)] by (auto simp: ldpc_decode_def)

end
