(* ===== verification/Puncture.thy ===== *)
theory Puncture
  imports Erasures
begin

text \<open>
  The two punctured columns of the 5G base graphs. In both tables row 1 meets column 0 and not column 1,
  and row 0 meets both, so two rounds of peeling resolve the first \<open>2 * Zc\<close> positions from the others,
  and two iterations of the decoder restore what rate matching never sends.
\<close>

section \<open>The tables\<close>

lemma filter_single_upt: "z < n \<Longrightarrow> filter (\<lambda>i. i = z) [0..<n] = [z]"
  by (induction n) (auto simp: less_Suc_eq filter_empty_conv)

lemma bg1_punctured:
  "map col (filter (\<lambda>e. row e = 1 \<and> col e < 2) BG1_EDGES) = [0]"
  "map col (filter (\<lambda>e. row e = 0 \<and> col e < 2) BG1_EDGES) = [0, 1]"
  by code_simp+

lemma bg2_punctured:
  "map col (filter (\<lambda>e. row e = 1 \<and> col e < 2) BG2_EDGES) = [0]"
  "map col (filter (\<lambda>e. row e = 0 \<and> col e < 2) BG2_EDGES) = [0, 1]"
  by code_simp+

lemma bg1_rows: "remdups_adj (map row (filter (\<lambda>e. col e < 26) BG1_EDGES)) = [0..<46]"
  by code_simp

lemma bg2_rows: "remdups_adj (map row (filter (\<lambda>e. col e < 14) BG2_EDGES)) = [0..<42]"
  by code_simp

lemma table_punctured:
  "map col (filter (\<lambda>e. row e = 1 \<and> col e < 2) (table_of bg)) = [0]"
  "map col (filter (\<lambda>e. row e = 0 \<and> col e < 2) (table_of bg)) = [0, 1]"
  using bg1_punctured bg2_punctured by (simp_all add: table_of_def)

lemma table_rows:
  assumes "R < default_mb bg"
  shows "\<exists>e\<in>set (table_of bg). row e = R \<and> col e < default_kb bg + 4"
proof -
  have "remdups_adj (map row (filter (\<lambda>e. col e < default_kb bg + 4) (table_of bg))) = [0..<default_mb bg]"
    using bg1_rows bg2_rows by (simp add: table_of_def default_kb_def default_mb_def)
  then have "R \<in> set (map row (filter (\<lambda>e. col e < default_kb bg + 4) (table_of bg)))"
    using assms by (metis atLeast_upt lessThan_iff remdups_adj_set)
  then show ?thesis by auto
qed

section \<open>The checks of a block row\<close>

lemma check_vars_map: "check_vars edges c = map s_var (filter (\<lambda>x. s_check x = c) edges)"
proof -
  have "filter (\<lambda>x. s_check x = c) (map ((!) edges) [0..<length edges]) = map ((!) edges) (chk_edges edges c)"
    by (simp add: filter_map comp_def chk_edges_def)
  then show ?thesis by (simp add: check_vars_def map_nth comp_def)
qed

lemma check_vars_row:
  assumes g: "graph_ok g" and z: "z < g_zc g"
  shows "check_vars (expand_edges g) (R * g_zc g + z) = map (edge_var g z) (filter (\<lambda>e. row e = R) (g_edges g))"
proof -
  have one: "filter (\<lambda>i. row e * g_zc g + i = R * g_zc g + z) [0..<g_zc g] = (if row e = R then [z] else [])" for e
  proof -
    have "filter (\<lambda>i. row e * g_zc g + i = R * g_zc g + z) [0..<g_zc g] = filter (\<lambda>i. row e = R \<and> i = z) [0..<g_zc g]"
      by (rule filter_cong) (simp_all add: block_eq_iff z)
    also have "\<dots> = (if row e = R then [z] else [])"
      using z filter_single_upt [of z "g_zc g"] by auto
    finally show ?thesis .
  qed
  have edge: "map s_var (filter (\<lambda>x. s_check x = R * g_zc g + z) (expand_edge g e)) = (if row e = R then [edge_var g z e] else [])"
    if "0 \<le> shift e ! g_i_ls g" for e
    using that by (simp add: expand_edge_def Let_def filter_map comp_def one edge_var_def)
  have s: "0 \<le> shift e ! g_i_ls g" if "e \<in> set (g_edges g)" for e
    using g that by (auto simp: graph_ok_def edge_ok_def list_all_length)
  have "concat (map (\<lambda>e. map s_var (filter (\<lambda>x. s_check x = R * g_zc g + z) (expand_edge g e))) es) =
      map (edge_var g z) (filter (\<lambda>e. row e = R) es)" if "set es \<subseteq> set (g_edges g)" for es
    using that by (induction es) (simp_all add: edge s)
  from this [of "g_edges g"] show ?thesis
    by (simp add: check_vars_map expand_edges_def filter_concat map_concat comp_def)
qed

lemma M_of_split:
  assumes "c < M_of g"
  obtains R z where "c = R * g_zc g + z" "R < g_mb g" "z < g_zc g"
proof -
  have "0 < g_zc g" using assms by (auto simp: M_of_def intro: Nat.gr0I)
  then show thesis using assms that [of "c div g_zc g" "c mod g_zc g"]
    by (simp add: M_of_def less_mult_imp_div_less)
qed

section \<open>The standard graphs\<close>

text \<open>The edges of the core columns are those of the table, for any number of rows.\<close>

lemma standard_core_edges:
  assumes "make_graph p = Inr g" "standard_params p" "R < g_mb g" "\<And>e. Q e \<Longrightarrow> col e < default_kb (p_bg p) + 4"
  shows "filter (\<lambda>e. row e = R \<and> Q e) (g_edges g) = filter (\<lambda>e. row e = R \<and> Q e) (table_of (p_bg p))"
  using standard_edges(5) [OF assms(1,2)]
proof
  assume ed: "g_edges g = filter (\<lambda>e. row e < g_mb g \<and> col e < g_kb g + g_mb g) (table_of (p_bg p))"
  have "col e < g_kb g + g_mb g" if "Q e" for e
    using assms(4) [OF that] standard_edges(1,2) [OF assms(1,2)] by linarith
  then show ?thesis unfolding ed filter_filter using assms(3) by (intro filter_cong) auto
qed simp

text \<open>Every check has two edges: the four core rows by their parity part, the extension rows because the
  new column is not their only one.\<close>

lemma two_edges: "e1 \<in> set es \<Longrightarrow> e2 \<in> set es \<Longrightarrow> e1 \<noteq> e2 \<Longrightarrow> 2 \<le> length es"
  using card_mono [of "set es" "{e1, e2}"] card_length [of es] by simp

lemma core_row_two:
  assumes mk: "make_graph p = Inr g" and st: "standard_params p" and R: "R < 4" "R < g_mb g"
  shows "2 \<le> length (filter (\<lambda>e. row e = R) (g_edges g))"
proof -
  let ?kb = "default_kb (p_bg p)" and ?T = "table_of (p_bg p)"
  let ?core = "\<lambda>e. ?kb \<le> col e \<and> col e < ?kb + 4" and ?row = "filter (\<lambda>e. row e = R) (g_edges g)"
  have "col e < ?kb + 4" if "e \<in> set ?T" "row e = R" "?kb \<le> col e" for e
    using table_core [OF R(1), of "(col e - ?kb, shift e)"] that by (force simp: parity_part_def)
  then have "filter (\<lambda>e. row e = R \<and> ?kb \<le> col e) ?T = filter (\<lambda>e. row e = R \<and> ?core e) ?T"
    by (intro filter_cong) auto
  moreover have "2 \<le> length (parity_part ?kb R ?T)"
    using R(1) bg1_core bg2_core by (auto simp: table_of_def default_kb_def less_Suc_eq numeral_eq_Suc)
  ultimately have "2 \<le> length (filter (\<lambda>e. row e = R \<and> ?core e) (g_edges g))"
    using standard_core_edges [OF mk st R(2), of ?core] by (simp add: parity_part_def)
  also have "\<dots> = length (filter ?core ?row)" by (simp add: conj_commute)
  finally show ?thesis using length_filter_le [of ?core ?row] by (rule order_trans)
qed

lemma extension_row_two:
  assumes mk: "make_graph p = Inr g" and st: "standard_params p" and R: "4 \<le> R" "R < g_mb g"
  shows "2 \<le> length (filter (\<lambda>e. row e = R) (g_edges g))"
proof -
  note g = standard_graph [OF mk st] and ed = standard_edges [OF mk st]
  let ?kb = "default_kb (p_bg p)" and ?T = "table_of (p_bg p)"
  have "R < default_mb (p_bg p)" using R ed(3) by linarith
  then obtain e1 where e1: "e1 \<in> set ?T" "row e1 = R" "col e1 < ?kb + 4" using table_rows R(1) by blast
  then have "e1 \<in> set (filter (\<lambda>e. row e = R \<and> col e < ?kb + 4) ?T)" by simp
  then have m1: "e1 \<in> set (filter (\<lambda>e. row e = R) (g_edges g))"
    unfolding standard_core_edges [OF mk st R(2), of "\<lambda>e. col e < ?kb + 4", symmetric, simplified] by simp
  obtain e2 where e2: "filter (\<lambda>e. row e = R \<and> g_kb g + 4 \<le> col e) (g_edges g) = [e2]"
    using g(4) R by (auto simp: extension_rows_def)
  then have "e2 \<in> set (filter (\<lambda>e. row e = R \<and> g_kb g + 4 \<le> col e) (g_edges g))" by simp
  then have "e2 \<in> set (filter (\<lambda>e. row e = R) (g_edges g))" "?kb + 4 \<le> col e2" using ed(1) by auto
  then show ?thesis using two_edges [OF m1] e1(3) by fastforce
qed

lemma standard_paired:
  assumes mk: "make_graph p = Inr g" and st: "standard_params p"
  shows "checks_paired g"
  unfolding checks_paired_def list_all_iff
proof
  fix c assume "c \<in> set [0..<M_of g]"
  then have "c < M_of g" by simp
  then obtain R z where c: "c = R * g_zc g + z" and R: "R < g_mb g" and z: "z < g_zc g" by (rule M_of_split)
  have "2 \<le> length (filter (\<lambda>e. row e = R) (g_edges g))"
    using core_row_two [OF mk st _ R] extension_row_two [OF mk st _ R] by (cases "R < 4") simp_all
  moreover have "length (chk_edges (expand_edges g) c) = length (filter (\<lambda>e. row e = R) (g_edges g))"
    using check_vars_row [OF standard_graph(1) [OF mk st] z, of R] unfolding c by (metis check_vars_def length_map)
  ultimately show "length (chk_edges (expand_edges g) c) \<noteq> 1" by simp
qed

section \<open>Two rounds of peeling\<close>

text \<open>The check in row \<open>R\<close> and lane \<open>z\<close> resolves the variable of its edge \<open>e\<close> when the others are resolved.\<close>

lemma peel_by_row:
  assumes g: "graph_ok g" and R: "R < g_mb g" and z: "z < g_zc g"
    and e: "filter (\<lambda>e. row e = R \<and> P e) (g_edges g) = [e]"
    and others: "\<And>e'. e' \<in> set (g_edges g) \<Longrightarrow> row e' = R \<Longrightarrow> \<not> P e' \<Longrightarrow> peel g known n (edge_var g z e')"
  shows "peel g known (Suc n) (edge_var g z e)"
proof (cases "peel g known n (edge_var g z e)")
  case False
  let ?c = "R * g_zc g + z"
  have "e \<in> set (filter (\<lambda>e. row e = R \<and> P e) (g_edges g))" unfolding e by simp
  then have "P e" by simp
  have "x = e" if "x \<in> set (g_edges g)" "row x = R" "P x" for x
  proof -
    have "x \<in> set (filter (\<lambda>e. row e = R \<and> P e) (g_edges g))" using that by simp
    then show ?thesis unfolding e by simp
  qed
  then have "filter (\<lambda>x. \<not> peel g known n (edge_var g z x)) (filter (\<lambda>e. row e = R) (g_edges g)) =
      filter P (filter (\<lambda>e. row e = R) (g_edges g))"
    using others False by (intro filter_cong) auto
  also have "\<dots> = [e]" using e by (simp add: conj_commute)
  finally have "filter (\<lambda>u. \<not> peel g known n u) (check_vars (expand_edges g) ?c) = [edge_var g z e]"
    by (simp add: check_vars_row [OF g z] filter_map comp_def)
  moreover have "?c < M_of g" unfolding M_of_def by (rule grid_index_less [OF R z])
  ultimately show ?thesis by (auto simp: list_ex_iff)
qed simp

text \<open>Every position of a block column is reached from some lane.\<close>

lemma edge_var_surj:
  assumes "v div g_zc g = col e" "0 < g_zc g"
  shows "\<exists>z<g_zc g. edge_var g z e = v"
proof -
  obtain z where z: "z < g_zc g" "(mod_shift (shift e ! g_i_ls g) (g_zc g) + z) mod g_zc g = v mod g_zc g"
    using mod_surj [of "v mod g_zc g" "g_zc g" "g_zc g" "mod_shift (shift e ! g_i_ls g) (g_zc g)"] assms(2) by auto
  then have "edge_var g z e = v div g_zc g * g_zc g + v mod g_zc g" by (simp add: edge_var_def lifted_var_def assms(1) add.commute)
  with z(1) show ?thesis by auto
qed

lemma edge_var_col:
  assumes "z < g_zc g"
  shows "edge_var g z e div g_zc g = col e"
  using assms by (simp add: edge_var_def lifted_var_def)

lemma later_known:
  assumes g: "graph_ok g" and known: "\<And>v. v < N_of g \<Longrightarrow> 2 * g_zc g \<le> v \<Longrightarrow> known v"
    and e: "e \<in> set (g_edges g)" "z < g_zc g" "2 \<le> col e"
  shows "peel g known n (edge_var g z e)"
proof -
  have "edge_var g z e < N_of g"
    using e(1) g by (auto simp: graph_ok_def edge_ok_def edge_var_def lifted_var_def N_of_def intro!: grid_index_less)
  moreover have "2 * g_zc g \<le> edge_var g z e"
    using mult_le_mono1 [OF e(3), of "g_zc g"] unfolding edge_var_def lifted_var_def by linarith
  ultimately show ?thesis using known peel_mono [of 0 n] by simp
qed

text \<open>Row 1 has one edge in the punctured columns, in column 0; row 0 has one edge in each.\<close>

lemma standard_first_peel:
  assumes mk: "make_graph p = Inr g" and st: "standard_params p"
    and known: "\<And>v. v < N_of g \<Longrightarrow> 2 * g_zc g \<le> v \<Longrightarrow> known v" and u: "u < g_zc g"
  shows "peel g known 1 u"
proof -
  note g = standard_graph [OF mk st]
  have zc: "0 < g_zc g" using g(1) by (simp add: graph_ok_def)
  have row: "1 < g_mb g" using g(2) by simp
  obtain e where e: "filter (\<lambda>e. row e = 1 \<and> col e < 2) (g_edges g) = [e]" "col e = 0"
    using table_punctured(1) [of "p_bg p"] standard_core_edges [OF mk st row, of "\<lambda>e. col e < 2"] by (auto simp: map_eq_Cons_conv)
  have "u div g_zc g = col e" using u e(2) by simp
  then obtain z where z: "z < g_zc g" "edge_var g z e = u" using edge_var_surj zc by blast
  have "peel g known (Suc 0) (edge_var g z e)"
    using later_known [OF g(1) known _ z(1)]
    by (intro peel_by_row [OF g(1) row z(1) e(1)]) (simp only: not_less)
  then show ?thesis by (simp only: z(2) One_nat_def)
qed

lemma standard_second_edge:
  assumes mk: "make_graph p = Inr g" and st: "standard_params p"
  obtains e where "filter (\<lambda>e. row e = 0 \<and> col e = 1) (g_edges g) = [e]" "col e = 1"
proof -
  have row: "0 < g_mb g" using standard_graph(2) [OF mk st] by simp
  obtain e0 e1 where e: "filter (\<lambda>e. row e = 0 \<and> col e < 2) (g_edges g) = [e0, e1]" "col e0 = 0" "col e1 = 1"
    using table_punctured(2) [of "p_bg p"] standard_core_edges [OF mk st row, of "\<lambda>e. col e < 2"] by (auto simp: map_eq_Cons_conv)
  have "filter (\<lambda>e. row e = 0 \<and> col e = 1) (g_edges g) = filter (\<lambda>e. col e = 1) (filter (\<lambda>e. row e = 0 \<and> col e < 2) (g_edges g))"
    unfolding filter_filter by (rule filter_cong) auto
  also have "\<dots> = [e1]" unfolding e(1) by (simp add: e(2,3))
  finally show thesis using that e(3) by blast
qed

lemma standard_peel:
  assumes mk: "make_graph p = Inr g" and st: "standard_params p"
    and known: "\<And>v. v < N_of g \<Longrightarrow> 2 * g_zc g \<le> v \<Longrightarrow> known v" and v: "v < N_of g"
  shows "peel g known 2 v"
proof -
  note g = standard_graph [OF mk st]
  have first: "peel g known 1 u" if "u < g_zc g" for u
    by (rule standard_first_peel [OF mk st _ that]) (rule known)
  have zc: "0 < g_zc g" using g(1) by (simp add: graph_ok_def)
  obtain e1 where e1: "filter (\<lambda>e. row e = 0 \<and> col e = 1) (g_edges g) = [e1]" "col e1 = 1" by (rule standard_second_edge [OF mk st])
  consider "v div g_zc g = 0" | "v div g_zc g = 1" | "2 \<le> v div g_zc g" by linarith
  then show ?thesis
  proof cases
    case 1
    then have "v < g_zc g" using zc by (simp add: div_eq_0_iff)
    then show ?thesis using first peel_mono [of 1 2] by simp
  next
    case 2
    then obtain z where z: "z < g_zc g" "edge_var g z e1 = v" using edge_var_surj e1(2) zc by metis
    have "peel g known (Suc 1) (edge_var g z e1)"
    proof (rule peel_by_row [OF g(1) _ z(1) e1(1)])
      fix x assume x: "x \<in> set (g_edges g)" "col x \<noteq> 1"
      then show "peel g known 1 (edge_var g z x)"
      proof (cases "2 \<le> col x")
        case False
        with x(2) have "edge_var g z x div g_zc g = 0" by (simp add: edge_var_col [OF z(1)])
        then have "edge_var g z x < g_zc g" using zc by (simp add: div_eq_0_iff)
        then show ?thesis by (rule first)
      qed (rule later_known [OF g(1) known x(1) z(1)])
    qed (use g(2) in simp)
    then show ?thesis by (simp add: z(2) numeral_2_eq_2)
  next
    case 3
    then have "2 * g_zc g \<le> v" using less_eq_div_iff_mult_less_eq [OF zc] by simp
    then show ?thesis using known [OF v] peel_mono [of 0 2] by simp
  qed
qed

text \<open>Soft values with the signs of a codeword, possibly 0 in the punctured columns, are decoded.\<close>

lemma ldpc_decode_punctured:
  assumes "make_graph p = Inr g" "standard_params p" "p_zc p = 0 \<longrightarrow> p_info_bits p > 0" "2 \<le> p_max_iter p"
    and "bits_ok x" "length x = N_of g" "in_code g (\<lambda>c. x ! c)" "length llr = N_of g"
    and "\<forall>v<N_of g. llr ! v = 0 \<or> (0 < llr ! v \<longleftrightarrow> x ! v = 0)" "\<forall>v<N_of g. 2 * g_zc g \<le> v \<longrightarrow> llr ! v \<noteq> 0"
  shows "ldpc_decode llr p = Inr (take (K_of g) x)"
proof (rule ldpc_decode_peeled [OF assms(1,3)])
  show "agrees g x llr" unfolding agrees_def
    using make_graph_ok [OF assms(1)] standard_paired [OF assms(1,2)] assms(5-9) by simp
  show "peel g (\<lambda>v. llr ! v \<noteq> 0) 2 v" if "v < N_of g" for v
    using standard_peel [OF assms(1,2) _ that] assms(10) by simp
  show "2 \<le> nat (p_max_iter p)" using assms(4) by simp
qed

section \<open>Properties\<close>

text \<open>C5: decoding under erasures. Soft values that are 0 at any positions and have the sign of a codeword
  elsewhere are decoded to its information part when peeling resolves every position within the
  allowed iterations, whatever the magnitudes are: each iteration decides at least what a round of
  peeling resolves, and the early exit accepts no other codeword. No check may have a single edge (true
  of all standard parameters), because its message would be infinite.\<close>

theorem ldpc_erasure_decode:
  assumes "make_graph p = Inr g" "p_zc p = 0 \<longrightarrow> p_info_bits p > 0" "checks_paired g"
    and "bits_ok x" "length x = N_of g" "ldpc_syndrome_ok x p = Inr True"
    and "list_all2 (\<lambda>b l. l = 0 \<or> (0 < l \<longleftrightarrow> b = 0)) x llr"
    and "list_all (peel g (\<lambda>v. llr ! v \<noteq> 0) n) [0..<N_of g]" "n \<le> nat (p_max_iter p)"
  shows "ldpc_decode llr p = Inr (take (K_of g) x)"
proof (rule ldpc_decode_peeled [OF assms(1,2)])
  show "agrees g x llr"
    using make_graph_ok [OF assms(1)] assms(3-7) syndrome_of_code [OF assms(1,5)]
    by (simp add: agrees_def list_all2_conv_all_nth)
qed (use assms(8,9) in \<open>simp_all add: list_all_iff\<close>)

lemma test_zero_word: "make_graph test_params = Inr g \<Longrightarrow> ldpc_syndrome_ok (replicate 28 0) test_params = Inr True"
proof -
  assume g: "make_graph test_params = Inr g"
  then have n: "N_of g = 28" using test_params_graph by auto
  have "in_code g (\<lambda>c. replicate 28 0 ! c)"
    using in_code_zero [of g] n dot_cong [of 28 _ _ "\<lambda>c. replicate 28 0 ! c" "\<lambda>c. 0"] by (auto simp: in_code_def)
  then show ?thesis using syndrome_of_code [OF g, of "replicate 28 0"] n by simp
qed

theorem ldpc_erasure_decode_witness: "ldpc_decode (replicate 4 0 @ replicate 24 (3::real)) test_params = Inr (replicate 20 0)"
proof -
  let ?llr = "replicate 4 0 @ replicate 24 (3::real)"
  obtain g where g: "make_graph test_params = Inr g" "N_of g = 28" "K_of g = 20" using test_params_graph by blast
  have "g_zc g = 2" using g(1) by (rule make_graph_InrE) (use graph_lifting_Inr(4) [of test_params] in auto)
  then have "peel g (\<lambda>v. ?llr ! v \<noteq> 0) 2 v" if "v < N_of g" for v
    by (intro standard_peel [OF g(1) _ _ that]) (simp_all add: g(2) nth_append)
  moreover have "bits_ok (replicate 28 0)" by (simp add: bits_ok_def is_bit_def list_all_iff)
  moreover have "list_all2 (\<lambda>b l. l = 0 \<or> (0 < l \<longleftrightarrow> b = 0)) (replicate 28 (0::u8)) ?llr"
    by (simp add: list_all2_conv_all_nth nth_append)
  moreover have "p_max_iter test_params = 25" by (simp add: test_params_def default_params_def)
  ultimately show ?thesis
    using ldpc_erasure_decode [OF g(1) _ standard_paired [OF g(1)], of "replicate 28 0" ?llr 2] test_zero_word [OF g(1)]
    by (simp add: g(2,3) list_all_iff del: peel.simps)
qed

end
