(* ===== verification/CInt.thy ===== *)
theory CInt
  imports Prelude
begin

text \<open>
  The 32-bit \<open>int\<close> arithmetic of the program, on HOL's integers: an operation whose exact result
  does not fit is undefined behaviour (\<open>int_op\<close>), a conversion from \<open>std::size_t\<close> wraps
  (\<open>to_int32\<close>), a conversion to \<open>std::size_t\<close> reduces modulo \<open>2 ^ 64\<close> (\<open>to_size\<close>), and
  division truncates toward zero (\<open>c_div\<close>, \<open>c_rem\<close>).
\<close>

definition int_ok :: "int \<Rightarrow> bool" where
  "int_ok x \<longleftrightarrow> - 2147483648 \<le> x \<and> x < 2147483648"

definition int_op :: "int \<Rightarrow> int result" where
  "int_op x = (if int_ok x then Inr x else Inl (Undefined ''signed integer overflow''))"

definition to_int32 :: "nat \<Rightarrow> int" where
  "to_int32 n = (let m = int n mod 4294967296 in if m < 2147483648 then m else m - 4294967296)"

definition to_size :: "int \<Rightarrow> nat" where
  "to_size x = nat (x mod 18446744073709551616)"

definition c_rem :: "int \<Rightarrow> int \<Rightarrow> int" where
  "c_rem a b = (if a < 0 then - ((- a) mod \<bar>b\<bar>) else a mod \<bar>b\<bar>)"

definition c_div :: "int \<Rightarrow> int \<Rightarrow> int" where
  "c_div a b = (a - c_rem a b) div b"

lemma int_op_ok [simp]: "int_ok x \<Longrightarrow> int_op x = Inr x"
  by (simp add: int_op_def)

lemma int_op_Inr_iff: "int_op x = Inr y \<longleftrightarrow> int_ok x \<and> y = x"
  by (auto simp: int_op_def)

lemma to_int32_small [simp]: "n < 2147483648 \<Longrightarrow> to_int32 n = int n"
  by (simp add: to_int32_def Let_def)

lemma to_size_small [simp]: "0 \<le> x \<Longrightarrow> x < 18446744073709551616 \<Longrightarrow> to_size x = nat x"
  by (simp add: to_size_def)

lemma c_rem_nonneg: "0 \<le> a \<Longrightarrow> 0 < b \<Longrightarrow> c_rem a b = a mod b"
  by (simp add: c_rem_def)

lemma c_div_nonneg: "0 \<le> a \<Longrightarrow> 0 < b \<Longrightarrow> c_div a b = a div b"
  by (simp add: c_div_def c_rem_nonneg minus_mod_eq_mult_div)

text \<open>The idiom \<open>((a % b) + b) % b\<close> is the mathematical remainder.\<close>

lemma c_rem_twice:
  assumes "0 < b"
  shows "c_rem (c_rem a b + b) b = a mod b"
proof (cases "a < 0")
  case True
  have "(- a) mod b \<le> b" using assms by (simp add: less_imp_le)
  then have "c_rem (c_rem a b + b) b = (- ((- a) mod b) + b) mod b"
    using True assms by (simp add: c_rem_def)
  also have "\<dots> = a mod b" by (simp add: mod_minus_eq)
  finally show ?thesis .
next
  case False
  moreover have "0 \<le> a mod b" using assms by simp
  ultimately show ?thesis using assms by (simp add: c_rem_def)
qed

end
