(* ===== verification/RateMatching.thy ===== *)
theory RateMatching
  imports CInt LdpcGraph Llr
begin

text \<open>
  \<open>include/nr_bb/rate_matching.hpp\<close> and \<open>src/rate_matching.cpp\<close>: the circular buffer of TS 38.212
  5.4.2, its redundancy-version offsets, bit selection and its recovery for soft values.
  \<open>buf_add\<close> and \<open>buf_store\<close> are the bodies of the two loops of \<open>rate_dematch\<close>.
\<close>

section \<open>The code\<close>

record rate_match_config =
  rm_e_bits :: nat
  rm_rv :: int
  rm_n_cb :: nat
  rm_zc :: int
  rm_bg :: base_graph
  rm_puncture_first_2z :: bool

definition default_rm :: rate_match_config where
  "default_rm = \<lparr>rm_e_bits = 0, rm_rv = 0, rm_n_cb = 0, rm_zc = 0, rm_bg = BG2, rm_puncture_first_2z = True\<rparr>"

definition rv_coeffs :: "base_graph \<Rightarrow> int list" where
  "rv_coeffs bg = (if bg = BG1 then [0, 17, 33, 56] else [0, 13, 25, 43])"

definition rv_cols :: "base_graph \<Rightarrow> int" where
  "rv_cols bg = (if bg = BG1 then 66 else 50)"

definition rv_k0_positions :: "nat \<Rightarrow> int \<Rightarrow> base_graph \<Rightarrow> nat list result" where
  "rv_k0_positions n_cb zc bg =
     and_then (require (zc > 0) ''zc required for RV k0'') (\<lambda>_.
     and_then (require (n_cb > 0) ''n_cb required'') (\<lambda>_.
     mapE (\<lambda>rv. and_then (int_op (rv_coeffs bg ! rv * to_int32 n_cb)) (\<lambda>num.
                and_then (int_op (rv_cols bg * zc)) (\<lambda>den.
                and_then (int_op (c_div num den * zc)) (\<lambda>k0. Inr (to_size k0))))) [0..<4]))"

definition rv_index :: "int \<Rightarrow> nat" where
  "rv_index rv = nat (c_rem (c_rem rv 4 + 4) 4)"

definition start_offset :: "rate_match_config \<Rightarrow> nat \<Rightarrow> nat result" where
  "start_offset cfg n_cb =
     (if rm_zc cfg > 0
      then and_then (rv_k0_positions n_cb (rm_zc cfg) (rm_bg cfg))
             (\<lambda>k0s. Inr (k0s ! rv_index (rm_rv cfg) mod n_cb))
      else Inr ((n_cb * rv_index (rm_rv cfg)) div 4))"

definition punch_count :: "rate_match_config \<Rightarrow> nat \<Rightarrow> string \<Rightarrow> nat result" where
  "punch_count cfg len msg =
     (if rm_puncture_first_2z cfg \<and> rm_zc cfg > 0
      then and_then (int_op (2 * rm_zc cfg)) (\<lambda>p.
           and_then (require (len > nat p) msg) (\<lambda>_. Inr (nat p)))
      else Inr 0)"

definition rate_match :: "bitvec \<Rightarrow> rate_match_config \<Rightarrow> bitvec result" where
  "rate_match coded cfg =
     and_then (require (coded \<noteq> []) ''rate_match empty input'') (\<lambda>_.
     and_then (require (rm_e_bits cfg > 0) ''E must be > 0'') (\<lambda>_.
     and_then (punch_count cfg (length coded) ''coded too short to puncture 2Z'') (\<lambda>punch.
     let systematic = drop punch coded;
         n_cb = (if rm_n_cb cfg = 0 then length systematic else rm_n_cb cfg) in
     and_then (require (n_cb > 0) ''n_cb must be > 0'') (\<lambda>_.
     let buf = map (\<lambda>i. systematic ! (i mod length systematic)) [0..<n_cb] in
     and_then (start_offset cfg n_cb) (\<lambda>k0.
     Inr (map (\<lambda>i. buf ! ((k0 + i) mod n_cb)) [0..<rm_e_bits cfg]))))))"

definition rate_match_e :: "bitvec \<Rightarrow> nat \<Rightarrow> bitvec result" where
  "rate_match_e coded e_bits = rate_match coded (default_rm\<lparr>rm_e_bits := e_bits\<rparr>)"

definition buf_add :: "softvec \<Rightarrow> nat \<Rightarrow> softvec \<Rightarrow> nat \<Rightarrow> softvec" where
  "buf_add llr k0 buf i =
     (let j = (k0 + i) mod length buf in buf[j := buf ! j + llr ! i])"

definition buf_store :: "softvec \<Rightarrow> nat \<Rightarrow> nat \<Rightarrow> softvec \<Rightarrow> nat \<Rightarrow> softvec" where
  "buf_store buf punch n_coded full i = full[punch + i mod (n_coded - punch) := buf ! i]"

definition rate_dematch :: "softvec \<Rightarrow> rate_match_config \<Rightarrow> nat \<Rightarrow> softvec result" where
  "rate_dematch llr_e cfg n_coded =
     and_then (require (n_coded > 0) ''n_coded must be > 0'') (\<lambda>_.
     and_then (punch_count cfg n_coded ''n_coded too short for 2Z puncture'') (\<lambda>punch.
     let n_cb = (if rm_n_cb cfg = 0 then n_coded - punch else rm_n_cb cfg) in
     and_then (start_offset cfg n_cb) (\<lambda>k0.
     let buf = foldl (buf_add llr_e k0) (replicate n_cb 0) [0..<length llr_e] in
     Inr (foldl (buf_store buf punch n_coded) (replicate n_coded 0) [0..<n_cb]))))"

definition rate_dematch_e :: "softvec \<Rightarrow> nat \<Rightarrow> softvec result" where
  "rate_dematch_e llr_e n_coded =
     rate_dematch llr_e (default_rm\<lparr>rm_e_bits := length llr_e, rm_puncture_first_2z := False\<rparr>) n_coded"

section \<open>Redundancy versions\<close>

lemma rv_index_eq: "rv_index rv = nat (rv mod 4)"
  by (simp add: rv_index_def c_rem_twice)

lemma rv_index_less: "rv_index rv < 4"
  by (simp add: rv_index_eq nat_less_iff)

lemma rv_coeffs_ok: "r < 4 \<Longrightarrow> 0 \<le> rv_coeffs bg ! r \<and> rv_coeffs bg ! r < rv_cols bg \<and> rv_coeffs bg ! r \<le> 56"
  by (auto simp: rv_coeffs_def rv_cols_def less_Suc_eq numeral_eq_Suc)

lemma rv_coeffs_mono: "r \<le> s \<Longrightarrow> s < 4 \<Longrightarrow> rv_coeffs bg ! r \<le> rv_coeffs bg ! s"
  by (auto simp: rv_coeffs_def less_Suc_eq numeral_eq_Suc le_Suc_eq)

definition k0_spec :: "nat \<Rightarrow> nat \<Rightarrow> base_graph \<Rightarrow> nat \<Rightarrow> nat" where
  "k0_spec n_cb zc bg r = nat (rv_coeffs bg ! r) * n_cb div (nat (rv_cols bg) * zc) * zc"

definition rm_small :: "nat \<Rightarrow> int \<Rightarrow> bool" where
  "rm_small n_cb zc \<longleftrightarrow> n_cb \<le> 2147483647 div 56 \<and> zc \<le> 2147483647 div 66"

lemma k0_less:
  assumes "r < 4" "0 < n_cb"
  shows "k0_spec n_cb zc bg r < n_cb"
proof -
  let ?c = "nat (rv_coeffs bg ! r)" and ?n = "nat (rv_cols bg)"
  have c: "?c < ?n" using rv_coeffs_ok [OF assms(1), of bg] by auto
  have "k0_spec n_cb zc bg r * ?n = ?c * n_cb div (?n * zc) * (?n * zc)"
    by (simp add: k0_spec_def ac_simps)
  also have "\<dots> \<le> ?c * n_cb" by simp
  also have "\<dots> < ?n * n_cb" using c assms(2) by simp
  finally show ?thesis by (simp add: mult.commute)
qed

lemma rv_k0_positions_eq:
  assumes "0 < zc" "0 < n_cb" "rm_small n_cb zc"
  shows "rv_k0_positions n_cb zc bg = Inr (map (k0_spec n_cb (nat zc) bg) [0..<4])"
proof -
  have "and_then (int_op (rv_coeffs bg ! r * to_int32 n_cb)) (\<lambda>num.
          and_then (int_op (rv_cols bg * zc)) (\<lambda>den.
          and_then (int_op (c_div num den * zc)) (\<lambda>k0. Inr (to_size k0)))) = Inr (k0_spec n_cb (nat zc) bg r)"
    if r: "r < 4" for r
  proof -
    let ?c = "rv_coeffs bg ! r" and ?n = "rv_cols bg"
    have c: "0 \<le> ?c" "?c \<le> 56" "?c < ?n" using rv_coeffs_ok [OF r, of bg] by auto
    have n: "0 < ?n" "?n \<le> 66" by (simp_all add: rv_cols_def)
    have ncb: "int n_cb \<le> 2147483647 div 56" using assms(3) by (simp add: rm_small_def)
    have 1: "?c * int n_cb \<le> 56 * int n_cb" "0 \<le> ?c * int n_cb" using c by (auto intro: mult_right_mono)
    have a: "?c * int n_cb < 2147483648" using 1(1) ncb by linarith
    have 2: "?n * zc \<le> 66 * zc" "0 < ?n * zc" using n assms(1) by (auto intro: mult_right_mono)
    have k: "int (k0_spec n_cb (nat zc) bg r) = (?c * int n_cb) div (?n * zc) * zc"
      using c n assms(1) by (simp add: k0_spec_def zdiv_int)
    have "int (k0_spec n_cb (nat zc) bg r) < int n_cb"
      using k0_less [OF r assms(2)] by simp
    with k have 3: "0 \<le> (?c * int n_cb) div (?n * zc) * zc" "(?c * int n_cb) div (?n * zc) * zc < int n_cb"
      by (metis of_nat_0_le_iff)+
    have "to_int32 n_cb = int n_cb" using ncb by (intro to_int32_small) linarith
    moreover have "int_ok (?c * int n_cb)" "int_ok (?n * zc)"
      "int_ok ((?c * int n_cb) div (?n * zc) * zc)"
      using a 1(2) 2 3 ncb assms(3) by (auto simp: int_ok_def rm_small_def)
    moreover have "c_div (?c * int n_cb) (?n * zc) = (?c * int n_cb) div (?n * zc)"
      using 1(2) 2(2) by (rule c_div_nonneg)
    moreover have "to_size ((?c * int n_cb) div (?n * zc) * zc) = k0_spec n_cb (nat zc) bg r"
      using 3 ncb by (simp only: flip: k) simp
    ultimately show ?thesis by (simp only: int_op_ok and_then.simps)
  qed
  then have "mapE (\<lambda>r. and_then (int_op (rv_coeffs bg ! r * to_int32 n_cb)) (\<lambda>num.
          and_then (int_op (rv_cols bg * zc)) (\<lambda>den.
          and_then (int_op (c_div num den * zc)) (\<lambda>k0. Inr (to_size k0))))) [0..<4] =
      Inr (map (k0_spec n_cb (nat zc) bg) [0..<4])"
    by (intro mapE_Inr) simp
  then show ?thesis using assms(1,2) by (simp add: rv_k0_positions_def)
qed

section \<open>Offsets and buffer sizes\<close>

definition rm_punch :: "rate_match_config \<Rightarrow> nat" where
  "rm_punch cfg = (if rm_puncture_first_2z cfg \<and> rm_zc cfg > 0 then nat (2 * rm_zc cfg) else 0)"

definition rm_buf :: "rate_match_config \<Rightarrow> nat \<Rightarrow> nat" where
  "rm_buf cfg n = (if rm_n_cb cfg = 0 then n - rm_punch cfg else rm_n_cb cfg)"

definition rm_k0 :: "rate_match_config \<Rightarrow> nat \<Rightarrow> nat" where
  "rm_k0 cfg n_cb =
     (if rm_zc cfg > 0 then k0_spec n_cb (nat (rm_zc cfg)) (rm_bg cfg) (rv_index (rm_rv cfg))
      else n_cb * rv_index (rm_rv cfg) div 4)"

lemma start_offset_eq:
  assumes "0 < n_cb" "rm_small n_cb (rm_zc cfg)"
  shows "start_offset cfg n_cb = Inr (rm_k0 cfg n_cb)" "rm_k0 cfg n_cb < n_cb"
proof -
  have r: "rv_index (rm_rv cfg) < 4" by (rule rv_index_less)
  have "n_cb * rv_index (rm_rv cfg) < n_cb * 4" using r assms(1) by simp
  then have "n_cb * rv_index (rm_rv cfg) div 4 < n_cb" by (simp add: less_mult_imp_div_less)
  then show l: "rm_k0 cfg n_cb < n_cb" using k0_less [OF r assms(1)] by (simp add: rm_k0_def)
  then show "start_offset cfg n_cb = Inr (rm_k0 cfg n_cb)"
    using rv_k0_positions_eq [OF _ assms] r by (auto simp: start_offset_def rm_k0_def)
qed

lemma punch_count_eq:
  assumes "rm_small n (rm_zc cfg)"
  shows "punch_count cfg len msg = (if len > rm_punch cfg \<or> rm_punch cfg = 0 then Inr (rm_punch cfg) else Inl (Error msg))"
proof -
  have "int_ok (2 * rm_zc cfg)" if "rm_zc cfg > 0" using assms that by (simp add: rm_small_def int_ok_def)
  then show ?thesis by (simp add: punch_count_def rm_punch_def)
qed

lemma rate_match_eq:
  assumes "rm_punch cfg < length coded" "0 < rm_e_bits cfg" "rm_small (rm_buf cfg (length coded)) (rm_zc cfg)"
  shows "rate_match coded cfg = Inr (map (\<lambda>i. coded ! (rm_punch cfg +
      ((rm_k0 cfg (rm_buf cfg (length coded)) + i) mod rm_buf cfg (length coded)) mod (length coded - rm_punch cfg)))
      [0..<rm_e_bits cfg])"
proof -
  let ?n = "rm_buf cfg (length coded)"
  have n: "0 < ?n" using assms(1) by (simp add: rm_buf_def)
  have "coded \<noteq> []" using assms(1) by auto
  moreover have "(if rm_n_cb cfg = 0 then length (drop (rm_punch cfg) coded) else rm_n_cb cfg) = ?n"
    by (simp add: rm_buf_def)
  ultimately show ?thesis
    using assms n by (simp add: rate_match_def punch_count_eq [OF assms(3)] start_offset_eq [OF n assms(3)] Let_def)
qed

section \<open>The loops of the recovery\<close>

lemma foldl_buf_add:
  assumes "length buf = n" "0 < n"
  shows "length (foldl (buf_add llr k0) buf is) = n \<and>
    (\<forall>j<n. foldl (buf_add llr k0) buf is ! j = buf ! j + (\<Sum>i\<leftarrow>is. if (k0 + i) mod n = j then llr ! i else 0))"
  using assms
proof (induction "is" arbitrary: buf)
  case (Cons i "is")
  then have l: "length (buf_add llr k0 buf i) = n" by (simp add: buf_add_def Let_def)
  have "buf_add llr k0 buf i ! j = buf ! j + (if (k0 + i) mod n = j then llr ! i else 0)" if "j < n" for j
    using that Cons.prems by (simp add: buf_add_def Let_def nth_list_update)
  with Cons.IH [OF l] Cons.prems(2) show ?case by (simp add: add.assoc)
qed simp

lemma foldl_buf_store:
  assumes "punch + m \<le> n_coded" "length full = n_coded" "k \<le> m" "m \<le> n_coded - punch"
  shows "length (foldl (buf_store buf punch n_coded) full [0..<k]) = n_coded \<and>
    (\<forall>j<n_coded. foldl (buf_store buf punch n_coded) full [0..<k] ! j =
       (if punch \<le> j \<and> j < punch + k then buf ! (j - punch) else full ! j))"
  using assms(3)
proof (induction k)
  case (Suc k)
  then have IH: "length (foldl (buf_store buf punch n_coded) full [0..<k]) = n_coded"
    "\<And>j. j < n_coded \<Longrightarrow> foldl (buf_store buf punch n_coded) full [0..<k] ! j =
       (if punch \<le> j \<and> j < punch + k then buf ! (j - punch) else full ! j)" by auto
  let ?F = "foldl (buf_store buf punch n_coded) full [0..<k]"
  have "k mod (n_coded - punch) = k" using Suc.prems assms(4) by simp
  then have step: "foldl (buf_store buf punch n_coded) full [0..<Suc k] = ?F[punch + k := buf ! k]"
    by (simp add: buf_store_def [where i = k])
  show ?case unfolding step
    using IH Suc.prems assms(1) by (auto simp: nth_list_update)
qed (use assms(2) in simp)

lemma rate_dematch_eq:
  assumes "rm_punch cfg < n_coded" "rm_buf cfg n_coded \<le> n_coded - rm_punch cfg"
    and "rm_small (rm_buf cfg n_coded) (rm_zc cfg)"
  shows "\<exists>full. rate_dematch llr cfg n_coded = Inr full \<and> length full = n_coded \<and>
    (\<forall>j<n_coded. full ! j =
       (if rm_punch cfg \<le> j \<and> j < rm_punch cfg + rm_buf cfg n_coded
        then \<Sum>i<length llr. if (rm_k0 cfg (rm_buf cfg n_coded) + i) mod rm_buf cfg n_coded = j - rm_punch cfg
                             then llr ! i else 0
        else 0))"
proof -
  let ?n = "rm_buf cfg n_coded" and ?p = "rm_punch cfg"
  have n: "0 < ?n" using assms(1) by (simp add: rm_buf_def)
  let ?k0 = "rm_k0 cfg ?n"
  let ?buf = "foldl (buf_add llr ?k0) (replicate ?n 0) [0..<length llr]"
  let ?full = "foldl (buf_store ?buf ?p n_coded) (replicate n_coded 0) [0..<?n]"
  have "(if rm_n_cb cfg = 0 then n_coded - ?p else rm_n_cb cfg) = ?n" by (simp add: rm_buf_def)
  then have eq: "rate_dematch llr cfg n_coded = Inr ?full"
    using assms(1) by (simp add: rate_dematch_def punch_count_eq [OF assms(3)] start_offset_eq [OF n assms(3)] Let_def)
  have b: "?buf ! j = (\<Sum>i<length llr. if (?k0 + i) mod ?n = j then llr ! i else 0)" if "j < ?n" for j
    using foldl_buf_add [of "replicate ?n 0" ?n llr ?k0 "[0..<length llr]"] n that
    by (simp add: interv_sum_list_conv_sum_set_nat lessThan_atLeast0)
  have "length ?full = n_coded \<and> (\<forall>j<n_coded. ?full ! j =
      (if ?p \<le> j \<and> j < ?p + ?n then ?buf ! (j - ?p) else replicate n_coded 0 ! j))"
    by (rule foldl_buf_store) (use assms in auto)
  with eq b show ?thesis by (intro exI [of _ ?full]) auto
qed

section \<open>Properties\<close>

lemma k0_mono:
  assumes "r \<le> s" "s < 4"
  shows "k0_spec n_cb zc bg r \<le> k0_spec n_cb zc bg s"
  using rv_coeffs_mono [OF assms, of bg]
  by (auto simp: k0_spec_def intro!: mult_le_mono1 div_le_mono)

text \<open>The redundancy versions start at increasing offsets, the first at 0, all of them multiples of
  the lifting size inside the circular buffer, and each is the floor formula of TS 38.212 Table
  5.4.2.1-2, for every buffer whose products fit an \<open>int\<close>.\<close>

theorem rv_k0_positions_ok:
  assumes "0 < zc" "0 < n_cb" "n_cb \<le> 2147483647 div 56" "zc \<le> 2147483647 div 66"
  shows "\<exists>ks. rv_k0_positions n_cb zc bg = Inr ks \<and> length ks = 4 \<and> sorted ks \<and> ks ! 0 = 0 \<and>
    list_all (\<lambda>k. k < n_cb \<and> nat zc dvd k) ks \<and>
    ks = map (\<lambda>r. nat (rv_coeffs bg ! r) * n_cb div (nat (rv_cols bg) * nat zc) * nat zc) [0..<4]"
proof (intro exI conjI)
  let ?ks = "map (k0_spec n_cb (nat zc) bg) [0..<4]"
  show "rv_k0_positions n_cb zc bg = Inr ?ks"
    using assms by (intro rv_k0_positions_eq) (simp_all add: rm_small_def)
  show "sorted ?ks" by (auto simp: sorted_iff_nth_mono intro: k0_mono)
  show "?ks ! 0 = 0" by (simp add: k0_spec_def rv_coeffs_def)
  show "list_all (\<lambda>k. k < n_cb \<and> nat zc dvd k) ?ks"
    using k0_less assms(2) by (auto simp: list_all_iff k0_spec_def)
qed (simp_all add: k0_spec_def)

theorem rv_k0_positions_ok_witness: "rv_k0_positions 600 12 BG2 = Inr [0, 156, 300, 516]"
  using rv_k0_positions_ok [of 12 600 BG2] by (auto simp: upt_rec rv_coeffs_def rv_cols_def)

text \<open>Bit selection. Output bit \<open>i\<close> is the bit of the punctured codeword at position
  \<open>(k0 + i) mod n_cb\<close> of the circular buffer (which repeats the codeword when it is longer), so
  \<open>rate_match\<close> succeeds whenever something is left after puncturing.\<close>

theorem rate_match_selects:
  assumes "rm_punch cfg < length coded" "0 < rm_e_bits cfg" "rm_small (rm_buf cfg (length coded)) (rm_zc cfg)"
  shows "rm_k0 cfg (rm_buf cfg (length coded)) < rm_buf cfg (length coded) \<and>
    rate_match coded cfg = Inr (map (\<lambda>i. drop (rm_punch cfg) coded !
      ((rm_k0 cfg (rm_buf cfg (length coded)) + i) mod rm_buf cfg (length coded) mod (length coded - rm_punch cfg)))
      [0..<rm_e_bits cfg])"
proof -
  have "0 < rm_buf cfg (length coded)" using assms(1) by (simp add: rm_buf_def)
  with start_offset_eq(2) [OF this assms(3)] show ?thesis
    using assms by (simp add: rate_match_eq)
qed

theorem rate_match_selects_witness:
  "rate_match [1, 0, 1, 1, 0, 0, 1, 0] (default_rm\<lparr>rm_e_bits := 5, rm_rv := 3\<rparr>) = Inr [1, 0, 1, 0, 1]"
  using rate_match_selects [of "default_rm\<lparr>rm_e_bits := 5, rm_rv := 3\<rparr>" "[1, 0, 1, 1, 0, 0, 1, 0]"]
  by (simp add: rm_punch_def rm_buf_def rm_k0_def rm_small_def default_rm_def rv_index_eq upt_rec)

text \<open>Recovery. When the circular buffer is not longer than the punctured codeword,
  \<open>rate_dematch\<close> adds up exactly the soft values that were selected from each position and leaves
  0 at the punctured positions and behind the buffer.\<close>

theorem rate_dematch_accumulates:
  assumes "rm_punch cfg < n_coded" "rm_buf cfg n_coded \<le> n_coded - rm_punch cfg"
    and "rm_small (rm_buf cfg n_coded) (rm_zc cfg)"
  shows "\<exists>full. rate_dematch llr cfg n_coded = Inr full \<and> length full = n_coded \<and>
    (\<forall>j<n_coded. full ! j =
       (if rm_punch cfg \<le> j \<and> j < rm_punch cfg + rm_buf cfg n_coded
        then \<Sum>i\<in>{i. i < length llr \<and>
               (rm_k0 cfg (rm_buf cfg n_coded) + i) mod rm_buf cfg n_coded = j - rm_punch cfg}. llr ! i
        else 0))"
proof -
  have "(\<Sum>i<length llr. if P i then llr ! i else 0) = (\<Sum>i\<in>{i. i < length llr \<and> P i}. llr ! i)" for P
    by (subst sum.inter_filter [symmetric]) (auto intro: sum.cong)
  then show ?thesis using rate_dematch_eq [OF assms, of llr] by (simp only:)
qed

theorem rate_dematch_accumulates_witness:
  "\<exists>full. rate_dematch (replicate 20 1) (default_rm\<lparr>rm_e_bits := 20\<rparr>) 8 = Inr full \<and> length full = 8"
  using rate_dematch_accumulates [of "default_rm\<lparr>rm_e_bits := 20\<rparr>" 8 "replicate 20 1"]
  by (auto simp: rm_punch_def rm_buf_def rm_small_def default_rm_def)

text \<open>Rate matching keeps vectors of bits.\<close>

lemma bits_rate_match:
  assumes "bits_ok coded" "rate_match coded cfg = Inr x"
  shows "bits_ok x"
proof -
  define B where "B punch n = map (\<lambda>i. drop punch coded ! (i mod length (drop punch coded))) [0..<n]" for punch n
  have "\<exists>punch n k0. punch < length coded \<and> 0 < n \<and> x = map (\<lambda>i. B punch n ! ((k0 + i) mod n)) [0..<rm_e_bits cfg]"
    using assms(2) unfolding rate_match_def Let_def B_def [symmetric]
    apply (auto simp: punch_count_def and_then_Inr_iff split: if_splits)
    subgoal for d k0 by (intro exI [of _ "nat d"] conjI exI [of _ "length coded - nat d"] exI [of _ k0]) auto
    done
  then obtain punch n k0 where n: "punch < length coded" "0 < n" and x: "x = map (\<lambda>i. B punch n ! ((k0 + i) mod n)) [0..<rm_e_bits cfg]"
    by blast
  have "is_bit (drop punch coded ! (i mod length (drop punch coded)))" for i
    using bits_ok_nth [OF bits_ok_drop [OF assms(1)], of "i mod length (drop punch coded)" punch] n(1) by simp
  then show ?thesis using n(2) by (simp add: x B_def bits_ok_iff_nth)
qed

text \<open>The positions of the codeword that a transmission carries.\<close>

definition rm_covers :: "rate_match_config \<Rightarrow> nat \<Rightarrow> nat \<Rightarrow> bool" where
  "rm_covers cfg n j \<longleftrightarrow> rm_punch cfg \<le> j \<and> j < rm_punch cfg + rm_buf cfg n \<and>
     list_ex (\<lambda>i. (rm_k0 cfg (rm_buf cfg n) + i) mod rm_buf cfg n = j - rm_punch cfg) [0..<rm_e_bits cfg]"

text \<open>A soft value with the sign of bit \<open>b\<close>.\<close>

definition signed_as :: "u8 \<Rightarrow> real \<Rightarrow> bool" where
  "signed_as b x \<longleftrightarrow> (if b = 0 then 0 < x else x < 0)"

lemma signed_sum:
  assumes "finite A" "\<And>i. i \<in> A \<Longrightarrow> signed_as b (f i)"
  shows "if A = {} then sum f A = 0 else signed_as b (sum f A)"
  using assms sum_pos [of A f] sum_pos [of A "\<lambda>i. - f i"] by (auto simp: signed_as_def sum_negf)

text \<open>Soft values that carry the bits of \<open>cw\<close> at the positions \<open>C\<close> and nothing elsewhere.\<close>

definition carries :: "bitvec \<Rightarrow> (nat \<Rightarrow> bool) \<Rightarrow> softvec \<Rightarrow> bool" where
  "carries cw C llr \<longleftrightarrow> length llr = length cw \<and>
     (\<forall>j<length cw. if C j then signed_as (cw ! j) (llr ! j) else llr ! j = 0)"

lemma carries_add:
  assumes "carries cw C a" "carries cw D b"
  shows "carries cw (\<lambda>j. C j \<or> D j) (vec_add a b)"
  unfolding carries_def
proof (intro conjI allI impI)
  fix j assume j: "j < length cw"
  have add: "signed_as c x \<Longrightarrow> signed_as c y \<or> y = 0 \<Longrightarrow> signed_as c (x + y)" "signed_as c y \<Longrightarrow> signed_as c x \<or> x = 0 \<Longrightarrow> signed_as c (x + y)" for c x y
    by (auto simp: signed_as_def split: if_splits)
  have "if C j then signed_as (cw ! j) (a ! j) else a ! j = 0" "if D j then signed_as (cw ! j) (b ! j) else b ! j = 0" "j < length a"
    using assms j by (simp_all add: carries_def)
  then show "if C j \<or> D j then signed_as (cw ! j) (vec_add a b ! j) else vec_add a b ! j = 0"
    using add by (simp split: if_splits)
qed (use assms in \<open>simp add: carries_def\<close>)

lemma carriesD:
  assumes "carries cw C llr" "j < length cw"
  shows "llr ! j = 0 \<or> (0 < llr ! j \<longleftrightarrow> cw ! j = 0)" "C j \<Longrightarrow> llr ! j \<noteq> 0"
proof -
  have "if C j then signed_as (cw ! j) (llr ! j) else llr ! j = 0" using assms by (simp add: carries_def)
  then show "llr ! j = 0 \<or> (0 < llr ! j \<longleftrightarrow> cw ! j = 0)" "C j \<Longrightarrow> llr ! j \<noteq> 0"
    by (auto simp: signed_as_def split: if_splits)
qed

lemma carries_all:
  assumes "bits_ok cw" "carries cw C llr" "\<And>j. j < length cw \<Longrightarrow> C j"
  shows "llr_to_bits llr = cw"
proof (rule nth_equalityI)
  fix j assume "j < length (llr_to_bits llr)"
  then have j: "j < length cw" "j < length llr" using assms(2) by (simp_all add: carries_def)
  then have "signed_as (cw ! j) (llr ! j)" "is_bit (cw ! j)"
    using assms bits_ok_nth [OF assms(1) j(1)] by (auto simp: carries_def)
  then show "llr_to_bits llr ! j = cw ! j" using j by (auto simp: signed_as_def is_bit_def split: if_splits)
qed (use assms(2) in \<open>simp add: carries_def\<close>)

text \<open>What the receiver recovers from soft values with the signs of the sent bits.\<close>

lemma rate_match_signed:
  assumes "rm_punch cfg < length coded" "rm_buf cfg (length coded) \<le> length coded - rm_punch cfg"
    and "rm_small (rm_buf cfg (length coded)) (rm_zc cfg)" "rate_match coded cfg = Inr e" "list_all2 signed_as e llr"
  shows "\<exists>full. rate_dematch llr cfg (length coded) = Inr full \<and> carries coded (rm_covers cfg (length coded)) full"
proof -
  let ?p = "rm_punch cfg" and ?n = "rm_buf cfg (length coded)"
  let ?pos = "\<lambda>i. (rm_k0 cfg ?n + i) mod ?n"
  have n: "0 < ?n" "?p + ?n \<le> length coded" using assms(1,2) by (simp_all add: rm_buf_def)
  have E: "0 < rm_e_bits cfg" using assms(4) by (auto simp: rate_match_def split: if_splits)
  have pos: "?pos i < ?n" for i using n(1) by simp
  have e: "e = map (\<lambda>i. coded ! (?p + ?pos i)) [0..<rm_e_bits cfg]"
    using rate_match_eq [OF assms(1) E assms(3)] assms(4) order_less_le_trans [OF pos assms(2)] by simp
  have llr: "length llr = rm_e_bits cfg" "\<And>i. i < rm_e_bits cfg \<Longrightarrow> signed_as (coded ! (?p + ?pos i)) (llr ! i)"
    using assms(5) by (auto simp: e list_all2_conv_all_nth)
  obtain full where f: "rate_dematch llr cfg (length coded) = Inr full" "length full = length coded"
    "\<And>j. j < length coded \<Longrightarrow> full ! j = (if ?p \<le> j \<and> j < ?p + ?n
        then \<Sum>i<length llr. if ?pos i = j - ?p then llr ! i else 0 else 0)"
    using rate_dematch_eq [OF assms(1-3), of llr] by auto
  have "if rm_covers cfg (length coded) j then signed_as (coded ! j) (full ! j) else full ! j = 0" if j: "j < length coded" for j
  proof (cases "?p \<le> j \<and> j < ?p + ?n")
    case True
    let ?A = "{i. i < rm_e_bits cfg \<and> ?pos i = j - ?p}"
    have "full ! j = (\<Sum>i\<in>?A. llr ! i)"
      unfolding f(3) [OF j] using True by (simp add: llr(1) sum.If_cases lessThan_def Int_def)
    moreover have "signed_as (coded ! j) (llr ! i)" if "i \<in> ?A" for i using llr(2) [of i] that True by simp
    moreover have "rm_covers cfg (length coded) j \<longleftrightarrow> ?A \<noteq> {}" using True by (auto simp: rm_covers_def list_ex_iff)
    ultimately show ?thesis using signed_sum [of ?A "coded ! j" "\<lambda>i. llr ! i"] by auto
  next
    case False
    then show ?thesis using f(3) [OF j] by (auto simp: rm_covers_def)
  qed
  with f(1,2) show ?thesis unfolding carries_def by blast
qed

lemma rm_covers_all:
  assumes "rm_buf cfg n \<le> rm_e_bits cfg" "rm_punch cfg \<le> j" "j < rm_punch cfg + rm_buf cfg n"
  shows "rm_covers cfg n j"
proof -
  have "j - rm_punch cfg < rm_buf cfg n" using assms(2,3) by linarith
  then show ?thesis using mod_surj [OF _ assms(1), of "j - rm_punch cfg" "rm_k0 cfg (rm_buf cfg n)"] assms(2,3)
    by (auto simp: rm_covers_def list_ex_iff)
qed

lemma rate_match_length: "rate_match coded cfg = Inr e \<Longrightarrow> length e = rm_e_bits cfg"
  by (auto simp: rate_match_def Let_def and_then_Inr_iff split: if_splits)

lemma signed_llr: "bits_ok e \<Longrightarrow> 0 < m \<Longrightarrow> list_all2 signed_as e (map (\<lambda>b. if b = 0 then m else - m) e)"
  by (simp add: list_all2_conv_all_nth signed_as_def)

text \<open>How often a transmission carries position \<open>j\<close> of the codeword.\<close>

definition copies :: "rate_match_config \<Rightarrow> nat \<Rightarrow> nat \<Rightarrow> nat" where
  "copies cfg n j =
     (if rm_punch cfg \<le> j \<and> j < rm_punch cfg + rm_buf cfg n
      then length (filter (\<lambda>i. (rm_k0 cfg (rm_buf cfg n) + i) mod rm_buf cfg n = j - rm_punch cfg) [0..<rm_e_bits cfg]) else 0)"

lemma copies_pos: "rm_covers cfg n j \<Longrightarrow> 0 < copies cfg n j"
  by (auto simp: rm_covers_def copies_def list_ex_iff filter_empty_conv)

lemma sum_copies: "(\<Sum>i<n. if P i then c else 0) = real (length (filter P [0..<n])) * c"
  by (induction n) (simp_all add: distrib_right)

text \<open>The exact soft values after the recovery: every position adds up its copies.\<close>

lemma rate_match_adds:
  assumes "bits_ok coded" "rm_punch cfg < length coded" "rm_buf cfg (length coded) \<le> length coded - rm_punch cfg"
    and "rm_small (rm_buf cfg (length coded)) (rm_zc cfg)" "0 < rm_e_bits cfg"
  shows "\<exists>e llr full. rate_match coded cfg = Inr e \<and> length e = rm_e_bits cfg \<and> bits_to_llr e m = Inr llr \<and>
    rate_dematch llr cfg (length coded) = Inr full \<and> length full = length coded \<and>
    (\<forall>j<length coded. full ! j = real (copies cfg (length coded) j) * (if coded ! j = 0 then m else - m))"
proof -
  let ?p = "rm_punch cfg" and ?n = "rm_buf cfg (length coded)" and ?v = "\<lambda>j. if coded ! j = 0 then m else - m"
  let ?pos = "\<lambda>i. (rm_k0 cfg ?n + i) mod ?n"
  have n: "0 < ?n" using assms(2) by (simp add: rm_buf_def)
  have pos: "?pos i < length coded - ?p" for i by (rule order_less_le_trans [OF _ assms(3)]) (simp add: n)
  define e where "e = map (\<lambda>i. coded ! (?p + ?pos i)) [0..<rm_e_bits cfg]"
  have e: "rate_match coded cfg = Inr e" using rate_match_eq [OF assms(2,5,4)] pos by (simp add: e_def)
  define llr where "llr = map (\<lambda>b. if b = 0 then m else - m) e"
  have llr: "bits_to_llr e m = Inr llr" using bits_to_llr_eq [OF bits_rate_match [OF assms(1) e]] by (simp add: llr_def)
  have l: "length llr = rm_e_bits cfg" "\<And>i. i < rm_e_bits cfg \<Longrightarrow> llr ! i = ?v (?p + ?pos i)" by (simp_all add: llr_def e_def)
  obtain full where f: "rate_dematch llr cfg (length coded) = Inr full" "length full = length coded"
    "\<And>j. j < length coded \<Longrightarrow> full ! j = (if ?p \<le> j \<and> j < ?p + ?n
        then \<Sum>i<length llr. if ?pos i = j - ?p then llr ! i else 0 else 0)"
    using rate_dematch_eq [OF assms(2-4), of llr] by auto
  have "full ! j = real (copies cfg (length coded) j) * ?v j" if j: "j < length coded" for j
  proof (cases "?p \<le> j \<and> j < ?p + ?n")
    case True
    have "(\<Sum>i<rm_e_bits cfg. if ?pos i = j - ?p then llr ! i else 0) = (\<Sum>i<rm_e_bits cfg. if ?pos i = j - ?p then ?v j else 0)"
      by (rule sum.cong) (use True in \<open>simp_all add: l(2)\<close>)
    then show ?thesis using True unfolding f(3) [OF j] l(1) by (simp only: sum_copies copies_def if_True simp_thms)
  next
    case False
    show ?thesis unfolding f(3) [OF j] copies_def if_not_P [OF False] by simp
  qed
  moreover have "length e = rm_e_bits cfg" by (simp add: e_def)
  ultimately show ?thesis using e llr f(1,2) by blast
qed

lemma copies_decide:
  assumes "bits_ok coded" "length full = length coded" "rm_punch cfg < length coded" "0 < m"
    and "rm_buf cfg (length coded) = length coded - rm_punch cfg" "rm_buf cfg (length coded) \<le> rm_e_bits cfg"
    and "\<And>j. j < length coded \<Longrightarrow> full ! j = real (copies cfg (length coded) j) * (if coded ! j = 0 then m else - m)"
  shows "llr_to_bits full = replicate (rm_punch cfg) 0 @ drop (rm_punch cfg) coded"
proof -
  let ?p = "rm_punch cfg"
  have "llr_to_bits full ! j = (replicate ?p 0 @ drop ?p coded) ! j" if j: "j < length coded" for j
  proof (cases "?p \<le> j")
    case True
    have "0 < copies cfg (length coded) j" using True j assms(3,5) by (intro copies_pos rm_covers_all [OF assms(6)]) simp_all
    then have "0 < real (copies cfg (length coded) j) * m" using assms(4) by simp
    then have "signed_as (coded ! j) (full ! j)" unfolding assms(7) [OF j] by (simp add: signed_as_def)
    then show ?thesis
      using j True assms(2) bits_ok_nth [OF assms(1) j] by (auto simp: nth_append is_bit_def signed_as_def split: if_splits)
  next
    case False
    then show ?thesis using j assms(2,7) by (simp add: nth_append copies_def)
  qed
  then show ?thesis using assms(2,3) by (intro nth_equalityI) simp_all
qed

text \<open>C17: round trip, with the exact soft values. For a circular buffer no longer than the (punctured) codeword,
  whatever the redundancy version and the number of bits sent (less or
  more than the buffer), after the recovery position \<open>j\<close> holds as many times the soft value of its bit as the
  transmission carried copies of it, so a position that was not carried, punctured or behind the buffer, holds zero.
  If a full turn of the whole buffer is sent and the magnitude is positive, the hard decisions are the codeword, with zeros at the
  punctured positions.\<close>

theorem rate_match_roundtrip:
  assumes "bits_ok coded" "rm_punch cfg < length coded" "rm_buf cfg (length coded) \<le> length coded - rm_punch cfg"
    and "rm_small (rm_buf cfg (length coded)) (rm_zc cfg)" "0 < rm_e_bits cfg"
  shows "\<exists>e llr full. rate_match coded cfg = Inr e \<and> length e = rm_e_bits cfg \<and> bits_to_llr e m = Inr llr \<and>
    rate_dematch llr cfg (length coded) = Inr full \<and> length full = length coded \<and>
    (\<forall>j<length coded. full ! j = real (copies cfg (length coded) j) * (if coded ! j = 0 then m else - m)) \<and>
    (0 < m \<and> rm_buf cfg (length coded) = length coded - rm_punch cfg \<and> rm_buf cfg (length coded) \<le> rm_e_bits cfg \<longrightarrow>
       llr_to_bits full = replicate (rm_punch cfg) 0 @ drop (rm_punch cfg) coded)"
proof -
  obtain e llr full where r: "rate_match coded cfg = Inr e" "length e = rm_e_bits cfg" "bits_to_llr e m = Inr llr"
    "rate_dematch llr cfg (length coded) = Inr full" "length full = length coded"
    and v: "\<And>j. j < length coded \<Longrightarrow> full ! j = real (copies cfg (length coded) j) * (if coded ! j = 0 then m else - m)"
    using rate_match_adds [OF assms] by blast
  have "llr_to_bits full = replicate (rm_punch cfg) 0 @ drop (rm_punch cfg) coded"
    if "0 < m" "rm_buf cfg (length coded) = length coded - rm_punch cfg" "rm_buf cfg (length coded) \<le> rm_e_bits cfg"
    using copies_decide [OF assms(1) r(5) assms(2) that v] by blast
  with r v show ?thesis by blast
qed

text \<open>Five bits of eight from the offset of version 2, with positive values 3: the offset is 4, so the last four bits come
  first and bit 0 after them; the other three positions hold zero.\<close>

theorem rate_match_roundtrip_witness:
  "\<exists>e llr. rate_match [1, 0, 1, 1, 0, 0, 1, 0] (default_rm\<lparr>rm_e_bits := 5, rm_rv := 2\<rparr>) = Inr e \<and> bits_to_llr e 3 = Inr llr \<and>
     rate_dematch llr (default_rm\<lparr>rm_e_bits := 5, rm_rv := 2\<rparr>) 8 = Inr [- 3, 0, 0, 0, 3, 3, - 3, 3]"
proof -
  let ?cfg = "default_rm\<lparr>rm_e_bits := 5, rm_rv := 2\<rparr>" and ?coded = "[1, 0, 1, 1, 0, 0, 1, 0] :: bitvec"
  have n: "length ?coded = 8" by simp
  have cfg: "rm_punch ?cfg = 0" "rm_buf ?cfg 8 = 8" "rm_k0 ?cfg 8 = 4" "rm_e_bits ?cfg = 5" "rm_zc ?cfg = 0"
    by (simp_all add: rm_punch_def rm_buf_def rm_k0_def default_rm_def rv_index_eq)
  have "bits_ok ?coded" "rm_punch ?cfg < 8" "rm_buf ?cfg 8 \<le> 8 - rm_punch ?cfg" "rm_small (rm_buf ?cfg 8) (rm_zc ?cfg)" "0 < rm_e_bits ?cfg"
    unfolding cfg by (simp_all add: rm_small_def)
  from rate_match_roundtrip [of ?coded ?cfg 3, unfolded n, OF this] obtain e llr full where
    r: "rate_match ?coded ?cfg = Inr e" "bits_to_llr e 3 = Inr llr" "rate_dematch llr ?cfg 8 = Inr full" "length full = 8"
    and v: "\<forall>j<8. full ! j = real (copies ?cfg 8 j) * (if ?coded ! j = 0 then 3 else - 3)" by blast
  have c: "map (copies ?cfg 8) [0..<8] = [1, 0, 0, 0, 1, 1, 1, 1]" by (simp add: copies_def cfg upt_rec)
  have "full = map (\<lambda>j. real (copies ?cfg 8 j) * (if ?coded ! j = 0 then 3 else - 3)) [0..<8]"
    using r(4) v by (intro nth_equalityI) simp_all
  also have "\<dots> = map (\<lambda>(k, b). real k * (if b = 0 then 3 else - 3)) (zip (map (copies ?cfg 8) [0..<8]) ?coded)"
    by (rule nth_equalityI) simp_all
  also have "\<dots> = [- 3, 0, 0, 0, 3, 3, - 3, 3]" unfolding c by simp
  finally show ?thesis using r(1-3) by blast
qed

text \<open>With a circular buffer longer than the codeword the recovery does not combine the
  repetitions: the second copy overwrites the first (here it discards the soft values 5 and 7).\<close>

theorem rate_dematch_long_buffer:
  "rate_dematch [5, 7, 1, -1] (default_rm\<lparr>rm_n_cb := 4\<rparr>) 2 = Inr [1, -1]"
  by (simp add: rate_dematch_def punch_count_def start_offset_def default_rm_def rv_index_eq buf_add_def
      buf_store_def upt_rec Let_def) (simp add: eval_nat_numeral)

end
