(* ===== verification/Harq.thy ===== *)
theory Harq
  imports CInt Llr "HOL-Library.Mapping"
begin

text \<open>
  \<open>include/nr_bb/harq.hpp\<close> and \<open>src/harq.cpp\<close>: the soft buffers of the HARQ processes. The
  \<open>std::unordered_map\<close> is a \<open>mapping\<close>. The operations of a client are a list of \<open>harq_op\<close>, run by
  \<open>harq_run\<close>; what the buffer of a process holds after an interleaving with other processes follows
  from the contract \<open>soft_combining\<close> of theory \<open>Llr\<close>.
\<close>

section \<open>The code\<close>

record harq_process =
  hp_id :: u32
  hp_ndi :: int
  hp_soft :: softvec
  hp_rv :: int
  hp_tx :: int

type_synonym harq_buffer = "(u32, harq_process) mapping"

definition upsert :: "harq_buffer \<Rightarrow> u32 \<Rightarrow> int \<Rightarrow> softvec \<Rightarrow> int \<Rightarrow> harq_buffer result" where
  "upsert procs pid ndi llr rv =
     (let fresh = Inr (Mapping.update pid \<lparr>hp_id = pid, hp_ndi = ndi, hp_soft = llr, hp_rv = rv, hp_tx = 1\<rparr> procs)
      in case Mapping.lookup procs pid of
        None \<Rightarrow> fresh
      | Some p \<Rightarrow>
          if hp_ndi p \<noteq> ndi then fresh
          else and_then (require (length (hp_soft p) = length llr) ''HARQ LLR size mismatch'') (\<lambda>_.
               and_then (llr_combine (hp_soft p) llr) (\<lambda>soft.
               and_then (int_op (hp_tx p + 1)) (\<lambda>tx.
               Inr (Mapping.update pid (p\<lparr>hp_soft := soft, hp_rv := rv, hp_tx := tx\<rparr>) procs)))))"

definition harq_get :: "harq_buffer \<Rightarrow> u32 \<Rightarrow> softvec option" where
  "harq_get procs pid = (case Mapping.lookup procs pid of None \<Rightarrow> None | Some p \<Rightarrow> Some (hp_soft p))"

definition harq_clear :: "harq_buffer \<Rightarrow> u32 \<Rightarrow> harq_buffer" where
  "harq_clear procs pid = Mapping.delete pid procs"

definition harq_size :: "harq_buffer \<Rightarrow> nat" where
  "harq_size procs = Mapping.size procs"

section \<open>Runs of a client\<close>

datatype harq_op = Upsert u32 int softvec int | Clear u32

fun harq_step :: "harq_buffer \<Rightarrow> harq_op \<Rightarrow> harq_buffer result" where
  "harq_step b (Upsert pid ndi llr rv) = upsert b pid ndi llr rv"
| "harq_step b (Clear pid) = Inr (harq_clear b pid)"

fun harq_run :: "harq_buffer \<Rightarrow> harq_op list \<Rightarrow> harq_buffer result" where
  "harq_run b [] = Inr b"
| "harq_run b (op # ops) = and_then (harq_step b op) (\<lambda>b'. harq_run b' ops)"

fun op_pid :: "harq_op \<Rightarrow> u32" where
  "op_pid (Upsert pid ndi llr rv) = pid"
| "op_pid (Clear pid) = pid"

definition retransmission :: "u32 \<Rightarrow> int \<Rightarrow> nat \<Rightarrow> harq_op \<Rightarrow> bool" where
  "retransmission pid ndi n op \<longleftrightarrow>
     (op_pid op = pid \<longrightarrow> (\<exists>llr rv. op = Upsert pid ndi llr rv \<and> length llr = n))"

fun llr_of :: "harq_op \<Rightarrow> softvec" where
  "llr_of (Upsert pid ndi llr rv) = llr"
| "llr_of (Clear pid) = []"

definition received :: "u32 \<Rightarrow> harq_op list \<Rightarrow> softvec list" where
  "received pid ops = map llr_of (filter (\<lambda>op. op_pid op = pid) ops)"

lemma upsert_fresh:
  assumes "\<And>p. Mapping.lookup b pid = Some p \<Longrightarrow> hp_ndi p \<noteq> ndi"
  shows "upsert b pid ndi llr rv =
    Inr (Mapping.update pid \<lparr>hp_id = pid, hp_ndi = ndi, hp_soft = llr, hp_rv = rv, hp_tx = 1\<rparr> b)"
  using assms by (auto simp: upsert_def Let_def split: option.splits)

lemma upsert_again:
  assumes "Mapping.lookup b pid = Some p" "hp_ndi p = ndi" "upsert b pid ndi llr rv = Inr b'"
  shows "length (hp_soft p) = length llr" "int_ok (hp_tx p + 1)"
    "b' = Mapping.update pid (p\<lparr>hp_soft := vec_add (hp_soft p) llr, hp_rv := rv, hp_tx := hp_tx p + 1\<rparr>) b"
  using assms by (auto simp: upsert_def Let_def llr_combine_def int_op_Inr_iff and_then_Inr_iff split: if_splits)

lemma harq_step_frame:
  assumes "harq_step b op = Inr b'" "op_pid op \<noteq> pid"
  shows "Mapping.lookup b' pid = Mapping.lookup b pid"
  using assms
  by (cases op) (auto simp: upsert_def Let_def harq_clear_def and_then_Inr_iff lookup_update_neq lookup_delete_neq
      split: option.splits if_splits)

lemma harq_run_frame:
  assumes "harq_run b ops = Inr b'" "\<And>op. op \<in> set ops \<Longrightarrow> op_pid op \<noteq> pid"
  shows "Mapping.lookup b' pid = Mapping.lookup b pid"
  using assms by (induction ops arbitrary: b) (auto simp: and_then_Inr_iff harq_step_frame)

lemma harq_run_process:
  assumes "harq_run b ops = Inr b'" "Mapping.lookup b pid = Some p" "hp_ndi p = ndi"
    and "\<And>op. op \<in> set ops \<Longrightarrow> retransmission pid ndi (length (hp_soft p)) op"
  shows "\<exists>q. Mapping.lookup b' pid = Some q \<and> hp_ndi q = ndi \<and> hp_soft q = foldl vec_add (hp_soft p) (received pid ops) \<and>
    hp_tx q = hp_tx p + int (length (received pid ops))"
  using assms
proof (induction ops arbitrary: b p)
  case (Cons op ops)
  from Cons.prems(1) obtain b1 where b1: "harq_step b op = Inr b1" "harq_run b1 ops = Inr b'"
    by (auto simp: and_then_Inr_iff)
  show ?case
  proof (cases "op_pid op = pid")
    case True
    with Cons.prems(4) [of op] obtain llr rv where op: "op = Upsert pid ndi llr rv" "length llr = length (hp_soft p)"
      by (auto simp: retransmission_def)
    let ?p = "p\<lparr>hp_soft := vec_add (hp_soft p) llr, hp_rv := rv, hp_tx := hp_tx p + 1\<rparr>"
    have "b1 = Mapping.update pid ?p b"
      using upsert_again(3) [OF Cons.prems(2,3)] b1(1) op by simp
    then have "Mapping.lookup b1 pid = Some ?p" by simp
    from Cons.IH [OF b1(2) this] Cons.prems(3,4) True op show ?thesis
      by (simp add: received_def add.assoc)
  next
    case False
    with harq_step_frame [OF b1(1) False] Cons.IH [OF b1(2), of p] Cons.prems show ?thesis
      by (simp add: received_def)
  qed
qed (simp add: received_def)

text \<open>Receptions of one process that start a transmission and repeat it are all accepted.\<close>

lemma harq_repeats:
  assumes "Mapping.lookup b pid = Some p" "hp_ndi p = ndi" "\<And>x. x \<in> set xs \<Longrightarrow> length (fst x) = length (hp_soft p)"
    and "0 \<le> hp_tx p" "hp_tx p + int (length xs) \<le> 2147483647"
  shows "\<exists>b'. harq_run b (map (\<lambda>(llr, rv). Upsert pid ndi llr rv) xs) = Inr b'"
  using assms
proof (induction xs arbitrary: b p)
  case (Cons x xs)
  obtain llr rv where x: "x = (llr, rv)" by fastforce
  let ?p = "p\<lparr>hp_soft := vec_add (hp_soft p) llr, hp_rv := rv, hp_tx := hp_tx p + 1\<rparr>"
  have "length llr = length (hp_soft p)" "int_ok (hp_tx p + 1)" using Cons.prems(3) [of x] Cons.prems(4,5) by (simp_all add: x int_ok_def)
  then have "upsert b pid ndi llr rv = Inr (Mapping.update pid ?p b)"
    using Cons.prems(1,2) by (simp add: upsert_def Let_def llr_combine_def)
  then show ?case using Cons.IH [of "Mapping.update pid ?p b" ?p] Cons.prems by (simp add: x)
qed simp

lemma harq_receives:
  assumes "\<And>p. Mapping.lookup b pid = Some p \<Longrightarrow> hp_ndi p \<noteq> ndi" "\<And>x. x \<in> set xs \<Longrightarrow> length (fst x) = length llr"
    and "length xs < 2147483647"
  shows "\<exists>b'. harq_run b (map (\<lambda>(llr, rv). Upsert pid ndi llr rv) ((llr, rv) # xs)) = Inr b' \<and>
    harq_get b' pid = Some (foldl vec_add llr (map fst xs))"
proof -
  let ?p = "\<lparr>hp_id = pid, hp_ndi = ndi, hp_soft = llr, hp_rv = rv, hp_tx = 1\<rparr>"
  let ?b = "Mapping.update pid ?p b" and ?ops = "map (\<lambda>(llr, rv). Upsert pid ndi llr rv) xs"
  obtain b' where b': "harq_run ?b ?ops = Inr b'" using harq_repeats [of ?b pid ?p ndi xs] assms(2,3) by auto
  have "received pid ?ops = map fst xs" by (induction xs) (auto simp: received_def)
  moreover have "retransmission pid ndi (length llr) op" if "op \<in> set ?ops" for op
    using that assms(2) by (force simp: retransmission_def)
  ultimately have "harq_get b' pid = Some (foldl vec_add llr (map fst xs))"
    using harq_run_process [OF b', of pid ?p ndi] by (auto simp: harq_get_def)
  then show ?thesis using b' upsert_fresh [OF assms(1), of b pid llr rv] by simp
qed

section \<open>Properties\<close>

text \<open>C25: Chase combining under interleaving. From the reception that starts a new transmission of a
  process (unknown process or toggled NDI), whatever happens to other processes and however many
  retransmissions with the same NDI follow, the soft buffer is the sum of all receptions of that
  process, in any order of the retransmissions.\<close>

theorem harq_chase_combining:
  assumes "harq_run b (Upsert pid ndi llr rv # ops) = Inr b'"
    and "\<And>p. Mapping.lookup b pid = Some p \<Longrightarrow> hp_ndi p \<noteq> ndi"
    and "\<And>op. op \<in> set ops \<Longrightarrow> retransmission pid ndi (length llr) op"
    and "mset perm = mset (received pid ops)"
  shows "harq_get b' pid = Some (foldl vec_add llr perm)"
proof -
  let ?p = "\<lparr>hp_id = pid, hp_ndi = ndi, hp_soft = llr, hp_rv = rv, hp_tx = 1\<rparr>"
  have b1: "harq_run (Mapping.update pid ?p b) ops = Inr b'"
    using assms(1) upsert_fresh [OF assms(2)] by simp
  have "harq_get b' pid = Some (foldl vec_add llr (received pid ops))"
    using harq_run_process [OF b1, of pid ?p ndi] assms(3) by (auto simp: harq_get_def)
  moreover have "length x = length llr" if "x \<in> set perm" for x
  proof -
    from that assms(4) have "x \<in> set (received pid ops)" by (metis mset_eq_setD)
    then obtain op where "op \<in> set ops" "op_pid op = pid" "x = llr_of op" by (auto simp: received_def)
    with assms(3) [of op] show ?thesis unfolding retransmission_def by (metis llr_of.simps(1))
  qed
  ultimately show ?thesis using llr.foldl_comb_perm [OF assms(4), of llr] by simp
qed

theorem harq_chase_combining_witness:
  "\<exists>b'. harq_run Mapping.empty [Upsert 1 0 [1, -1] 0, Upsert 2 0 [9, 9] 0, Upsert 1 0 [3, 5] 2] = Inr b' \<and>
     harq_get b' 1 = Some (foldl vec_add [1, -1] [[3, 5]])"
proof -
  let ?ops = "[Upsert 2 0 [9, 9] 0, Upsert 1 0 [3, 5] 2]"
  have "\<exists>b'. harq_run Mapping.empty (Upsert 1 0 [1, -1] 0 # ?ops) = Inr b'"
    by (simp add: upsert_def llr_combine_def int_ok_def lookup_update' Mapping.lookup_empty)
  then obtain b' where r: "harq_run Mapping.empty (Upsert 1 0 [1, -1] 0 # ?ops) = Inr b'" by blast
  have "harq_get b' 1 = Some (foldl vec_add [1, -1] [[3, 5]])"
    by (rule harq_chase_combining [OF r])
      (auto simp: Mapping.lookup_empty retransmission_def received_def)
  with r show ?thesis by blast
qed

text \<open>Isolation. Operations on other processes never change what a process holds, and clearing or a
  toggled NDI forgets the past: the buffer then is the newest reception alone.\<close>

theorem harq_isolation:
  assumes "harq_run b ops = Inr b'" "list_all (\<lambda>op. op_pid op \<noteq> pid) ops"
  shows "harq_get b' pid = harq_get b pid \<and> harq_get (harq_clear b' pid) pid = None \<and>
    (\<exists>b''. upsert (harq_clear b' pid) pid ndi llr rv = Inr b'' \<and> harq_get b'' pid = Some llr)"
  using harq_run_frame [OF assms(1), of pid] assms(2)
  by (auto simp: harq_get_def harq_clear_def upsert_def Let_def list_all_iff)

theorem harq_isolation_witness:
  "\<exists>b'. harq_run Mapping.empty [Upsert 2 0 [9] 0, Clear 3] = Inr b' \<and> harq_get b' 1 = harq_get Mapping.empty 1"
proof -
  obtain b' where r: "harq_run Mapping.empty [Upsert 2 0 [9] 0, Clear 3] = Inr b'"
    by (simp add: upsert_def Mapping.lookup_empty)
  with harq_isolation [OF r, of 1] show ?thesis by simp
qed

end
