(* ===== verification/Scrambling.thy ===== *)
theory Scrambling
  imports Prelude
begin

text \<open>
  \<open>include/nr_bb/scrambling.hpp\<close> and \<open>src/scrambling.cpp\<close>: the Gold sequence from two 31-bit
  shift registers and the xor scrambling with it. The loop fills two vectors in place; the model
  updates two lists the same way. The abstract specification is the pair of recurrences of
  TS 38.211, 5.2.1 (\<open>x1_seq\<close>, \<open>x2_seq\<close>). The locale \<open>keystream\<close> is what a scrambler needs of
  its sequence generator; it is interpreted on \<open>gold_sequence\<close>.
\<close>

section \<open>The code\<close>

definition gold_init :: "nat \<Rightarrow> u32 \<Rightarrow> bitvec \<times> bitvec" where
  "gold_init tot c_init =
     ((replicate (tot + 31) 0)[0 := 1],
      foldl (\<lambda>X2 i. X2[i := ucast (drop_bit i c_init AND 1)]) (replicate (tot + 31) 0) [0..<31])"

definition gold_step :: "bitvec \<times> bitvec \<Rightarrow> nat \<Rightarrow> bitvec \<times> bitvec" where
  "gold_step X n =
     (case X of (X1, X2) \<Rightarrow>
        (X1[n + 31 := X1 ! (n + 3) XOR X1 ! n],
         X2[n + 31 := X2 ! (n + 3) XOR X2 ! (n + 2) XOR X2 ! (n + 1) XOR X2 ! n]))"

definition gold_sequence :: "nat \<Rightarrow> u32 \<Rightarrow> bitvec" where
  "gold_sequence len c_init =
     (let Nc = 1600; tot = Nc + len;
          X = foldl gold_step (gold_init tot c_init) [0..<tot]
      in map (\<lambda>n. fst X ! (n + Nc) XOR snd X ! (n + Nc)) [0..<len])"

definition scramble :: "bitvec \<Rightarrow> u32 \<Rightarrow> bitvec result" where
  "scramble bits c_init =
     (let c = gold_sequence (length bits) c_init in
      mapE (\<lambda>i. and_then (require (bits ! i = 0 \<or> bits ! i = 1) ''scramble bits must be 0/1'')
                  (\<lambda>_. Inr (bits ! i XOR c ! i)))
           [0..<length bits])"

definition descramble :: "bitvec \<Rightarrow> u32 \<Rightarrow> bitvec result" where
  "descramble bits c_init = scramble bits c_init"

section \<open>The specified recurrences\<close>

fun x1_seq :: "nat \<Rightarrow> u8" where
  "x1_seq n = (if n < 31 then of_bool (n = 0) else x1_seq (n - 28) XOR x1_seq (n - 31))"

fun x2_seq :: "u32 \<Rightarrow> nat \<Rightarrow> u8" where
  "x2_seq c n = (if n < 31 then of_bool (bit c n)
     else x2_seq c (n - 28) XOR x2_seq c (n - 29) XOR x2_seq c (n - 30) XOR x2_seq c (n - 31))"

declare x1_seq.simps [simp del] x2_seq.simps [simp del]

lemma x1_seq_low: "n < 31 \<Longrightarrow> x1_seq n = of_bool (n = 0)"
  by (subst x1_seq.simps) simp

lemma x1_seq_rec: "x1_seq (n + 31) = x1_seq (n + 3) XOR x1_seq n"
  by (subst x1_seq.simps) (simp add: add.commute)

lemma x2_seq_low: "n < 31 \<Longrightarrow> x2_seq c n = of_bool (bit c n)"
  by (subst x2_seq.simps) simp

lemma x2_seq_rec:
  "x2_seq c (n + 31) = x2_seq c (n + 3) XOR x2_seq c (n + 2) XOR x2_seq c (n + 1) XOR x2_seq c n"
  by (subst x2_seq.simps) (simp add: add.commute)

lemma is_bit_of_bool [simp]: "is_bit (of_bool b)"
  by (simp add: is_bit_def)

lemma is_bit_x1: "is_bit (x1_seq n)"
proof (induction n rule: x1_seq.induct)
  case (1 n)
  then show ?case by (cases "n < 31") (subst x1_seq.simps, simp add: is_bit_xor)+
qed

lemma is_bit_x2: "is_bit (x2_seq c n)"
proof (induction c n rule: x2_seq.induct)
  case (1 c n)
  then show ?case by (cases "n < 31") (subst x2_seq.simps, simp add: is_bit_xor)+
qed

section \<open>The loop computes the recurrences\<close>

lemma drop_and_one: "ucast (drop_bit i (c :: u32) AND 1) = (of_bool (bit c i) :: u8)"
  by (simp add: and_one_eq bit_iff_odd_drop_bit mod_2_eq_odd)

lemma foldl_update_nth:
  "k \<le> length xs \<Longrightarrow> i < length xs \<Longrightarrow>
   foldl (\<lambda>X i. X[i := f i]) xs [0..<k] ! i = (if i < k then f i else xs ! i)"
proof (induction k)
  case (Suc k)
  have "length (foldl (\<lambda>X i. X[i := f i]) xs [0..<k]) = length xs" for k
    by (induction k) simp_all
  with Suc show ?case by (auto simp: nth_list_update)
qed simp

lemma length_foldl_update [simp]:
  "length (foldl (\<lambda>X i. X[i := f i]) xs ks) = length xs"
  by (induction ks arbitrary: xs) simp_all

lemma length_gold_init [simp]:
  "length (fst (gold_init tot c)) = tot + 31" "length (snd (gold_init tot c)) = tot + 31"
  by (simp_all add: gold_init_def)

lemma nth_gold_init:
  "i < 31 \<Longrightarrow> fst (gold_init tot c) ! i = x1_seq i"
  "i < 31 \<Longrightarrow> snd (gold_init tot c) ! i = x2_seq c i"
  by (simp_all add: gold_init_def x1_seq_low x2_seq_low nth_list_update foldl_update_nth drop_and_one)

lemma gold_fill:
  "k \<le> tot \<Longrightarrow>
   (case foldl gold_step (gold_init tot c) [0..<k] of (X1, X2) \<Rightarrow>
      length X1 = tot + 31 \<and> length X2 = tot + 31 \<and>
      (\<forall>i<k + 31. X1 ! i = x1_seq i \<and> X2 ! i = x2_seq c i))"
proof (induction k)
  case 0
  then show ?case by (simp add: split_beta nth_gold_init)
next
  case (Suc k)
  obtain X1 X2 where X: "foldl gold_step (gold_init tot c) [0..<k] = (X1, X2)"
    by (cases "foldl gold_step (gold_init tot c) [0..<k]")
  with Suc have IH: "length X1 = tot + 31" "length X2 = tot + 31"
    "\<And>i. i < k + 31 \<Longrightarrow> X1 ! i = x1_seq i \<and> X2 ! i = x2_seq c i" by auto
  let ?Y1 = "X1[k + 31 := X1 ! (k + 3) XOR X1 ! k]"
  let ?Y2 = "X2[k + 31 := X2 ! (k + 3) XOR X2 ! (k + 2) XOR X2 ! (k + 1) XOR X2 ! k]"
  have "foldl gold_step (gold_init tot c) [0..<Suc k] = (?Y1, ?Y2)"
    using X by (simp add: gold_step_def)
  moreover have "?Y1 ! i = x1_seq i \<and> ?Y2 ! i = x2_seq c i" if "i < Suc k + 31" for i
  proof (cases "i = k + 31")
    case True
    with IH Suc.prems show ?thesis by (simp only: x1_seq_rec x2_seq_rec) simp
  next
    case False
    with IH that show ?thesis by simp
  qed
  ultimately show ?case using IH(1,2) by simp
qed

lemma gold_sequence_eq:
  "gold_sequence len c = map (\<lambda>n. x1_seq (n + 1600) XOR x2_seq c (n + 1600)) [0..<len]"
  using gold_fill [of "1600 + len" "1600 + len" c]
  by (auto simp: gold_sequence_def Let_def split_beta intro!: map_cong)

lemma length_gold_sequence [simp]: "length (gold_sequence len c) = len"
  by (simp add: gold_sequence_eq)

lemma bits_ok_gold_sequence [simp]: "bits_ok (gold_sequence len c)"
  by (simp add: bits_ok_iff_nth gold_sequence_eq is_bit_xor is_bit_x1 is_bit_x2)

section \<open>The second register is linear and invertible\<close>

lemma x2_seq_xor: "x2_seq (c XOR d) n = x2_seq c n XOR x2_seq d n"
proof (induction n rule: less_induct)
  case (less n)
  show ?case
  proof (cases "n < 31")
    case True
    then show ?thesis by (simp add: x2_seq_low bit_xor_iff)
  next
    case False
    then obtain m where n: "n = m + 31" by (metis add.commute le_add_diff_inverse not_less)
    with less show ?thesis by (simp only: x2_seq_rec) (simp add: ac_simps)
  qed
qed

text \<open>Thirty-one consecutive zeros of the second register force all earlier values to zero.\<close>

lemma x2_seq_zero_back:
  "(\<And>i. i < 31 \<Longrightarrow> x2_seq c (k + i) = 0) \<Longrightarrow> i < 31 \<Longrightarrow> x2_seq c i = 0"
proof (induction k)
  case (Suc k)
  have "x2_seq c (k + i) = 0" if "i < 31" for i
  proof (cases i)
    case 0
    have "x2_seq c (k + 31) = 0" "x2_seq c (k + 3) = 0" "x2_seq c (k + 2) = 0" "x2_seq c (k + 1) = 0"
      using Suc.prems(1) [of 30] Suc.prems(1) [of 2] Suc.prems(1) [of 1] Suc.prems(1) [of 0]
      by (simp_all add: add.commute numeral_3_eq_3)
    with x2_seq_rec [of c k] 0 show ?thesis by simp
  next
    case (Suc j)
    with Suc.prems(1) [of j] that show ?thesis by simp
  qed
  with Suc show ?case by blast
qed simp

section \<open>The contract of a keystream\<close>

locale keystream =
  fixes stream :: "nat \<Rightarrow> 'k \<Rightarrow> bitvec"
  assumes stream_length: "length (stream n k) = n"
    and stream_bits: "bits_ok (stream n k)"
begin

lemma xor_twice: "xor_vec (xor_vec bits (stream (length bits) k)) (stream (length bits) k) = bits"
  by (rule xor_vec_cancel) (simp add: stream_length)

lemma xor_bits: "bits_ok bits \<Longrightarrow> bits_ok (xor_vec bits (stream (length bits) k))"
  by (intro bits_ok_xor_vec stream_bits)

lemma xor_len: "length (xor_vec bits (stream (length bits) k)) = length bits"
  by (simp add: stream_length)

end

interpretation gold: keystream gold_sequence
  by unfold_locales simp_all

lemma scramble_eq:
  "scramble bits c = (if bits_ok bits then Inr (xor_vec bits (gold_sequence (length bits) c))
                      else Inl (Error ''scramble bits must be 0/1''))"
proof (cases "bits_ok bits")
  case True
  then have "scramble bits c = Inr (map (\<lambda>i. bits ! i XOR gold_sequence (length bits) c ! i) [0..<length bits])"
    unfolding scramble_def Let_def
    by (intro mapE_Inr) (auto simp: bits_ok_iff_nth is_bit_def)
  moreover have "map (\<lambda>i. bits ! i XOR gold_sequence (length bits) c ! i) [0..<length bits] =
      xor_vec bits (gold_sequence (length bits) c)"
    by (rule nth_equalityI) simp_all
  ultimately show ?thesis using True by simp
next
  case False
  then show ?thesis
    unfolding scramble_def Let_def
    by (subst mapE_Inl [where e = "Error ''scramble bits must be 0/1''"])
      (auto simp: bits_ok_iff_nth is_bit_def)
qed

section \<open>Properties\<close>

text \<open>C34: the generator refines the specification: \<open>gold_sequence\<close> is the xor of the two
  TS 38.211 recurrences read from position 1600, for every length and seed.\<close>

theorem gold_sequence_spec:
  "gold_sequence len c = map (\<lambda>n. x1_seq (n + 1600) XOR x2_seq c (n + 1600)) [0..<len]"
  by (rule gold_sequence_eq)

text \<open>Scrambling is an involution: on every 0/1 vector \<open>scramble\<close> succeeds, keeps the length and
  the 0/1 range, and \<open>descramble\<close> with the same seed restores the vector; anything else is
  rejected.\<close>

theorem scramble_involution:
  "if bits_ok bits
   then \<exists>s. scramble bits c = Inr s \<and> length s = length bits \<and> bits_ok s \<and> descramble s c = Inr bits
   else scramble bits c = Inl (Error ''scramble bits must be 0/1'')"
proof (cases "bits_ok bits")
  case True
  let ?s = "xor_vec bits (gold_sequence (length bits) c)"
  have "bits_ok ?s" "length ?s = length bits" "descramble ?s c = Inr bits"
    using gold.xor_bits [OF True] gold.xor_len gold.xor_twice
    by (simp_all add: descramble_def scramble_eq)
  with True show ?thesis by (auto simp: scramble_eq)
qed (simp add: scramble_eq)

text \<open>The seed matters in exactly its low 31 bits: two seeds give the same sequence of at least 31
  bits if and only if they agree on bits 0 to 30.\<close>

theorem gold_sequence_seed:
  assumes "31 \<le> len"
  shows "gold_sequence len c = gold_sequence len d \<longleftrightarrow> take_bit 31 c = take_bit 31 d"
proof
  assume eq: "gold_sequence len c = gold_sequence len d"
  have "x2_seq (c XOR d) (1600 + i) = 0" if "i < 31" for i
  proof -
    have "gold_sequence len c ! i = gold_sequence len d ! i" using eq by simp
    with that assms show ?thesis
      by (simp add: gold_sequence_eq x2_seq_xor add.commute xor_eq_0_iff)
  qed
  then have "x2_seq (c XOR d) i = 0" if "i < 31" for i
    using x2_seq_zero_back that by blast
  then have "bit c i = bit d i" if "i < 31" for i
    using that by (auto simp: x2_seq_low bit_xor_iff)
  then show "take_bit 31 c = take_bit 31 d"
    by (intro bit_word_eqI) (auto simp: bit_take_bit_iff)
next
  assume eq: "take_bit 31 c = take_bit 31 d"
  have low: "bit c i = bit d i" if "i < 31" for i
    using that eq by (metis bit_take_bit_iff)
  have "x2_seq c n = x2_seq d n" for n
  proof (induction n rule: less_induct)
    case (less n)
    show ?case
    proof (cases "n < 31")
      case True
      with low show ?thesis by (simp add: x2_seq_low)
    next
      case False
      then obtain m where n: "n = m + 31" by (metis add.commute le_add_diff_inverse not_less)
      with less show ?thesis by (simp only: x2_seq_rec)
    qed
  qed
  then show "gold_sequence len c = gold_sequence len d" by (simp add: gold_sequence_eq)
qed

theorem gold_sequence_seed_witness:
  "gold_sequence 40 1 = gold_sequence 40 0x80000001 \<longleftrightarrow>
     take_bit 31 (1 :: u32) = take_bit 31 0x80000001"
  by (rule gold_sequence_seed) simp

end
