(* ===== verification/Modulation.thy ===== *)
theory Modulation
  imports CInt Dbl Llr
begin

text \<open>
  \<open>include/nr_bb/modulation.hpp\<close> and \<open>src/modulation.cpp\<close>: Gray-mapped QPSK, 16QAM, 64QAM and
  256QAM. Amplitudes are integers, symbols exact complex numbers; the infinity that starts the
  minimum searches is the one of \<open>dbl\<close>. The Gray codes are natural numbers, since the code only
  ever builds them from bits. \<open>pack_bits\<close> and \<open>msb_bits\<close> are the two bit loops that
  \<open>gray_pam_amp\<close>, \<open>gray_bits_from_amp\<close> and \<open>symbol_from_index\<close> share.
\<close>

section \<open>The code\<close>

definition bits_per_symbol :: "modulation_order \<Rightarrow> nat" where
  "bits_per_symbol order = (case order of QPSK \<Rightarrow> 2 | QAM16 \<Rightarrow> 4 | QAM64 \<Rightarrow> 6 | QAM256 \<Rightarrow> 8)"

definition scale_for :: "modulation_order \<Rightarrow> real" where
  "scale_for order =
     (case order of QPSK \<Rightarrow> 1 / sqrt 2 | QAM16 \<Rightarrow> 1 / sqrt 10 | QAM64 \<Rightarrow> 1 / sqrt 42 | QAM256 \<Rightarrow> 1 / sqrt 170)"

definition bin_to_gray :: "nat \<Rightarrow> nat" where
  "bin_to_gray v = v XOR drop_bit 1 v"

function gray_loop :: "nat \<Rightarrow> nat \<Rightarrow> nat" where
  "gray_loop g b = (let g' = drop_bit 1 g in if g' \<noteq> 0 then gray_loop g' (b XOR g') else b)"
  by pat_completeness auto
termination by (relation "measure fst") (auto simp: drop_bit_Suc)

declare gray_loop.simps [simp del]

definition gray_to_bin :: "nat \<Rightarrow> nat" where
  "gray_to_bin g = gray_loop g g"

definition pack_bits :: "bitvec \<Rightarrow> nat \<Rightarrow> nat \<Rightarrow> nat" where
  "pack_bits bits start nbits = foldl (\<lambda>g i. push_bit 1 g OR unat (bits ! (start + i))) 0 [0..<nbits]"

definition msb_bits :: "nat \<Rightarrow> nat \<Rightarrow> bitvec" where
  "msb_bits nbits g = map (\<lambda>i. of_nat (drop_bit i g AND 1)) (rev [0..<nbits])"

definition gray_pam_amp :: "bitvec \<Rightarrow> nat \<Rightarrow> nat \<Rightarrow> int" where
  "gray_pam_amp bits start nbits =
     (let v = gray_to_bin (pack_bits bits start nbits); levels = push_bit nbits 1 in (levels - 1) - 2 * int v)"

definition gray_bits_from_amp :: "int \<Rightarrow> nat \<Rightarrow> bitvec" where
  "gray_bits_from_amp amp nbits =
     (let levels = push_bit nbits 1;
          v0 = c_div ((levels - 1) - amp) 2;
          v1 = (if v0 < 0 then 0 else v0);
          v2 = (if v1 \<ge> levels then levels - 1 else v1)
      in msb_bits nbits (bin_to_gray (nat v2)))"

definition symbol_from_index :: "nat \<Rightarrow> modulation_order \<Rightarrow> complex" where
  "symbol_from_index idx order =
     (let m = bits_per_symbol order; half = m div 2; levels = push_bit half 1 :: int;
          bits = msb_bits m idx;
          v_i = gray_to_bin (pack_bits bits 0 half);
          v_q = gray_to_bin (pack_bits bits half half);
          s = scale_for order
      in Complex (s * of_int ((levels - 1) - 2 * int v_i)) (s * of_int ((levels - 1) - 2 * int v_q)))"

definition constellation :: "modulation_order \<Rightarrow> complex list" where
  "constellation order = map (\<lambda>i. symbol_from_index i order) [0..<push_bit (bits_per_symbol order) 1]"

definition constellation_avg_energy :: "modulation_order \<Rightarrow> real" where
  "constellation_avg_energy order =
     (let c = constellation order in foldl (\<lambda>e z. e + (cmod z)\<^sup>2) 0 c / of_nat (length c))"

definition modulate :: "bitvec \<Rightarrow> modulation_order \<Rightarrow> complexvec result" where
  "modulate bits order =
     (let m = bits_per_symbol order; half = m div 2; s = scale_for order in
      and_then (require (length bits mod m = 0) ''bit length not multiple of Qm'') (\<lambda>_.
      Inr (map (\<lambda>t. let i = t * m in
                Complex (s * of_int (gray_pam_amp bits i half)) (s * of_int (gray_pam_amp bits (i + half) half)))
             [0..<length bits div m])))"

definition nearest_step :: "real \<Rightarrow> real \<Rightarrow> int \<times> dbl \<Rightarrow> int \<Rightarrow> int \<times> dbl" where
  "nearest_step s x st a =
     (case st of (best, best_d) \<Rightarrow>
        let d = Fin \<bar>x - s * of_int a\<bar> in if d_less d best_d then (a, d) else (best, best_d))"

definition amplitudes :: "nat \<Rightarrow> int list" where
  "amplitudes half = (let levels = push_bit half 1 :: int in map (\<lambda>k. - (levels - 1) + 2 * int k) [0..<nat levels])"

definition nearest :: "nat \<Rightarrow> real \<Rightarrow> real \<Rightarrow> int" where
  "nearest half s x = fst (foldl (nearest_step s x) (- (push_bit half 1 - 1), PInf) (amplitudes half))"

definition demodulate_hard :: "complexvec \<Rightarrow> modulation_order \<Rightarrow> bitvec" where
  "demodulate_hard syms order =
     (let half = bits_per_symbol order div 2; s = scale_for order in
      concat (map (\<lambda>z. gray_bits_from_amp (nearest half s (Re z)) half @ gray_bits_from_amp (nearest half s (Im z)) half)
        syms))"

definition llr_step :: "complex \<Rightarrow> complex list \<Rightarrow> nat \<Rightarrow> nat \<Rightarrow> dbl \<times> dbl \<Rightarrow> nat \<Rightarrow> dbl \<times> dbl" where
  "llr_step y alphabet m k st s =
     (case st of (min0, min1) \<Rightarrow>
        let d2 = Fin ((cmod (y - alphabet ! s))\<^sup>2) in
        if drop_bit (m - 1 - k) s AND 1 = 0 then (if d_less d2 min0 then d2 else min0, min1)
        else (min0, if d_less d2 min1 then d2 else min1))"

definition demodulate_llr :: "complexvec \<Rightarrow> modulation_order \<Rightarrow> real \<Rightarrow> dbl list result" where
  "demodulate_llr syms order noise_var =
     and_then (require (noise_var > 0) ''noise_var must be > 0'') (\<lambda>_.
     let m = bits_per_symbol order; M = push_bit m 1; alphabet = constellation order; inv2s = 1 / (2 * noise_var) in
     Inr (concat (map (\<lambda>y. map (\<lambda>k.
       case foldl (llr_step y alphabet m k) (PInf, PInf) [0..<M] of (min0, min1) \<Rightarrow> d_scale inv2s (d_sub min1 min0))
       [0..<m]) syms)))"

section \<open>Gray code\<close>

lemma gray_loop_xor: "gray_loop g b = b XOR gray_loop g 0"
proof (induction g arbitrary: b rule: less_induct)
  case (less g)
  show ?case
  proof (cases "drop_bit 1 g = 0")
    case True
    then show ?thesis by (simp add: gray_loop.simps [of g])
  next
    case False
    then have "drop_bit 1 g < g" by (simp add: drop_bit_Suc)
    from less [OF this] have IH: "gray_loop (drop_bit 1 g) c = c XOR gray_loop (drop_bit 1 g) 0" for c .
    have "gray_loop g c = gray_loop (drop_bit 1 g) (c XOR drop_bit 1 g)" for c
      using False by (simp add: gray_loop.simps [of g c] Let_def)
    then show ?thesis by (metis IH xor.assoc xor.left_neutral)
  qed
qed

lemma gray_to_bin_rec: "gray_to_bin g = (if drop_bit 1 g = 0 then g else g XOR gray_to_bin (drop_bit 1 g))"
  unfolding gray_to_bin_def
  by (simp add: gray_loop.simps [of g] Let_def) (metis gray_loop_xor xor.assoc xor.left_neutral)

lemma xor_nat_left_cancel: "a XOR (a XOR b) = b" for a b :: nat
  by (simp flip: xor.assoc)

text \<open>The two conversions are inverse to each other, for every number.\<close>

lemma gray_roundtrip: "bin_to_gray (gray_to_bin g) = g"
proof (induction g rule: less_induct)
  case (less g)
  show ?case
  proof (cases "drop_bit 1 g = 0")
    case True
    then show ?thesis by (subst gray_to_bin_rec) (simp add: bin_to_gray_def)
  next
    case False
    let ?h = "drop_bit 1 g"
    have "?h < g" using False by (simp add: drop_bit_Suc)
    with less have IH: "gray_to_bin ?h XOR drop_bit 1 (gray_to_bin ?h) = ?h" by (simp add: bin_to_gray_def)
    have "gray_to_bin g = g XOR gray_to_bin ?h" using False by (subst gray_to_bin_rec) simp
    then have "bin_to_gray (gray_to_bin g) = (g XOR gray_to_bin ?h) XOR (?h XOR drop_bit 1 (gray_to_bin ?h))"
      by (simp add: bin_to_gray_def drop_bit_xor)
    also have "\<dots> = g XOR (gray_to_bin ?h XOR drop_bit 1 (gray_to_bin ?h)) XOR ?h"
      by (simp only: xor.assoc xor.commute xor.left_commute)
    also have "\<dots> = g" unfolding IH by (simp add: xor.assoc)
    finally show ?thesis .
  qed
qed

lemma less_power_drop: "(x::nat) < 2 ^ n \<longleftrightarrow> drop_bit n x = 0"
  by (simp add: drop_bit_eq_div div_eq_0_iff)

lemma gray_to_bin_less: "g < 2 ^ n \<Longrightarrow> gray_to_bin g < 2 ^ n"
proof (induction g rule: less_induct)
  case (less g)
  show ?case
  proof (cases "drop_bit 1 g = 0")
    case False
    then have h: "drop_bit 1 g < g" by (simp add: drop_bit_Suc)
    with less have "gray_to_bin (drop_bit 1 g) < 2 ^ n" by simp
    with less.prems have "drop_bit n (g XOR gray_to_bin (drop_bit 1 g)) = 0"
      by (simp add: less_power_drop drop_bit_xor)
    with False show ?thesis by (subst gray_to_bin_rec) (simp add: less_power_drop)
  qed (use less.prems in \<open>subst gray_to_bin_rec, simp\<close>)
qed

section \<open>Packing of bits\<close>

lemma pack_bits_Suc: "pack_bits bits start (Suc n) = push_bit 1 (pack_bits bits start n) OR unat (bits ! (start + n))"
  by (simp add: pack_bits_def)

lemma push_or_bit: "b < 2 \<Longrightarrow> push_bit 1 g OR b = 2 * g + b" for g b :: nat
  by (cases "b = 0") (auto simp: push_bit_eq_mult less_2_cases_iff or_Suc_0_eq)

lemma pack_bits_rec:
  assumes "bits_ok bits" "start + n < length bits"
  shows "pack_bits bits start (Suc n) = 2 * pack_bits bits start n + unat (bits ! (start + n))"
proof -
  have "unat (bits ! (start + n)) < 2" using bits_ok_nth [OF assms] by (auto simp: is_bit_def)
  then show ?thesis by (simp only: pack_bits_Suc push_or_bit)
qed

lemma pack_bits_less:
  assumes "bits_ok bits" "start + n \<le> length bits"
  shows "pack_bits bits start n < 2 ^ n"
  using assms(2)
proof (induction n)
  case (Suc n)
  have "unat (bits ! (start + n)) < 2" using bits_ok_nth [OF assms(1), of "start + n"] Suc.prems by (auto simp: is_bit_def)
  with Suc show ?case using pack_bits_rec [OF assms(1), of start n] by simp
qed (simp add: pack_bits_def)

lemma msb_bits_Suc: "msb_bits (Suc n) g = msb_bits n (drop_bit 1 g) @ [of_nat (g AND 1)]"
proof -
  have "[0..<Suc n] = 0 # map Suc [0..<n]" by (simp add: map_Suc_upt upt_conv_Cons del: upt_Suc)
  then show ?thesis by (simp add: msb_bits_def rev_map drop_bit_Suc)
qed

lemma msb_pack:
  assumes "bits_ok bits" "start + n \<le> length bits"
  shows "msb_bits n (pack_bits bits start n) = take n (drop start bits)"
  using assms(2)
proof (induction n)
  case (Suc n)
  let ?b = "bits ! (start + n)"
  have b: "unat ?b < 2" "is_bit ?b" using bits_ok_nth [OF assms(1), of "start + n"] Suc.prems by (auto simp: is_bit_def)
  have p: "pack_bits bits start (Suc n) = 2 * pack_bits bits start n + unat ?b"
    using Suc.prems by (intro pack_bits_rec [OF assms(1)]) simp
  have "drop_bit 1 (2 * pack_bits bits start n + unat ?b) = pack_bits bits start n"
    using b(1) by (simp add: drop_bit_Suc)
  moreover have "(2 * pack_bits bits start n + unat ?b) AND 1 = unat ?b"
    using b(1) by (simp add: and_one_eq)
  ultimately show ?case
    using Suc by (simp add: msb_bits_Suc p take_Suc_conv_app_nth)
qed (simp add: msb_bits_def)

section \<open>Amplitudes\<close>

lemma push_bit_1_int [simp]: "push_bit n 1 = (2 ^ n :: int)"
  by (simp add: push_bit_eq_mult)

lemma gray_bits_inverse:
  assumes "v < 2 ^ n"
  shows "gray_bits_from_amp (2 ^ n - 1 - 2 * int v) n = msb_bits n (bin_to_gray v)"
proof -
  have "c_div (2 * int v) 2 = int v" by (simp add: c_div_nonneg)
  moreover have "int v < 2 ^ n" using assms by (metis of_nat_less_iff of_nat_numeral of_nat_power)
  ultimately show ?thesis by (simp add: gray_bits_from_amp_def Let_def)
qed

lemma gray_amp_roundtrip:
  assumes "bits_ok bits" "start + n \<le> length bits"
  shows "gray_bits_from_amp (gray_pam_amp bits start n) n = take n (drop start bits)"
proof -
  have "gray_to_bin (pack_bits bits start n) < 2 ^ n" by (intro gray_to_bin_less pack_bits_less assms)
  from gray_bits_inverse [OF this] show ?thesis
    by (simp add: gray_pam_amp_def Let_def gray_roundtrip msb_pack [OF assms])
qed

lemma amp_in_amplitudes:
  assumes "v < 2 ^ n"
  shows "2 ^ n - 1 - 2 * int v \<in> set (amplitudes n)"
proof -
  have "int (2 ^ n - 1 - v) = 2 ^ n - 1 - int v" using assms by (simp add: of_nat_diff)
  then have "2 ^ n - 1 - 2 * int v = 1 - 2 ^ n + 2 * int (2 ^ n - 1 - v)" by simp
  moreover have "2 ^ n - 1 - v \<in> {0..<2 ^ n}" by simp
  ultimately show ?thesis unfolding amplitudes_def Let_def by (simp add: nat_power_eq)
qed

lemma amplitudes_gap: "a \<in> set (amplitudes n) \<Longrightarrow> b \<in> set (amplitudes n) \<Longrightarrow> a \<noteq> b \<Longrightarrow> 2 \<le> \<bar>a - b\<bar>"
  by (auto simp: amplitudes_def Let_def)

lemma nearest_fold:
  assumes "a \<in> set as" "\<And>b. b \<in> set as \<Longrightarrow> b \<noteq> a \<Longrightarrow> \<bar>x - s * of_int a\<bar> < \<bar>x - s * of_int b\<bar>"
  shows "fst (foldl (nearest_step s x) (b0, PInf) as) = a"
proof -
  let ?d = "\<lambda>b. \<bar>x - s * of_int b\<bar>"
  from split_list_first [OF assms(1)] obtain us vs where as: "as = us @ a # vs" and us: "a \<notin> set us" by blast
  have pre: "d = PInf \<or> (\<exists>r. d = Fin r \<and> ?d a < r)"
    if "foldl (nearest_step s x) (b0, d0) bs = (b, d)" "d0 = PInf \<or> (\<exists>r. d0 = Fin r \<and> ?d a < r)" "set bs \<subseteq> set us" for bs b0 d0 b d
    using that
  proof (induction bs arbitrary: b0 d0)
    case (Cons c bs)
    then have "?d a < ?d c" using assms(2) [of c] us as by auto
    then have "d1 = PInf \<or> (\<exists>r. d1 = Fin r \<and> ?d a < r)" if "nearest_step s x (b0, d0) c = (b1, d1)" for b1 d1
      using Cons.prems(2) that by (auto simp: nearest_step_def Let_def split: if_splits)
    moreover obtain b1 d1 where "nearest_step s x (b0, d0) c = (b1, d1)" by fastforce
    ultimately show ?case using Cons.IH [of b1 d1] Cons.prems by simp
  qed simp
  obtain b d where bd: "foldl (nearest_step s x) (b0, PInf) us = (b, d)" by fastforce
  from pre [OF bd] have "nearest_step s x (b, d) a = (a, Fin (?d a))"
    by (auto simp: nearest_step_def Let_def)
  moreover have post: "foldl (nearest_step s x) (a, Fin (?d a)) bs = (a, Fin (?d a))" if "set bs \<subseteq> set as" for bs
    using that
  proof (induction bs)
    case (Cons c bs)
    then have "\<not> ?d c < ?d a" using assms(2) [of c] by (cases "c = a") auto
    with Cons show ?case by (simp add: nearest_step_def Let_def)
  qed simp
  have "set vs \<subseteq> set as" using as by auto
  ultimately show ?thesis using post [of vs] as by (simp add: bd)
qed

text \<open>Within the margin the sent amplitude is strictly nearest.\<close>

lemma axis_closer:
  fixes x s :: real
  assumes "a \<in> set (amplitudes n)" "b \<in> set (amplitudes n)" "\<bar>x - s * of_int a\<bar> < s" "a \<noteq> b"
  shows "\<bar>x - s * of_int a\<bar> < \<bar>x - s * of_int b\<bar>"
proof -
  have s: "0 < s" using assms(3) by linarith
  have "2 \<le> \<bar>a - b\<bar>" using amplitudes_gap [OF assms(1,2,4)] .
  then have "2 \<le> \<bar>real_of_int a - real_of_int b\<bar>" by linarith
  then have "2 * s \<le> \<bar>s * (real_of_int a - real_of_int b)\<bar>" using s by (simp add: abs_mult)
  then have "2 * s \<le> \<bar>s * real_of_int a - s * real_of_int b\<bar>" by (simp only: right_diff_distrib)
  with assms(3) show ?thesis by linarith
qed

lemma nearest_amp:
  assumes "v < 2 ^ n" "a = 2 ^ n - 1 - 2 * int v" "\<bar>x - s * of_int a\<bar> < s"
  shows "nearest n s x = a"
  unfolding nearest_def
proof (rule nearest_fold)
  show a: "a \<in> set (amplitudes n)" using amp_in_amplitudes [OF assms(1)] assms(2) by simp
  show "\<bar>x - s * of_int a\<bar> < \<bar>x - s * of_int b\<bar>" if "b \<in> set (amplitudes n)" "b \<noteq> a" for b
    using axis_closer [OF a that(1) assms(3)] that(2) by simp
qed

lemma concat_chunks: "length xs = n * m \<Longrightarrow> concat (map (\<lambda>t. take m (drop (t * m) xs)) [0..<n]) = xs"
proof (induction n arbitrary: xs)
  case (Suc n)
  have "concat (map (\<lambda>t. take m (drop (t * m) (drop m xs))) [0..<n]) = drop m xs"
    using Suc.prems by (intro Suc.IH) simp
  moreover have "[0..<Suc n] = 0 # map Suc [0..<n]" by (simp add: map_Suc_upt upt_conv_Cons del: upt_Suc)
  ultimately show ?case by (simp add: comp_def add.commute del: upt_Suc)
qed simp

lemma scale_pos: "0 < scale_for order"
  by (cases order) (simp_all add: scale_for_def)

lemma bits_per_symbol_half: "bits_per_symbol order = 2 * (bits_per_symbol order div 2)" "0 < bits_per_symbol order"
  by (cases order; simp add: bits_per_symbol_def)+

lemma gray_pam_amp_shape:
  assumes "bits_ok bits" "start + n \<le> length bits"
  obtains v where "v < 2 ^ n" "gray_pam_amp bits start n = 2 ^ n - 1 - 2 * int v"
  using gray_to_bin_less [OF pack_bits_less [OF assms]] by (simp add: gray_pam_amp_def Let_def)

section \<open>The contract of an amplitude code\<close>

text \<open>What a demapper needs of the map from bits to amplitudes: an amplitude is one of the odd levels, and
  the map back restores the bits.\<close>

locale amplitude_code =
  fixes amp :: "bitvec \<Rightarrow> nat \<Rightarrow> nat \<Rightarrow> int" and unamp :: "int \<Rightarrow> nat \<Rightarrow> bitvec"
  assumes amp_shape: "bits_ok bits \<Longrightarrow> start + n \<le> length bits \<Longrightarrow> \<exists>v. v < 2 ^ n \<and> amp bits start n = 2 ^ n - 1 - 2 * int v"
    and amp_roundtrip: "bits_ok bits \<Longrightarrow> start + n \<le> length bits \<Longrightarrow> unamp (amp bits start n) n = take n (drop start bits)"
begin

lemma near:
  assumes "bits_ok bits" "i + half \<le> length bits" "\<bar>e\<bar> < s"
  shows "unamp (nearest half s (s * of_int (amp bits i half) + e)) half = take half (drop i bits)"
proof -
  obtain v where v: "v < 2 ^ half" "amp bits i half = 2 ^ half - 1 - 2 * int v" using amp_shape [OF assms(1,2)] by blast
  have "nearest half s (s * of_int (amp bits i half) + e) = amp bits i half"
    by (rule nearest_amp [OF v]) (use assms(3) in simp)
  then show ?thesis by (simp add: amp_roundtrip [OF assms(1,2)])
qed

lemma margin:
  assumes "bits_ok bits" and len: "length bits = n * m" and m: "m = half + half"
    and syms: "syms = map (\<lambda>t. Complex (s * of_int (amp bits (t * m) half)) (s * of_int (amp bits (t * m + half) half))) [0..<n]"
    and "length noise = n" "list_all (\<lambda>e. \<bar>Re e\<bar> < s \<and> \<bar>Im e\<bar> < s) noise"
  shows "concat (map (\<lambda>z. unamp (nearest half s (Re z)) half @ unamp (nearest half s (Im z)) half) (map2 (+) syms noise)) = bits"
proof -
  let ?hard = "\<lambda>z. unamp (nearest half s (Re z)) half @ unamp (nearest half s (Im z)) half"
  have "map ?hard (map2 (+) syms noise) = map (\<lambda>t. take m (drop (t * m) bits)) [0..<n]"
  proof (rule nth_equalityI)
    show "length (map ?hard (map2 (+) syms noise)) = length (map (\<lambda>t. take m (drop (t * m) bits)) [0..<n])"
      using assms(5) syms by simp
    fix t assume "t < length (map ?hard (map2 (+) syms noise))"
    then have t: "t < n" "t < length noise" using syms by simp_all
    then have "Suc t * m \<le> length bits" unfolding len by (intro mult_le_mono1) simp
    then have i: "t * m + half \<le> length bits" "t * m + half + half \<le> length bits" using m by simp_all
    have e: "\<bar>Re (noise ! t)\<bar> < s" "\<bar>Im (noise ! t)\<bar> < s" using assms(6) t(2) by (simp_all add: list_all_length)
    have "take m (drop (t * m) bits) = take half (drop (t * m) bits) @ take half (drop (t * m + half) bits)"
      unfolding m by (simp add: take_add add.commute)
    then show "map ?hard (map2 (+) syms noise) ! t = map (\<lambda>t. take m (drop (t * m) bits)) [0..<n] ! t"
      using t near [OF assms(1) i(1) e(1)] near [OF assms(1) i(2) e(2)] syms by simp
  qed
  then show ?thesis using concat_chunks [OF len] by simp
qed

end

interpretation gray_code: amplitude_code gray_pam_amp gray_bits_from_amp
  by unfold_locales (metis gray_pam_amp_shape, rule gray_amp_roundtrip)

section \<open>The constellation\<close>

lemma length_msb_bits [simp]: "length (msb_bits n g) = n"
  by (simp add: msb_bits_def)

lemma bits_ok_msb_bits [simp]: "bits_ok (msb_bits n g)"
  by (auto simp: msb_bits_def bits_ok_def list_all_iff and_one_eq is_bit_def mod_2_eq_odd)

lemma pack_bits_append: "n \<le> length xs \<Longrightarrow> pack_bits (xs @ ys) 0 n = pack_bits xs 0 n"
  unfolding pack_bits_def by (rule foldl_cong) (simp_all add: nth_append)

lemma pack_msb: "g < 2 ^ n \<Longrightarrow> pack_bits (msb_bits n g) 0 n = g"
proof (induction n arbitrary: g)
  case (Suc n)
  have h: "drop_bit 1 g < 2 ^ n" using Suc.prems by (simp add: drop_bit_Suc)
  have "pack_bits (msb_bits (Suc n) g) 0 (Suc n) =
      2 * pack_bits (msb_bits (Suc n) g) 0 n + unat (msb_bits (Suc n) g ! (0 + n))"
    by (rule pack_bits_rec) simp_all
  also have "pack_bits (msb_bits (Suc n) g) 0 n = drop_bit 1 g"
    using Suc.IH [OF h] by (simp add: msb_bits_Suc pack_bits_append)
  also have "unat (msb_bits (Suc n) g ! (0 + n)) = g mod 2"
    by (simp add: msb_bits_Suc nth_append and_one_eq unat_of_nat)
  finally show ?case by (simp add: drop_bit_Suc)
qed (simp add: pack_bits_def)

lemma pack_bits_chunk:
  assumes "j + n \<le> m" "i + m \<le> length bits"
  shows "pack_bits (take m (drop i bits)) j n = pack_bits bits (i + j) n"
  unfolding pack_bits_def by (rule foldl_cong) (use assms in \<open>simp_all add: add.assoc\<close>)

definition amp_i :: "modulation_order \<Rightarrow> nat \<Rightarrow> int" where
  "amp_i order idx = gray_pam_amp (msb_bits (bits_per_symbol order) idx) 0 (bits_per_symbol order div 2)"

definition amp_q :: "modulation_order \<Rightarrow> nat \<Rightarrow> int" where
  "amp_q order idx =
     gray_pam_amp (msb_bits (bits_per_symbol order) idx) (bits_per_symbol order div 2) (bits_per_symbol order div 2)"

lemma symbol_from_index_eq:
  "symbol_from_index idx order = Complex (scale_for order * of_int (amp_i order idx)) (scale_for order * of_int (amp_q order idx))"
  by (simp add: symbol_from_index_def amp_i_def amp_q_def gray_pam_amp_def Let_def)

lemma gray_pam_amp_in:
  assumes "bits_ok bits" "start + n \<le> length bits"
  shows "gray_pam_amp bits start n \<in> set (amplitudes n)"
proof -
  obtain v where "v < 2 ^ n" "gray_pam_amp bits start n = 2 ^ n - 1 - 2 * int v" by (rule gray_pam_amp_shape [OF assms])
  then show ?thesis by (simp only: amp_in_amplitudes)
qed

lemma amps_in:
  "amp_i order idx \<in> set (amplitudes (bits_per_symbol order div 2))"
  "amp_q order idx \<in> set (amplitudes (bits_per_symbol order div 2))"
  unfolding amp_i_def amp_q_def by (rule gray_pam_amp_in; simp)+

lemma amps_inj:
  assumes "amp_i order a = amp_i order b" "amp_q order a = amp_q order b"
    and "a < 2 ^ bits_per_symbol order" "b < 2 ^ bits_per_symbol order"
  shows "a = b"
proof -
  let ?m = "bits_per_symbol order"
  let ?h = "?m div 2"
  have m: "?m = ?h + ?h" using bits_per_symbol_half [of order] by simp
  have half: "take ?h (drop st (msb_bits ?m x)) = gray_bits_from_amp (gray_pam_amp (msb_bits ?m x) st ?h) ?h"
    if "st + ?h \<le> ?m" for st x
    using gray_amp_roundtrip [OF bits_ok_msb_bits, of st ?h ?m x] that by simp
  have "take ?h (drop 0 (msb_bits ?m a)) = take ?h (drop 0 (msb_bits ?m b))"
    "take ?h (drop ?h (msb_bits ?m a)) = take ?h (drop ?h (msb_bits ?m b))"
    using assms(1,2) m by (subst (1 2) half; simp add: amp_i_def amp_q_def)+
  then have "take ?m (msb_bits ?m a) = take ?m (msb_bits ?m b)"
    by (subst (1 3) m) (simp add: take_add)
  then have "msb_bits ?m a = msb_bits ?m b" by simp
  from arg_cong [OF this, of "\<lambda>bits. pack_bits bits 0 ?m"] show ?thesis by (simp only: pack_msb assms(3,4))
qed

text \<open>The two halves of a label select the amplitudes of the two axes.\<close>

lemma msb_bits_add: "msb_bits (a + b) g = msb_bits a (drop_bit b g) @ msb_bits b g"
  by (induction b arbitrary: g) (simp_all add: msb_bits_Suc msb_bits_def [of 0])

lemma nth_msb_bits: "k < n \<Longrightarrow> msb_bits n g ! k = of_nat (drop_bit (n - 1 - k) g AND 1)"
  by (simp add: msb_bits_def rev_nth)

lemma msb_bits_mod: "msb_bits n (g mod 2 ^ n) = msb_bits n g"
proof (rule nth_equalityI)
  fix k assume "k < length (msb_bits n (g mod 2 ^ n))"
  then have k: "k < n" by simp
  have "drop_bit (n - 1 - k) (take_bit n g) = take_bit (Suc k) (drop_bit (n - 1 - k) g)"
    using k by (simp add: drop_bit_take_bit)
  moreover have "take_bit (Suc k) x AND 1 = x AND 1" for x :: nat
    by (simp add: and_one_eq take_bit_eq_mod mod_mod_cancel)
  ultimately show "msb_bits n (g mod 2 ^ n) ! k = msb_bits n g ! k"
    using k by (simp only: nth_msb_bits take_bit_eq_mod [symmetric])
qed simp

lemma pack_bits_append_right: "n \<le> length ys \<Longrightarrow> pack_bits (xs @ ys) (length xs) n = pack_bits ys 0 n"
  unfolding pack_bits_def by (rule foldl_cong) (simp_all add: nth_append)

lemma amps_of_label:
  assumes "h = bits_per_symbol order div 2" "idx < 2 ^ h * 2 ^ h"
  shows "amp_i order idx = 2 ^ h - 1 - 2 * int (gray_to_bin (idx div 2 ^ h))"
    and "amp_q order idx = 2 ^ h - 1 - 2 * int (gray_to_bin (idx mod 2 ^ h))"
proof -
  have m: "bits_per_symbol order = h + h" using bits_per_symbol_half [of order] assms(1) by simp
  have "drop_bit h idx < 2 ^ h" using assms(2) by (simp add: drop_bit_eq_div less_mult_imp_div_less)
  then have "pack_bits (msb_bits (h + h) idx) 0 h = idx div 2 ^ h"
    by (simp add: msb_bits_add pack_bits_append pack_msb drop_bit_eq_div)
  moreover have "pack_bits (msb_bits (h + h) idx) h h = idx mod 2 ^ h"
    using pack_bits_append_right [of h "msb_bits h idx" "msb_bits h (drop_bit h idx)"] pack_msb [of "idx mod 2 ^ h" h]
    by (simp add: msb_bits_add msb_bits_mod)
  ultimately show "amp_i order idx = 2 ^ h - 1 - 2 * int (gray_to_bin (idx div 2 ^ h))"
    "amp_q order idx = 2 ^ h - 1 - 2 * int (gray_to_bin (idx mod 2 ^ h))"
    by (simp_all add: amp_i_def amp_q_def m gray_pam_amp_def Let_def)
qed

lemma sum_div_mod:
  fixes f :: "nat \<Rightarrow> int"
  shows "(\<Sum>i<n * n. f (i div n) + f (i mod n)) = 2 * int n * (\<Sum>u<n. f u)"
proof (cases "n = 0")
  case False
  have "(\<Sum>i\<in>{u * n..<u * n + n}. f (i div n) + f (i mod n)) = int n * f u + (\<Sum>v<n. f v)" for u
  proof -
    have "(\<Sum>i\<in>{u * n..<u * n + n}. f (i div n) + f (i mod n)) = (\<Sum>v<n. f ((v + u * n) div n) + f ((v + u * n) mod n))"
      using sum.shift_bounds_nat_ivl [of "\<lambda>i. f (i div n) + f (i mod n)" 0 "u * n" n]
      by (simp add: lessThan_atLeast0 add.commute)
    also have "\<dots> = (\<Sum>v<n. f u + f v)" using False by (intro sum.cong) simp_all
    finally show ?thesis by (simp add: sum.distrib)
  qed
  then have "(\<Sum>u<n. \<Sum>i\<in>{u * n..<u * n + n}. f (i div n) + f (i mod n)) = 2 * int n * (\<Sum>u<n. f u)"
    by (simp add: sum.distrib sum_distrib_left [symmetric])
  then show ?thesis by (simp only: sum.nat_group)
qed simp

lemma amps_energy:
  "(\<Sum>i\<leftarrow>[0..<2 ^ bits_per_symbol order]. (amp_i order i)\<^sup>2 + (amp_q order i)\<^sup>2) =
    (case order of QPSK \<Rightarrow> 8 | QAM16 \<Rightarrow> 160 | QAM64 \<Rightarrow> 2688 | QAM256 \<Rightarrow> 43520)"
proof -
  define h where "h = bits_per_symbol order div 2"
  define f where "f u = (2 ^ h - 1 - 2 * int (gray_to_bin u))\<^sup>2" for u
  have "bits_per_symbol order = h + h" using bits_per_symbol_half [of order] by (simp add: h_def)
  then have M: "(2::nat) ^ bits_per_symbol order = 2 ^ h * 2 ^ h" by (simp add: power_add)
  have "(\<Sum>i\<leftarrow>[0..<2 ^ h * 2 ^ h]. (amp_i order i)\<^sup>2 + (amp_q order i)\<^sup>2) = (\<Sum>i<2 ^ h * 2 ^ h. f (i div 2 ^ h) + f (i mod 2 ^ h))"
    unfolding f_def sum_list_distinct_conv_sum_set [OF distinct_upt]
    by (rule sum.cong) (simp_all add: atLeast0LessThan amps_of_label [OF h_def])
  also have "\<dots> = 2 * int (2 ^ h) * (\<Sum>u<2 ^ h. f u)" by (rule sum_div_mod)
  also have "(\<Sum>u<2 ^ h. f u) = (\<Sum>u\<leftarrow>[0..<2 ^ h]. (2 ^ h - 1 - 2 * int (gray_to_bin u))\<^sup>2)"
    unfolding f_def sum_list_distinct_conv_sum_set [OF distinct_upt] by (simp add: atLeast0LessThan)
  also have "2 * int (2 ^ h) * \<dots> = (case order of QPSK \<Rightarrow> 8 | QAM16 \<Rightarrow> 160 | QAM64 \<Rightarrow> 2688 | QAM256 \<Rightarrow> 43520)"
    unfolding h_def by (cases order; hypsubst) code_simp+
  finally show ?thesis by (simp only: M)
qed

lemma modulate_eq:
  assumes "bits_ok bits" "length bits = n * bits_per_symbol order"
  shows "modulate bits order =
    Inr (map (\<lambda>t. symbol_from_index (pack_bits bits (t * bits_per_symbol order) (bits_per_symbol order)) order) [0..<n])"
proof -
  let ?m = "bits_per_symbol order"
  let ?h = "?m div 2"
  have m: "?m = ?h + ?h" "0 < ?m" using bits_per_symbol_half [of order] by simp_all
  have "Complex (scale_for order * of_int (gray_pam_amp bits (t * ?m) ?h)) (scale_for order * of_int (gray_pam_amp bits (t * ?m + ?h) ?h)) =
      symbol_from_index (pack_bits bits (t * ?m) ?m) order" if t: "t < n" for t
  proof -
    have "Suc t * ?m \<le> length bits" unfolding assms(2) using t by (intro mult_le_mono1) simp
    then have i: "t * ?m + ?m \<le> length bits" by simp
    have "gray_pam_amp (msb_bits ?m (pack_bits bits (t * ?m) ?m)) st ?h = gray_pam_amp bits (t * ?m + st) ?h"
      if "st + ?h \<le> ?m" for st
      unfolding msb_pack [OF assms(1) i] gray_pam_amp_def pack_bits_chunk [OF that i] ..
    from this [of 0] this [of ?h] m show ?thesis by (simp add: symbol_from_index_eq amp_i_def amp_q_def)
  qed
  then show ?thesis using assms(2) m(2) by (simp add: modulate_def Let_def cong: map_cong)
qed

lemma point_closer:
  assumes "y = symbol_from_index a order + e" "\<bar>Re e\<bar> < scale_for order" "\<bar>Im e\<bar> < scale_for order" "a \<noteq> b"
    and "a < 2 ^ bits_per_symbol order" "b < 2 ^ bits_per_symbol order"
  shows "(cmod (y - symbol_from_index a order))\<^sup>2 < (cmod (y - symbol_from_index b order))\<^sup>2"
proof -
  let ?s = "scale_for order"
  let ?x = "\<lambda>i. Re y - ?s * of_int (amp_i order i)" and ?z = "\<lambda>i. Im y - ?s * of_int (amp_q order i)"
  have d: "(cmod (y - symbol_from_index i order))\<^sup>2 = (?x i)\<^sup>2 + (?z i)\<^sup>2" for i
    by (simp add: cmod_power2 symbol_from_index_eq)
  have near: "\<bar>?x a\<bar> < ?s" "\<bar>?z a\<bar> < ?s" using assms(1-3) by (simp_all add: symbol_from_index_eq)
  have x: "amp_i order a \<noteq> amp_i order b \<longrightarrow> \<bar>?x a\<bar> < \<bar>?x b\<bar>" using axis_closer [OF amps_in(1,1) near(1)] by blast
  have z: "amp_q order a \<noteq> amp_q order b \<longrightarrow> \<bar>?z a\<bar> < \<bar>?z b\<bar>" using axis_closer [OF amps_in(2,2) near(2)] by blast
  have le: "\<bar>?x a\<bar> \<le> \<bar>?x b\<bar>" "\<bar>?z a\<bar> \<le> \<bar>?z b\<bar>"
    using x z by (cases "amp_i order a = amp_i order b"; cases "amp_q order a = amp_q order b"; simp)+
  have "amp_i order a \<noteq> amp_i order b \<or> amp_q order a \<noteq> amp_q order b" using amps_inj [of order a b] assms(4-6) by blast
  then have "\<bar>?x a\<bar> < \<bar>?x b\<bar> \<or> \<bar>?z a\<bar> < \<bar>?z b\<bar>" using x z by blast
  moreover have "u\<^sup>2 < v\<^sup>2" if "\<bar>u\<bar> < \<bar>v\<bar>" for u v :: real using power_strict_mono [OF that, of 2] by simp
  ultimately have "(?x a)\<^sup>2 < (?x b)\<^sup>2 \<or> (?z a)\<^sup>2 < (?z b)\<^sup>2" by blast
  moreover have "(?x a)\<^sup>2 \<le> (?x b)\<^sup>2" "(?z a)\<^sup>2 \<le> (?z b)\<^sup>2" using le by (simp_all add: abs_le_square_iff)
  ultimately show ?thesis unfolding d by linarith
qed

section \<open>Log-likelihood ratios\<close>

text \<open>The least squared distance of \<open>y\<close> to the points whose label has bit \<open>b\<close> at position \<open>k\<close>.\<close>

definition label_class :: "modulation_order \<Rightarrow> nat \<Rightarrow> u8 \<Rightarrow> nat list" where
  "label_class order k b =
     filter (\<lambda>i. msb_bits (bits_per_symbol order) i ! k = b) [0..<2 ^ bits_per_symbol order]"

definition class_min :: "modulation_order \<Rightarrow> complex \<Rightarrow> nat \<Rightarrow> u8 \<Rightarrow> real" where
  "class_min order y k b = Min ((\<lambda>i. (cmod (y - symbol_from_index i order))\<^sup>2) ` set (label_class order k b))"

lemma Min_step:
  "finite S \<Longrightarrow> S \<noteq> {} \<Longrightarrow> (if d_less (Fin a) (Fin (Min S)) then Fin a else Fin (Min S)) = Fin (Min (insert a S))"
  by (simp add: min_def not_less del: Min_less_iff Min_gr_iff Min_ge_iff Min_le_iff)

lemma fold_min:
  fixes f :: "nat \<Rightarrow> real"
  shows "foldl (\<lambda>m i. if P i then (if d_less (Fin (f i)) m then Fin (f i) else m) else m) PInf xs =
    (if filter P xs = [] then PInf else Fin (Min (f ` set (filter P xs))))"
proof (induction xs rule: rev_induct)
  case (snoc x xs)
  show ?case
  proof (cases "P x \<and> filter P xs \<noteq> []")
    case True
    then have "f ` set (filter P xs) \<noteq> {}" by (simp del: filter_empty_conv set_filter)
    from Min_step [OF _ this, of "f x"] True show ?thesis
      by (simp add: snoc del: filter_empty_conv set_filter d_less.simps)
  qed (use snoc in \<open>auto simp del: filter_empty_conv set_filter\<close>)
qed simp

lemma llr_fold:
  assumes "\<And>i. i \<in> set xs \<Longrightarrow> alphabet ! i = c i"
  shows "foldl (llr_step y alphabet m k) (a, b) xs =
    (foldl (\<lambda>m0 i. if drop_bit (m - 1 - k) i AND 1 = 0 then (if d_less (Fin ((cmod (y - c i))\<^sup>2)) m0 then Fin ((cmod (y - c i))\<^sup>2) else m0) else m0) a xs,
     foldl (\<lambda>m1 i. if drop_bit (m - 1 - k) i AND 1 \<noteq> 0 then (if d_less (Fin ((cmod (y - c i))\<^sup>2)) m1 then Fin ((cmod (y - c i))\<^sup>2) else m1) else m1) b xs)"
  using assms
proof (induction xs arbitrary: a b)
  case (Cons x xs)
  then have "alphabet ! x = c x" by simp
  then show ?case using Cons by (simp add: llr_step_def Let_def del: One_nat_def)
qed simp

lemma bit_of_nat: "(of_nat (x AND 1) = (0::u8)) = (x AND 1 = 0)" "(of_nat (x AND 1) = (1::u8)) = (x AND 1 \<noteq> 0)" for x :: nat
  by (simp_all add: and_one_eq mod_2_eq_odd)

lemma label_class_eq:
  assumes "k < bits_per_symbol order"
  shows "label_class order k 0 = filter (\<lambda>i. drop_bit (bits_per_symbol order - 1 - k) i AND 1 = 0) [0..<2 ^ bits_per_symbol order]"
    and "label_class order k 1 = filter (\<lambda>i. drop_bit (bits_per_symbol order - 1 - k) i AND 1 \<noteq> 0) [0..<2 ^ bits_per_symbol order]"
  using assms by (simp_all only: label_class_def nth_msb_bits bit_of_nat)

text \<open>Both classes of every bit position are inhabited, so the searches end on finite values.\<close>

lemma label_class_nonempty:
  assumes "k < bits_per_symbol order"
  shows "label_class order k 0 \<noteq> []" "label_class order k 1 \<noteq> []"
proof -
  let ?m = "bits_per_symbol order"
  have "0 \<in> set (label_class order k 0)" using assms by (simp add: label_class_eq)
  then show "label_class order k 0 \<noteq> []" by (metis list.set(1) empty_iff)
  have "(2::nat) ^ (?m - 1 - k) < 2 ^ ?m" using assms by simp
  moreover have "drop_bit (?m - 1 - k) (2 ^ (?m - 1 - k)) = (1::nat)" by (simp add: drop_bit_eq_div)
  ultimately have "2 ^ (?m - 1 - k) \<in> set (label_class order k 1)" using assms by (simp add: label_class_eq)
  then show "label_class order k 1 \<noteq> []" by (metis list.set(1) empty_iff)
qed

lemma llr_search:
  assumes "k < bits_per_symbol order"
  shows "foldl (llr_step y (constellation order) (bits_per_symbol order) k) (PInf, PInf) [0..<2 ^ bits_per_symbol order] =
    (Fin (class_min order y k 0), Fin (class_min order y k 1))"
proof -
  let ?m = "bits_per_symbol order"
  have c: "constellation order ! i = symbol_from_index i order" if "i \<in> set [0..<2 ^ ?m]" for i
    using that by (simp add: constellation_def push_bit_eq_mult)
  note ne = label_class_nonempty [OF assms]
  have fold: "foldl (llr_step y (constellation order) ?m k) (PInf, PInf) [0..<2 ^ ?m] =
    (foldl (\<lambda>m0 i. if drop_bit (?m - 1 - k) i AND 1 = 0 then (if d_less (Fin ((cmod (y - symbol_from_index i order))\<^sup>2)) m0 then Fin ((cmod (y - symbol_from_index i order))\<^sup>2) else m0) else m0) PInf [0..<2 ^ ?m],
     foldl (\<lambda>m1 i. if drop_bit (?m - 1 - k) i AND 1 \<noteq> 0 then (if d_less (Fin ((cmod (y - symbol_from_index i order))\<^sup>2)) m1 then Fin ((cmod (y - symbol_from_index i order))\<^sup>2) else m1) else m1) PInf [0..<2 ^ ?m])"
    by (rule llr_fold) (rule c)
  show ?thesis
    unfolding fold fold_min class_min_def label_class_eq [OF assms, symmetric]
    using ne by simp
qed

lemma llr_sign:
  assumes "\<bar>Re e\<bar> < scale_for order" "\<bar>Im e\<bar> < scale_for order"
    and "a < 2 ^ bits_per_symbol order" "k < bits_per_symbol order"
  shows "(class_min order (symbol_from_index a order + e) k 0 \<le> class_min order (symbol_from_index a order + e) k 1 \<longleftrightarrow>
      msb_bits (bits_per_symbol order) a ! k = 0) \<and>
    class_min order (symbol_from_index a order + e) k 0 \<noteq> class_min order (symbol_from_index a order + e) k 1"
proof -
  let ?y = "symbol_from_index a order + e"
  let ?f = "\<lambda>i. (cmod (?y - symbol_from_index i order))\<^sup>2"
  have win: "class_min order ?y k b < class_min order ?y k c"
    if "msb_bits (bits_per_symbol order) a ! k = b" "c \<noteq> b" "label_class order k c \<noteq> []" for b c
  proof -
    have a: "a \<in> set (label_class order k b)" using that(1) assms(3) by (simp add: label_class_def)
    have "class_min order ?y k c \<in> ?f ` set (label_class order k c)"
      unfolding class_min_def using that(3) by (intro Min_in) simp_all
    then obtain j where j: "j \<in> set (label_class order k c)" "class_min order ?y k c = ?f j" by auto
    then have "j < 2 ^ bits_per_symbol order" "a \<noteq> j" using that(1,2) by (auto simp: label_class_def)
    then have "?f a < ?f j" by (intro point_closer [OF refl assms(1,2) _ assms(3)])
    moreover have "class_min order ?y k b \<le> ?f a" unfolding class_min_def by (rule Min_le [OF _ imageI [OF a]]) simp
    ultimately show ?thesis using j(2) by linarith
  qed
  have "is_bit (msb_bits (bits_per_symbol order) a ! k)" using assms(4) by (intro bits_ok_nth) simp_all
  then show ?thesis
  proof (cases rule: is_bit_cases)
    case 1
    then show ?thesis using win [of 0 1] label_class_nonempty [OF assms(4)] by auto
  next
    case 2
    then show ?thesis using win [of 1 0] label_class_nonempty [OF assms(4)] by auto
  qed
qed

lemma demodulate_llr_max_log_aux:
  assumes "noise_var > 0"
  shows "demodulate_llr syms order noise_var =
    Inr (concat (map (\<lambda>y. map (\<lambda>k.
      Fin ((class_min order y k 1 - class_min order y k 0) / (2 * noise_var))) [0..<bits_per_symbol order]) syms))"
proof -
  have "map (\<lambda>k. case foldl (llr_step y (constellation order) (bits_per_symbol order) k) (PInf, PInf) [0..<push_bit (bits_per_symbol order) 1]
      of (min0, min1) \<Rightarrow> d_scale (1 / (2 * noise_var)) (d_sub min1 min0)) [0..<bits_per_symbol order] =
    map (\<lambda>k. Fin ((class_min order y k 1 - class_min order y k 0) / (2 * noise_var))) [0..<bits_per_symbol order]" for y
    by (rule map_cong) (simp_all add: llr_search push_bit_eq_mult d_sub_def)
  then show ?thesis by (simp only: demodulate_llr_def Let_def and_then_require assms if_True)
qed

text \<open>A concrete input for the properties.\<close>

lemma test_modulate: "modulate [0, 1, 1, 0] QPSK = Inr [symbol_from_index 1 QPSK, symbol_from_index 2 QPSK]"
proof -
  have "map (\<lambda>t. pack_bits [0, 1, 1, 0] (t * 2) 2) [0..<2] = [1, 2]" by code_simp
  then show ?thesis using modulate_eq [of "[0, 1, 1, 0]" 2 QPSK] by (simp add: bits_per_symbol_def upt_rec)
qed

lemma test_noise:
  "list_all (\<lambda>e. \<bar>Re e\<bar> < scale_for QPSK \<and> \<bar>Im e\<bar> < scale_for QPSK) [Complex (1 / 2) (- 1 / 2), 0]"
proof -
  have "sqrt 2 < sqrt 4" by (rule real_sqrt_less_mono) simp
  then show ?thesis by (simp add: scale_for_def field_simps)
qed

lemma hard_margin:
  assumes "bits_ok bits" "modulate bits order = Inr syms" "length noise = length syms"
    and "list_all (\<lambda>e. \<bar>Re e\<bar> < scale_for order \<and> \<bar>Im e\<bar> < scale_for order) noise"
  shows "demodulate_hard (map2 (+) syms noise) order = bits"
proof -
  define m where "m = bits_per_symbol order"
  define half where "half = m div 2"
  have m: "m = half + half" using bits_per_symbol_half [of order] by (simp add: m_def half_def)
  from assms(2) have len: "length bits = (length bits div m) * m"
    and syms: "syms = map (\<lambda>t. Complex (scale_for order * of_int (gray_pam_amp bits (t * m) half))
      (scale_for order * of_int (gray_pam_amp bits (t * m + half) half))) [0..<length bits div m]"
    by (auto simp: modulate_def Let_def m_def half_def split: if_splits)
  have "length noise = length bits div m" using assms(3) syms by simp
  from gray_code.margin [OF assms(1) len m syms this assms(4)] show ?thesis
    by (simp only: demodulate_hard_def Let_def m_def half_def)
qed

text \<open>The soft decision, under the same bound on the noise as the hard one.\<close>

definition soft_value :: "modulation_order \<Rightarrow> real \<Rightarrow> complex \<Rightarrow> nat \<Rightarrow> real" where
  "soft_value order noise_var y k = (class_min order y k 1 - class_min order y k 0) / (2 * noise_var)"

text \<open>One noisy symbol: the sign of each of its soft values is the one of the transmitted bit.\<close>

lemma soft_symbol:
  assumes "bits_ok bits" "t * m + m \<le> length bits" "m = bits_per_symbol order" "noise_var > 0"
    and e: "\<bar>Re e\<bar> < scale_for order" "\<bar>Im e\<bar> < scale_for order"
    and y: "y = symbol_from_index (pack_bits bits (t * m) m) order + e"
  shows "map (\<lambda>k. if soft_value order noise_var y k \<ge> 0 then 0 else 1) [0..<m] = take m (drop (t * m) bits)"
    "k < m \<Longrightarrow> soft_value order noise_var y k \<noteq> 0"
proof -
  let ?a = "pack_bits bits (t * m) m"
  have label: "msb_bits m ?a = take m (drop (t * m) bits)" by (rule msb_pack [OF assms(1,2)])
  have point: "(soft_value order noise_var y k \<ge> 0 \<longleftrightarrow> msb_bits m ?a ! k = 0) \<and> soft_value order noise_var y k \<noteq> 0" if "k < m" for k
    using llr_sign [OF e, of ?a k] pack_bits_less [OF assms(1,2)] that assms(3,4)
    by (auto simp: y soft_value_def zero_le_divide_iff)
  then show "k < m \<Longrightarrow> soft_value order noise_var y k \<noteq> 0" by blast
  have "(if soft_value order noise_var y k \<ge> 0 then 0 else 1) = msb_bits m ?a ! k" if k: "k < m" for k
  proof -
    have "is_bit (msb_bits m ?a ! k)" using k by (intro bits_ok_nth) simp_all
    with point [OF k] show ?thesis by (auto simp: is_bit_def)
  qed
  then have "map (\<lambda>k. if soft_value order noise_var y k \<ge> 0 then 0 else 1) [0..<m] = map ((!) (msb_bits m ?a)) [0..<m]"
    by (intro map_cong) simp_all
  also have "\<dots> = msb_bits m ?a" using map_nth [of "msb_bits m ?a"] by simp
  finally show "map (\<lambda>k. if soft_value order noise_var y k \<ge> 0 then 0 else 1) [0..<m] = take m (drop (t * m) bits)"
    by (simp only: label)
qed

lemma soft_margin:
  assumes "bits_ok bits" "modulate bits order = Inr syms" "length noise = length syms"
    and "list_all (\<lambda>e. \<bar>Re e\<bar> < scale_for order \<and> \<bar>Im e\<bar> < scale_for order) noise" "noise_var > 0"
  shows "\<exists>llr. demodulate_llr (map2 (+) syms noise) order noise_var = Inr (map Fin llr) \<and> llr_to_bits llr = bits \<and>
    list_all (\<lambda>x. x \<noteq> 0) llr"
proof -
  define m where "m = bits_per_symbol order"
  define n where "n = length bits div m"
  define soft where "soft = soft_value order noise_var"
  let ?ys = "map2 (+) syms noise"
  have len: "length bits = n * m" using assms(2) by (auto simp: modulate_def Let_def m_def n_def split: if_splits)
  have syms: "syms = map (\<lambda>t. symbol_from_index (pack_bits bits (t * m) m) order) [0..<n]"
    using modulate_eq [OF assms(1) len [unfolded m_def]] assms(2) by (simp add: m_def)
  have sym: "map (\<lambda>k. if soft (?ys ! t) k \<ge> 0 then 0 else 1) [0..<m] = take m (drop (t * m) bits)"
    "k < m \<Longrightarrow> soft (?ys ! t) k \<noteq> 0" if t: "t < n" for t k
  proof -
    have i: "t * m + m \<le> length bits" using t mult_le_mono1 [of "Suc t" n m] by (simp add: len)
    have e: "\<bar>Re (noise ! t)\<bar> < scale_for order" "\<bar>Im (noise ! t)\<bar> < scale_for order"
      using assms(3,4) t syms by (simp_all add: list_all_length)
    have y: "?ys ! t = symbol_from_index (pack_bits bits (t * m) m) order + noise ! t" using syms assms(3) t by simp
    show "map (\<lambda>k. if soft (?ys ! t) k \<ge> 0 then 0 else 1) [0..<m] = take m (drop (t * m) bits)" "k < m \<Longrightarrow> soft (?ys ! t) k \<noteq> 0"
      unfolding soft_def by (rule soft_symbol [OF assms(1) i m_def assms(5) e y], assumption?)+
  qed
  define llr where "llr = concat (map (\<lambda>y. map (soft y) [0..<m]) ?ys)"
  have "demodulate_llr ?ys order noise_var = Inr (map Fin llr)"
    using demodulate_llr_max_log_aux [OF assms(5), of ?ys order]
    by (simp add: llr_def soft_def soft_value_def [abs_def] m_def map_concat comp_def)
  moreover have "map (\<lambda>y. map (\<lambda>k. if soft y k \<ge> 0 then 0 else 1) [0..<m]) ?ys = map (\<lambda>t. take m (drop (t * m) bits)) [0..<n]"
    by (rule nth_equalityI) (use sym(1) syms assms(3) in simp_all)
  then have "llr_to_bits llr = bits"
    using concat_chunks [OF len] by (simp add: llr_to_bits_def llr_def map_concat comp_def)
  moreover have "list_all (\<lambda>x. x \<noteq> 0) llr"
    using sym(2) syms assms(3) by (auto simp: llr_def list_all_iff in_set_conv_nth)
  ultimately show ?thesis by blast
qed

section \<open>Properties\<close>

text \<open>Hard demodulation with noise. If every received symbol is closer than one amplitude step
  (half the distance of neighbouring points) to the sent one on both axes, the hard decisions are
  the sent bits, for every order and every bit vector of whole symbols.\<close>

theorem demodulate_hard_margin:
  assumes "bits_ok bits" "modulate bits order = Inr syms" "length noise = length syms"
    and "list_all (\<lambda>e. \<bar>Re e\<bar> < scale_for order \<and> \<bar>Im e\<bar> < scale_for order) noise"
  shows "demodulate_hard (map2 (+) syms noise) order = bits"
  using assms by (rule hard_margin)

lemma demodulate_hard_margin_witness:
  "demodulate_hard (map2 (+) [symbol_from_index 1 QPSK, symbol_from_index 2 QPSK] [Complex (1 / 2) (- 1 / 2), 0]) QPSK = [0, 1, 1, 0]"
  by (rule demodulate_hard_margin [OF _ test_modulate _ test_noise]) simp_all

text \<open>C23: soft demodulation. It fails exactly on a noise variance that is not positive, and otherwise
  the value for bit \<open>k\<close> of symbol \<open>y\<close> is the max-log ratio: the least squared distance to a
  constellation point whose bit \<open>k\<close> is 1 minus the least to one whose bit \<open>k\<close> is 0, over twice
  the noise variance. Both searches end on a finite value.\<close>

theorem demodulate_llr_max_log:
  "demodulate_llr syms order noise_var =
    (if noise_var > 0
     then Inr (concat (map (\<lambda>y. map (\<lambda>k.
            Fin ((class_min order y k 1 - class_min order y k 0) / (2 * noise_var))) [0..<bits_per_symbol order]) syms))
     else Inl (Error ''noise_var must be > 0''))"
  using demodulate_llr_max_log_aux [of noise_var syms order] by (simp add: demodulate_llr_def)

text \<open>Within the margin the signs of the soft values are the sent bits: modulating bits, adding
  noise that stays under one amplitude step per axis and demodulating softly gives finite values, none of
  them 0, whose hard decision is the bit vector.\<close>

theorem demodulate_llr_decides:
  assumes "bits_ok bits" "modulate bits order = Inr syms" "length noise = length syms"
    and "list_all (\<lambda>e. \<bar>Re e\<bar> < scale_for order \<and> \<bar>Im e\<bar> < scale_for order) noise" "noise_var > 0"
  shows "\<exists>llr. demodulate_llr (map2 (+) syms noise) order noise_var = Inr (map Fin llr) \<and> llr_to_bits llr = bits \<and>
    list_all (\<lambda>x. x \<noteq> 0) llr"
  using assms by (rule soft_margin)

lemma demodulate_llr_decides_witness:
  "\<exists>llr. demodulate_llr (map2 (+) [symbol_from_index 1 QPSK, symbol_from_index 2 QPSK] [Complex (1 / 2) (- 1 / 2), 0]) QPSK 1 =
    Inr (map Fin llr) \<and> llr_to_bits llr = [0, 1, 1, 0] \<and> list_all (\<lambda>x. x \<noteq> 0) llr"
  by (rule demodulate_llr_decides [OF _ test_modulate _ test_noise]) simp_all

text \<open>Modulation is a constellation lookup. It fails exactly when the bits do not fill whole
  symbols; otherwise symbol \<open>t\<close> is the entry of \<open>constellation\<close> at the number formed by its bits,
  most significant first.\<close>

theorem modulate_looks_up:
  assumes "bits_ok bits"
  shows "modulate bits order =
    (if length bits mod bits_per_symbol order = 0
     then Inr (map (\<lambda>t. constellation order ! pack_bits bits (t * bits_per_symbol order) (bits_per_symbol order))
       [0..<length bits div bits_per_symbol order])
     else Inl (Error ''bit length not multiple of Qm''))"
proof (cases "length bits mod bits_per_symbol order = 0")
  case True
  let ?m = "bits_per_symbol order"
  have len: "length bits = length bits div ?m * ?m" using True by auto
  have "symbol_from_index (pack_bits bits (t * ?m) ?m) order = constellation order ! pack_bits bits (t * ?m) ?m"
    if "t < length bits div ?m" for t
  proof -
    have "Suc t * ?m \<le> length bits div ?m * ?m" using that by (intro mult_le_mono1) simp
    then have "pack_bits bits (t * ?m) ?m < 2 ^ ?m" using len by (intro pack_bits_less assms) simp
    then show ?thesis by (simp add: constellation_def push_bit_eq_mult)
  qed
  then show ?thesis unfolding modulate_eq [OF assms len] using True by simp
qed (simp add: modulate_def Let_def)

lemma modulate_looks_up_witness:
  "modulate [0, 1, 1] QPSK = Inl (Error ''bit length not multiple of Qm'') \<and>
   modulate [0, 1, 1, 0] QPSK = Inr [constellation QPSK ! 1, constellation QPSK ! 2]"
proof -
  have "map (\<lambda>t. pack_bits [0, 1, 1, 0] (t * 2) 2) [0..<2] = [1, 2]" by code_simp
  then show ?thesis
    using modulate_looks_up [of "[0, 1, 1]" QPSK] modulate_looks_up [of "[0, 1, 1, 0]" QPSK] by (simp add: bits_per_symbol_def upt_rec)
qed

text \<open>C36: every constellation has one point per label, all distinct, and average energy one.\<close>

theorem constellation_ok:
  "length (constellation order) = 2 ^ bits_per_symbol order \<and> distinct (constellation order) \<and>
   constellation_avg_energy order = 1"
proof -
  let ?M = "2 ^ bits_per_symbol order"
  have c: "constellation order = map (\<lambda>i. symbol_from_index i order) [0..<?M]" by (simp add: constellation_def push_bit_eq_mult)
  have "distinct (constellation order)"
    unfolding c distinct_map using scale_pos [of order] amps_inj [of order]
    by (auto simp: inj_on_def symbol_from_index_eq)
  moreover have "foldl (\<lambda>e z. e + (cmod z)\<^sup>2) e0 (map (\<lambda>i. symbol_from_index i order) is) =
      e0 + (scale_for order)\<^sup>2 * of_int (\<Sum>i\<leftarrow>is. (amp_i order i)\<^sup>2 + (amp_q order i)\<^sup>2)" for e0 "is"
    by (induction "is" arbitrary: e0) (simp_all add: symbol_from_index_eq cmod_power2 power_mult_distrib algebra_simps)
  moreover have "(scale_for order)\<^sup>2 * of_int (\<Sum>i\<leftarrow>[0..<?M]. (amp_i order i)\<^sup>2 + (amp_q order i)\<^sup>2) = real ?M"
  proof -
    have "(scale_for order)\<^sup>2 * of_int (case order of QPSK \<Rightarrow> 8 | QAM16 \<Rightarrow> 160 | QAM64 \<Rightarrow> 2688 | QAM256 \<Rightarrow> 43520) = real ?M"
      by (cases order) (simp_all add: scale_for_def power_divide bits_per_symbol_def)
    then show ?thesis by (simp only: amps_energy)
  qed
  ultimately show ?thesis by (simp add: constellation_avg_energy_def c del: upt_Suc)
qed

text \<open>The bit groups of the amplitudes in ascending order: each differs from the next in one position.\<close>

definition gray_ladder :: "nat \<Rightarrow> bool" where
  "gray_ladder n =
     (let bs = map (\<lambda>a. gray_bits_from_amp a n) (amplitudes n) in
      list_all (\<lambda>(x, y). length (filter (\<lambda>i. x ! i \<noteq> y ! i) [0..<n]) = 1) (zip bs (tl bs)))"

lemma gray_ladders: "list_all gray_ladder [1, 2, 3, 4]"
  by code_simp

text \<open>The mapping of each axis is a Gray code: amplitudes that are neighbours on the axis carry
  bit groups that differ in exactly one position.\<close>

theorem neighbours_differ_in_one_bit:
  assumes "a \<in> set (amplitudes (bits_per_symbol order div 2))" "a + 2 \<in> set (amplitudes (bits_per_symbol order div 2))"
  shows "length (filter (\<lambda>i. gray_bits_from_amp a (bits_per_symbol order div 2) ! i \<noteq>
      gray_bits_from_amp (a + 2) (bits_per_symbol order div 2) ! i) [0..<bits_per_symbol order div 2]) = 1"
proof -
  define n where "n = bits_per_symbol order div 2"
  have "n \<in> set [1, 2, 3, 4]" by (cases order) (simp_all add: n_def bits_per_symbol_def)
  then have ladder: "gray_ladder n" using gray_ladders unfolding list_all_iff by blast
  have amps: "length (amplitudes n) = 2 ^ n" "\<And>k. k < 2 ^ n \<Longrightarrow> amplitudes n ! k = 1 - 2 ^ n + 2 * int k"
    by (simp_all add: amplitudes_def Let_def nat_power_eq)
  obtain k j where k: "k < 2 ^ n" "amplitudes n ! k = a" and j: "j < 2 ^ n" "amplitudes n ! j = a + 2"
    using assms amps(1) unfolding n_def [symmetric] in_set_conv_nth by metis
  then have jk: "j = Suc k" using amps(2) by force
  let ?bs = "map (\<lambda>a. gray_bits_from_amp a n) (amplitudes n)"
  have "k < length (zip ?bs (tl ?bs))" using j jk amps(1) by simp
  moreover have "zip ?bs (tl ?bs) ! k = (gray_bits_from_amp a n, gray_bits_from_amp (a + 2) n)"
    using k j jk amps(1) by (simp add: nth_tl)
  ultimately show ?thesis
    using ladder unfolding n_def [symmetric] gray_ladder_def Let_def list_all_length by fastforce
qed

lemma neighbours_differ_in_one_bit_witness:
  "length (filter (\<lambda>i. gray_bits_from_amp (- 1) 2 ! i \<noteq> gray_bits_from_amp 1 2 ! i) [0..<2]) = 1"
  using neighbours_differ_in_one_bit [of "- 1" QAM16] by (simp add: bits_per_symbol_def amplitudes_def upt_rec)

end
