(* ===== verification/Segmentation.thy ===== *)
theory Segmentation
  imports CInt Crc LdpcGraph
begin

text \<open>
  \<open>include/nr_bb/segmentation.hpp\<close> and \<open>src/segmentation.cpp\<close>: the number of code blocks, the
  split of the transport block with CRC24B and filler, the choice of the base graph and lifting
  size of each block, and concatenation. \<open>refine_blocks\<close> is the \<open>while (true)\<close> loop,
  \<open>plan_block\<close> the body of the loop over the blocks.
\<close>

section \<open>The code\<close>

record segmentation_config =
  sg_max_cb :: nat
  sg_attach :: bool
  sg_bg :: base_graph
  sg_rate :: real
  sg_auto :: bool

definition default_segmentation :: segmentation_config where
  "default_segmentation = \<lparr>sg_max_cb = 8448, sg_attach = True, sg_bg = BG2, sg_rate = 1 / 2, sg_auto = True\<rparr>"

record code_block_plan =
  cb_bits :: bitvec
  cb_filler :: int
  cb_k_ldpc :: int
  cb_zc :: int
  cb_i_ls :: int
  cb_bg :: base_graph
  cb_ldpc :: ldpc_params

record segmentation_result =
  sr_blocks :: "code_block_plan list"
  sr_transport_crc :: nat
  sr_filler :: nat
  sr_num :: int

definition crc_overhead :: "segmentation_config \<Rightarrow> int \<Rightarrow> int" where
  "crc_overhead cfg C = (if C > 1 \<and> sg_attach cfg then 24 else 0)"

definition size_add :: "nat \<Rightarrow> nat \<Rightarrow> nat" where
  "size_add a b = (a + b) mod 18446744073709551616"

definition block_size :: "nat \<Rightarrow> int \<Rightarrow> int \<Rightarrow> nat result" where
  "block_size B C L =
     and_then (int_op (C * L)) (\<lambda>cl.
     if to_size C = 0 then Inl (Undefined ''division by zero'')
     else Inr (size_add (size_add B (to_size cl)) (size_add (to_size C) 18446744073709551615) div to_size C))"

function refine_blocks :: "segmentation_config \<Rightarrow> nat \<Rightarrow> nat \<Rightarrow> int \<Rightarrow> int result" where
  "refine_blocks cfg B K_cb C =
     and_then (block_size B C (crc_overhead cfg C)) (\<lambda>Kp.
     if Kp - to_size (crc_overhead cfg C) \<le> K_cb then Inr C
     else and_then (int_op (C + 1)) (\<lambda>C'.
       if C' < 10000 then refine_blocks cfg B K_cb C' else Inl (Error ''segmentation C runaway'')))"
  by pat_completeness auto
termination by (relation "measure (\<lambda>(cfg, B, K_cb, C). nat (10000 - C))") (auto simp: int_op_Inr_iff)

declare refine_blocks.simps [simp del]

definition num_blocks :: "segmentation_config \<Rightarrow> nat \<Rightarrow> int result" where
  "num_blocks cfg B =
     (if B > sg_max_cb cfg
      then refine_blocks cfg B (sg_max_cb cfg) (to_int32 ((B + sg_max_cb cfg - 1) div sg_max_cb cfg))
      else Inr 1)"

definition plan_block :: "segmentation_config \<Rightarrow> int \<Rightarrow> bitvec \<Rightarrow> code_block_plan result" where
  "plan_block cfg L payload =
     and_then (if L > 0 then crc_attach payload CRC24B else Inr payload) (\<lambda>bits.
     and_then (if sg_auto cfg then select_basegraph (to_int32 (length bits)) (sg_rate cfg) else Inr (sg_bg cfg)) (\<lambda>bg.
     and_then (select_lifting (to_int32 (length bits)) bg) (\<lambda>lift.
     let k = lc_kb lift * lc_zc lift; filler = k - to_int32 (length bits) in
     and_then (require (filler \<ge> 0) ''negative filler'') (\<lambda>_.
     Inr \<lparr>cb_bits = bits, cb_filler = filler, cb_k_ldpc = k, cb_zc = lc_zc lift, cb_i_ls = lc_i_ls lift, cb_bg = bg,
          cb_ldpc = default_params\<lparr>p_bg := bg, p_zc := lc_zc lift, p_i_ls := lc_i_ls lift,
            p_info_bits := to_int32 (length bits), p_kb := lc_kb lift\<rparr>\<rparr>))))"

fun plan_blocks :: "segmentation_config \<Rightarrow> bitvec \<Rightarrow> int \<Rightarrow> nat \<Rightarrow> nat list \<Rightarrow> nat \<Rightarrow> segmentation_result \<Rightarrow>
    segmentation_result result" where
  "plan_blocks cfg tb L Kinfo [] offset r = Inr r"
| "plan_blocks cfg tb L Kinfo (c # cs) offset r =
     (let taken = min Kinfo (length tb - offset);
          payload = take taken (drop offset tb) @ replicate (Kinfo - taken) 0
      in and_then (plan_block cfg L payload) (\<lambda>plan.
         plan_blocks cfg tb L Kinfo cs (offset + taken)
           (r\<lparr>sr_filler := sr_filler r + to_size (cb_filler plan), sr_blocks := sr_blocks r @ [plan]\<rparr>)))"

definition empty_result :: segmentation_result where
  "empty_result = \<lparr>sr_blocks = [], sr_transport_crc = 0, sr_filler = 0, sr_num = 0\<rparr>"

definition segment_transport_block :: "bitvec \<Rightarrow> segmentation_config \<Rightarrow> segmentation_result result" where
  "segment_transport_block tb cfg =
     (if tb = [] then Inr empty_result
      else and_then (require (sg_max_cb cfg \<ge> 40) ''max_cb_info_bits too small'') (\<lambda>_.
           and_then (num_blocks cfg (length tb)) (\<lambda>C.
           and_then (block_size (length tb) C (crc_overhead cfg C)) (\<lambda>Kp.
           plan_blocks cfg tb (crc_overhead cfg C) (Kp - to_size (crc_overhead cfg C)) [0..<nat C] 0
             (empty_result\<lparr>sr_num := C\<rparr>)))))"

definition segment_transport_block_fixed :: "bitvec \<Rightarrow> nat \<Rightarrow> segmentation_result result" where
  "segment_transport_block_fixed tb max_cb_bits =
     segment_transport_block tb (default_segmentation\<lparr>sg_max_cb := max_cb_bits, sg_attach := False, sg_auto := True\<rparr>)"

definition concatenate_code_blocks :: "bitvec list \<Rightarrow> nat \<Rightarrow> bitvec result" where
  "concatenate_code_blocks cbs filler_bits =
     (let out = concat cbs in
      if filler_bits > 0
      then and_then (require (length out \<ge> filler_bits) ''filler exceeds concatenated size'')
             (\<lambda>_. Inr (take (length out - filler_bits) out))
      else Inr out)"

section \<open>The number of code blocks\<close>

definition ceil_div :: "nat \<Rightarrow> nat \<Rightarrow> nat" where
  "ceil_div a b = (a + b - 1) div b"

lemma ceil_div_le_iff: "0 < b \<Longrightarrow> ceil_div a b \<le> k \<longleftrightarrow> a \<le> k * b"
proof -
  assume b: "0 < b"
  have "ceil_div a b < Suc k \<longleftrightarrow> a + b - 1 < Suc k * b"
    using b by (simp add: ceil_div_def div_less_iff_less_mult del: mult_Suc)
  also have "\<dots> \<longleftrightarrow> a \<le> k * b" using b by auto
  finally show "ceil_div a b \<le> k \<longleftrightarrow> a \<le> k * b" by (simp only: less_Suc_eq_le)
qed

lemma ceil_div_mult: "0 < b \<Longrightarrow> a \<le> ceil_div a b * b"
  by (simp flip: ceil_div_le_iff)

lemma ceil_div_pos: "0 < b \<Longrightarrow> 0 < a \<Longrightarrow> 0 < ceil_div a b"
  using ceil_div_le_iff [of b a 0] by auto

definition spec_blocks :: "segmentation_config \<Rightarrow> nat \<Rightarrow> nat" where
  "spec_blocks cfg B = (if B > sg_max_cb cfg then ceil_div B (sg_max_cb cfg) else 1)"

lemma block_size_eq:
  assumes "0 < C" "B < 2147483648" "C \<le> 53687092" "L = 0 \<or> L = 24"
  shows "block_size B (int C) L = Inr (ceil_div B C + nat L)"
proof -
  have ok: "int_ok (int C * L)" using assms by (auto simp: int_ok_def)
  have tC: "to_size (int C) = C" using assms(3) by simp
  have tL: "to_size (int C * L) = C * nat L" using assms by (auto simp: to_size_def nat_mod_distrib nat_mult_distrib)
  have s1: "size_add C 18446744073709551615 = C - 1"
  proof -
    have "size_add C 18446744073709551615 = ((C - 1) + 18446744073709551616) mod 18446744073709551616"
      using assms(1) by (simp add: size_add_def tC add.commute)
    then show ?thesis using assms(3) by simp
  qed
  have s2: "size_add (size_add B (to_size (int C * L))) (C - 1) = B + C * nat L + (C - 1)"
    using assms by (auto simp: size_add_def tL)
  have "(B + C * nat L + (C - 1)) div C = (B + (C - 1) + nat L * C) div C" by (simp add: ac_simps)
  also have "\<dots> = nat L + (B + (C - 1)) div C" using assms(1) by (subst div_mult_self1) simp_all
  also have "\<dots> = ceil_div B C + nat L" using assms(1) by (simp add: ceil_div_def)
  finally show ?thesis using assms(1) ok by (simp only: block_size_def int_op_ok and_then.simps tC s1 s2) simp
qed

lemma spec_blocks_bounds:
  assumes "0 < B" "B < 2147483648" "40 \<le> sg_max_cb cfg"
  shows "0 < spec_blocks cfg B" "spec_blocks cfg B \<le> 53687092" "ceil_div B (spec_blocks cfg B) \<le> sg_max_cb cfg"
proof -
  have k: "0 < sg_max_cb cfg" using assms(3) by simp
  show pos: "0 < spec_blocks cfg B" using assms ceil_div_pos [OF k assms(1)] by (simp add: spec_blocks_def)
  have "B \<le> 53687092 * 40" using assms(2) by simp
  also have "\<dots> \<le> 53687092 * sg_max_cb cfg" using assms(3) by (intro mult_left_mono) simp_all
  finally show "spec_blocks cfg B \<le> 53687092"
    using ceil_div_le_iff [OF k] by (simp add: spec_blocks_def)
  have "B \<le> sg_max_cb cfg * spec_blocks cfg B"
    using ceil_div_mult [OF k, of B] by (simp add: spec_blocks_def mult.commute)
  then show "ceil_div B (spec_blocks cfg B) \<le> sg_max_cb cfg"
    using ceil_div_le_iff [OF pos] by simp
qed

lemma block_room:
  assumes "0 < B" "B < 2147483648" "40 \<le> sg_max_cb cfg"
  shows "ceil_div B (spec_blocks cfg B) + nat (crc_overhead cfg (int (spec_blocks cfg B))) < 2147483648"
proof (cases "1 < spec_blocks cfg B")
  case True
  have "ceil_div B (spec_blocks cfg B) \<le> 1073741824"
    using True assms(2) mult_le_mono1 [of 2 "spec_blocks cfg B" 1073741824]
      ceil_div_le_iff [OF spec_blocks_bounds(1) [OF assms], of B 1073741824] by (simp add: mult.commute)
  then show ?thesis by (simp add: crc_overhead_def)
next
  case False
  have "ceil_div B (spec_blocks cfg B) \<le> B"
    using spec_blocks_bounds(1) [OF assms] by (simp add: ceil_div_le_iff)
  with False assms(2) show ?thesis by (simp add: crc_overhead_def)
qed

lemma num_blocks_eq:
  assumes "0 < B" "B < 2147483648" "40 \<le> sg_max_cb cfg"
  shows "num_blocks cfg B = Inr (int (spec_blocks cfg B))"
proof (cases "B > sg_max_cb cfg")
  case True
  let ?C = "spec_blocks cfg B"
  note s = spec_blocks_bounds [OF assms]
  have C: "to_int32 ((B + sg_max_cb cfg - 1) div sg_max_cb cfg) = int ?C"
    using s(2) True by (subst to_int32_small) (simp_all add: spec_blocks_def ceil_div_def)
  have "block_size B (int ?C) (crc_overhead cfg (int ?C)) = Inr (ceil_div B ?C + nat (crc_overhead cfg (int ?C)))"
    by (rule block_size_eq) (use s assms in \<open>auto simp: crc_overhead_def\<close>)
  moreover have "to_size (crc_overhead cfg (int ?C)) = nat (crc_overhead cfg (int ?C))"
    by (simp add: crc_overhead_def)
  ultimately have "refine_blocks cfg B (sg_max_cb cfg) (int ?C) = Inr (int ?C)"
    using s(3) by (simp add: refine_blocks.simps [of cfg B "sg_max_cb cfg"])
  with True C show ?thesis by (simp add: num_blocks_def)
qed (simp add: num_blocks_def spec_blocks_def)

section \<open>The blocks\<close>

fun payloads :: "nat \<Rightarrow> bitvec \<Rightarrow> nat \<Rightarrow> bitvec list" where
  "payloads K xs 0 = []"
| "payloads K xs (Suc n) = (take K xs @ replicate (K - length xs) 0) # payloads K (drop K xs) n"

lemma length_payloads [simp]: "length (payloads K xs n) = n"
  by (induction n arbitrary: xs) simp_all

lemma payloads_length: "p \<in> set (payloads K xs n) \<Longrightarrow> length p = K"
  by (induction n arbitrary: xs) auto

lemma payloads_bits: "bits_ok xs \<Longrightarrow> p \<in> set (payloads K xs n) \<Longrightarrow> bits_ok p"
proof (induction n arbitrary: xs)
  case (Suc n)
  then show ?case using Suc.IH [OF bits_ok_drop [OF Suc.prems(1), of K]] by (auto intro: bits_ok_take)
qed simp

lemma concat_payloads: "length xs \<le> n * K \<Longrightarrow> concat (payloads K xs n) = xs @ replicate (n * K - length xs) 0"
proof (induction n arbitrary: xs)
  case (Suc n)
  then have "concat (payloads K (drop K xs) n) = drop K xs @ replicate (n * K - length (drop K xs)) 0" by simp
  moreover have "take K xs @ drop K xs @ zs = xs @ zs" for zs by (metis append.assoc append_take_drop_id)
  ultimately show ?case
    by (cases "length xs \<le> K") (simp_all add: replicate_add [symmetric] not_le add.commute)
qed simp

lemma plan_blocks_eq:
  assumes "off \<le> length tb"
  shows "plan_blocks cfg tb L K cs off r =
    and_then (mapE (plan_block cfg L) (payloads K (drop off tb) (length cs))) (\<lambda>plans.
      Inr (r\<lparr>sr_filler := sr_filler r + (\<Sum>q\<leftarrow>plans. to_size (cb_filler q)), sr_blocks := sr_blocks r @ plans\<rparr>))"
  using assms
proof (induction cs arbitrary: off r)
  case (Cons c cs)
  let ?t = "min K (length tb - off)"
  have 1: "off + ?t \<le> length tb" using Cons.prems by simp
  have 2: "drop (off + ?t) tb = drop K (drop off tb)" by (auto simp: min_def add.commute)
  have 3: "take ?t (drop off tb) @ replicate (K - ?t) 0 = take K (drop off tb) @ replicate (K - length (drop off tb)) 0"
    by (auto simp: min_def)
  show ?case
    by (simp only: plan_blocks.simps Let_def 3 Cons.IH [OF 1] 2 list.size payloads.simps mapE.simps and_then_assoc)
      (simp add: and_then_assoc add.assoc)
qed simp

definition chosen_bg :: "segmentation_config \<Rightarrow> nat \<Rightarrow> base_graph" where
  "chosen_bg cfg n =
     (if sg_auto cfg
      then (if n \<le> 292 \<or> n \<le> 3824 \<and> sg_rate cfg \<le> 67 / 100 \<or> sg_rate cfg \<le> 1 / 4 then BG2 else BG1)
      else sg_bg cfg)"

definition block_fits :: "segmentation_config \<Rightarrow> nat \<Rightarrow> bool" where
  "block_fits cfg n \<longleftrightarrow> (sg_auto cfg \<longrightarrow> 12 \<le> n) \<and>
     int n \<le> kb_for_selection (int n) (chosen_bg cfg n) * 384"

definition plan_of :: "segmentation_config \<Rightarrow> bitvec \<Rightarrow> lifting_choice \<Rightarrow> code_block_plan" where
  "plan_of cfg bits lift =
     (let n = int (length bits); bg = chosen_bg cfg (length bits); k = lc_kb lift * lc_zc lift in
      \<lparr>cb_bits = bits, cb_filler = k - n, cb_k_ldpc = k, cb_zc = lc_zc lift, cb_i_ls = lc_i_ls lift, cb_bg = bg,
       cb_ldpc = default_params\<lparr>p_bg := bg, p_zc := lc_zc lift, p_i_ls := lc_i_ls lift, p_info_bits := n,
         p_kb := lc_kb lift\<rparr>\<rparr>)"

lemma select_chosen:
  assumes "n < 2147483648"
  shows "(if sg_auto cfg then select_basegraph (to_int32 n) (sg_rate cfg) else Inr (sg_bg cfg)) =
    (if sg_auto cfg \<and> n < 12 then Inl (Error ''K too small for NR LDPC'') else Inr (chosen_bg cfg n))"
  using assms by (auto simp: select_basegraph_def chosen_bg_def)

lemma lifting_covers:
  assumes "select_lifting k bg = Inr lc"
  shows "k \<le> lc_kb lc * lc_zc lc"
proof -
  note s = select_lifting_Inr [OF assms]
  have "kb_for_selection k bg * lc_zc lc \<le> lc_kb lc * lc_zc lc"
    using kb_for_selection_bounds(3) [of k bg] s(7) valid_lifting_bounds [OF s(1)]
    by (intro mult_right_mono) simp_all
  with s(5) show ?thesis by linarith
qed

lemma plan_block_eq:
  assumes "length payload + nat L < 2147483648" "L = 0 \<or> L = 24"
  shows "plan_block cfg L payload =
    and_then (if L > 0 then crc_attach payload CRC24B else Inr payload) (\<lambda>bits.
    if sg_auto cfg \<and> length bits < 12 then Inl (Error ''K too small for NR LDPC'')
    else and_then (select_lifting (int (length bits)) (chosen_bg cfg (length bits))) (\<lambda>lift. Inr (plan_of cfg bits lift)))"
proof -
  have len: "length bits < 2147483648"
    if "(if L > 0 then crc_attach payload CRC24B else Inr payload) = Inr bits" for bits
    using that assms by (auto elim!: crc_attach_Inr split: if_splits)
  show ?thesis unfolding plan_block_def
  proof (rule and_then_cong [OF refl])
    fix bits assume "(if L > 0 then crc_attach payload CRC24B else Inr payload) = Inr bits"
    note l = len [OF this]
    from l lifting_covers [of "int (length bits)" "chosen_bg cfg (length bits)"]
    show "and_then (if sg_auto cfg then select_basegraph (to_int32 (length bits)) (sg_rate cfg) else Inr (sg_bg cfg)) (\<lambda>bg.
      and_then (select_lifting (to_int32 (length bits)) bg) (\<lambda>lift.
      let k = lc_kb lift * lc_zc lift; filler = k - to_int32 (length bits) in
      and_then (require (filler \<ge> 0) ''negative filler'') (\<lambda>_.
      Inr \<lparr>cb_bits = bits, cb_filler = filler, cb_k_ldpc = k, cb_zc = lc_zc lift, cb_i_ls = lc_i_ls lift, cb_bg = bg,
          cb_ldpc = default_params\<lparr>p_bg := bg, p_zc := lc_zc lift, p_i_ls := lc_i_ls lift,
            p_info_bits := to_int32 (length bits), p_kb := lc_kb lift\<rparr>\<rparr>))) =
      (if sg_auto cfg \<and> length bits < 12 then Inl (Error ''K too small for NR LDPC'')
       else and_then (select_lifting (int (length bits)) (chosen_bg cfg (length bits))) (\<lambda>lift. Inr (plan_of cfg bits lift)))"
      by (auto simp: select_chosen plan_of_def Let_def intro!: and_then_cong)
  qed
qed

lemma mapE_total:
  "(\<exists>ys. mapE f xs = Inr ys) \<longleftrightarrow> (\<forall>x\<in>set xs. \<exists>y. f x = Inr y)"
  by (induction xs) (auto simp: and_then_Inr_iff)

lemma and_then_ex: "(\<exists>y. and_then x f = Inr y) \<longleftrightarrow> (\<exists>z. x = Inr z \<and> (\<exists>y. f z = Inr y))"
  by (cases x) auto

lemma plan_block_iff:
  assumes "length payload + nat L < 2147483648" "L = 0 \<or> L = 24"
  shows "(\<exists>q. plan_block cfg L payload = Inr q) \<longleftrightarrow>
    (L > 0 \<longrightarrow> bits_ok payload) \<and> block_fits cfg (length payload + nat L)"
proof -
  let ?X = "if L > 0 then crc_attach payload CRC24B else Inr payload"
  have sel: "(\<exists>lc. select_lifting (int n) bg = Inr lc) \<longleftrightarrow> int n \<le> kb_for_selection (int n) bg * 384" for n bg
    using select_lifting_total [of "int n" bg] select_lifting_error [of "int n" bg] by fastforce
  have 1: "(\<exists>q. plan_block cfg L payload = Inr q) \<longleftrightarrow> (\<exists>bits. ?X = Inr bits \<and> block_fits cfg (length bits))"
    unfolding plan_block_eq [OF assms] block_fits_def and_then_ex
    by (intro arg_cong [of _ _ Ex] ext) (auto simp: and_then_ex not_less simp flip: sel)
  have "(\<exists>bits. ?X = Inr bits) \<longleftrightarrow> (L > 0 \<longrightarrow> bits_ok payload)"
    by (auto simp: crc_attach_eq)
  moreover have "length bits = length payload + nat L" if "?X = Inr bits" for bits
    using that assms(2) by (auto elim!: crc_attach_Inr split: if_splits)
  ultimately show ?thesis unfolding 1 by metis
qed

lemma segment_eq:
  assumes "tb \<noteq> []" "length tb < 2147483648" "40 \<le> sg_max_cb cfg"
  shows "segment_transport_block tb cfg =
    (let C = spec_blocks cfg (length tb); K = ceil_div (length tb) C; L = crc_overhead cfg (int C) in
     and_then (mapE (plan_block cfg L) (payloads K tb C)) (\<lambda>plans.
       Inr \<lparr>sr_blocks = plans, sr_transport_crc = 0, sr_filler = (\<Sum>q\<leftarrow>plans. to_size (cb_filler q)),
            sr_num = int C\<rparr>))"
proof -
  let ?C = "spec_blocks cfg (length tb)"
  have B: "0 < length tb" using assms(1) by simp
  note s = spec_blocks_bounds [OF B assms(2,3)]
  have "block_size (length tb) (int ?C) (crc_overhead cfg (int ?C)) =
      Inr (ceil_div (length tb) ?C + nat (crc_overhead cfg (int ?C)))"
    by (rule block_size_eq) (use s assms(2) in \<open>auto simp: crc_overhead_def\<close>)
  moreover have "to_size (crc_overhead cfg (int ?C)) = nat (crc_overhead cfg (int ?C))"
    by (simp add: crc_overhead_def)
  ultimately show ?thesis
    using assms plan_blocks_eq [of 0 tb cfg]
    by (simp add: segment_transport_block_def num_blocks_eq [OF B assms(2,3)] Let_def empty_result_def)
qed

lemma test_segments:
  obtains r q where "segment_transport_block (replicate 100 1) default_segmentation = Inr r" "sr_blocks r = [q]"
proof -
  let ?p = "replicate 100 1 :: bitvec"
  have sp: "spec_blocks default_segmentation 100 = 1" by (simp add: spec_blocks_def default_segmentation_def)
  have "\<exists>q. plan_block default_segmentation 0 ?p = Inr q"
    by (subst plan_block_iff)
      (simp_all add: block_fits_def default_segmentation_def chosen_bg_def kb_for_selection_def)
  then obtain q where "plan_block default_segmentation 0 ?p = Inr q" by blast
  moreover have "40 \<le> sg_max_cb default_segmentation" by (simp add: default_segmentation_def)
  ultimately show thesis using that segment_eq [of ?p default_segmentation] sp
    by (simp add: crc_overhead_def ceil_div_def Let_def)
qed

section \<open>Properties\<close>

text \<open>C21: the \<open>while (true)\<close> loop over the number of code blocks stops at its first test: for every
  transport block and every limit of at least 40 bits the number of blocks is the rounded-up
  quotient, the increment and its \<open>runaway\<close> error are never reached.\<close>

theorem num_blocks_terminates:
  assumes "0 < B" "B < 2147483648" "40 \<le> sg_max_cb cfg"
  shows "num_blocks cfg B = Inr (if B \<le> sg_max_cb cfg then 1 else \<lceil>real B / real (sg_max_cb cfg)\<rceil>)"
proof (cases "B \<le> sg_max_cb cfg")
  case False
  let ?K = "sg_max_cb cfg"
  have K: "0 < ?K" using assms(3) by simp
  have "\<lceil>real B / real ?K\<rceil> = int (ceil_div B ?K)"
  proof (rule ceiling_unique)
    have "\<not> B \<le> (ceil_div B ?K - 1) * ?K"
      using ceil_div_le_iff [OF K, of B "ceil_div B ?K - 1"] ceil_div_pos [OF K assms(1)] by linarith
    then have "real ((ceil_div B ?K - 1) * ?K) < real B" by (simp only: of_nat_less_iff not_le)
    then have "real (ceil_div B ?K - 1) < real B / real ?K" using K by (simp add: pos_less_divide_eq)
    then show "real_of_int (int (ceil_div B ?K)) - 1 < real B / real ?K"
      using ceil_div_pos [OF K assms(1)] by (simp add: of_nat_diff)
    have "real B \<le> real (ceil_div B ?K * ?K)" using ceil_div_mult [OF K, of B] by linarith
    then show "real B / real ?K \<le> real_of_int (int (ceil_div B ?K))" using K by (simp add: pos_divide_le_eq)
  qed
  with False num_blocks_eq [OF assms] show ?thesis by (simp add: spec_blocks_def)
qed (use num_blocks_eq [OF assms] in \<open>simp add: spec_blocks_def\<close>)

theorem num_blocks_terminates_witness: "num_blocks default_segmentation 20000 = Inr 3"
proof -
  have "\<lceil>20000 / 8448 :: real\<rceil> = 3" by (simp add: ceiling_eq_iff)
  then show ?thesis
    using num_blocks_terminates [of 20000 default_segmentation] by (simp add: default_segmentation_def)
qed

lemma plan_block_carries:
  assumes "plan_block cfg L p = Inr q" "L = 0 \<or> L = 24" "length p + nat L < 2147483648"
  shows "take (length p) (cb_bits q) = p" "length (cb_bits q) = length p + nat L" "L > 0 \<longrightarrow> crc_check (cb_bits q) CRC24B = Inr True"
    "cb_filler q \<ge> 0" "cb_k_ldpc q = int (length (cb_bits q)) + cb_filler q"
proof -
  obtain bits lift where bits: "(if L > 0 then crc_attach p CRC24B else Inr p) = Inr bits"
    and lift: "select_lifting (int (length bits)) (chosen_bg cfg (length bits)) = Inr lift" and q: "q = plan_of cfg bits lift"
    using assms(1) plan_block_eq [OF _ assms(2), of p cfg] assms(3) by (auto simp: and_then_Inr_iff split: if_split_asm)
  from bits assms(2) have "take (length p) bits = p \<and> length bits = length p + nat L \<and> (L > 0 \<longrightarrow> crc_check bits CRC24B = Inr True)"
    by (auto elim!: crc_attach_Inr split: if_splits)
  with lifting_covers [OF lift] show "take (length p) (cb_bits q) = p" "length (cb_bits q) = length p + nat L"
    "L > 0 \<longrightarrow> crc_check (cb_bits q) CRC24B = Inr True" "cb_filler q \<ge> 0" "cb_k_ldpc q = int (length (cb_bits q)) + cb_filler q"
    by (simp_all add: q plan_of_def Let_def)
qed

text \<open>C20: when segmentation succeeds there are as many blocks as announced, every block has the same
  size, passes its CRC24B check when there are several, and fits its lifted graph with the filler
  the plan states; concatenating the payloads and dropping the padding gives the transport block
  back.\<close>

theorem segment_roundtrip:
  assumes "segment_transport_block tb cfg = Inr r" "tb \<noteq> []" "length tb < 2147483648"
  shows "\<exists>K L. L = (if sr_num r > 1 \<and> sg_attach cfg then 24 else 0) \<and>
    length (sr_blocks r) = nat (sr_num r) \<and>
    list_all (\<lambda>q. length (cb_bits q) = K + L \<and> (L > 0 \<longrightarrow> crc_check (cb_bits q) CRC24B = Inr True) \<and>
      cb_filler q \<ge> 0 \<and> cb_k_ldpc q = int (length (cb_bits q)) + cb_filler q) (sr_blocks r) \<and>
    concatenate_code_blocks (map (\<lambda>q. take K (cb_bits q)) (sr_blocks r)) (length (sr_blocks r) * K - length tb) = Inr tb"
proof -
  let ?C = "spec_blocks cfg (length tb)"
  let ?K = "ceil_div (length tb) ?C" and ?L = "crc_overhead cfg (int ?C)"
  from assms(1,2) have max: "40 \<le> sg_max_cb cfg" by (simp add: segment_transport_block_def split: if_splits)
  have B: "0 < length tb" using assms(2) by simp
  note s = spec_blocks_bounds [OF B assms(3) max]
  from assms(1) obtain plans where m: "mapE (plan_block cfg ?L) (payloads ?K tb ?C) = Inr plans"
    and r: "sr_blocks r = plans" "sr_num r = int ?C"
    by (auto simp: segment_eq [OF assms(2,3) max] Let_def and_then_Inr_iff)
  have len: "length plans = ?C" using mapE_Inr_length [OF m] by simp
  have K: "length tb \<le> ?C * ?K" using ceil_div_mult [OF s(1), of "length tb"] by (simp add: mult.commute)
  have L: "?L = 0 \<or> ?L = 24" by (simp add: crc_overhead_def)
  have small: "?K + nat ?L < 2147483648" by (rule block_room [OF B assms(3) max])
  have block: "take ?K (cb_bits q) = payloads ?K tb ?C ! i \<and> length (cb_bits q) = ?K + nat ?L \<and>
      (?L > 0 \<longrightarrow> crc_check (cb_bits q) CRC24B = Inr True) \<and> cb_filler q \<ge> 0 \<and>
      cb_k_ldpc q = int (length (cb_bits q)) + cb_filler q"
    if i: "i < ?C" and q: "q = plans ! i" for i q
  proof -
    let ?p = "payloads ?K tb ?C ! i"
    have p: "length ?p = ?K" by (rule payloads_length [OF nth_mem]) (simp add: i)
    have "plan_block cfg ?L ?p = Inr q" using mapE_Inr_nth [OF m] i q by simp
    from plan_block_carries [OF this L] show ?thesis using small by (simp add: p)
  qed
  have "map (\<lambda>q. take ?K (cb_bits q)) plans = payloads ?K tb ?C"
    by (rule nth_equalityI) (simp_all add: len block [OF _ refl, THEN conjunct1])
  then have cat: "concat (map (\<lambda>q. take ?K (cb_bits q)) plans) = tb @ replicate (?C * ?K - length tb) 0"
    using concat_payloads [OF K] by simp
  have "concatenate_code_blocks (map (\<lambda>q. take ?K (cb_bits q)) plans) (?C * ?K - length tb) = Inr tb"
    unfolding concatenate_code_blocks_def cat Let_def using K by simp
  moreover have "list_all (\<lambda>q. length (cb_bits q) = ?K + nat ?L \<and> (nat ?L > 0 \<longrightarrow> crc_check (cb_bits q) CRC24B = Inr True) \<and>
      cb_filler q \<ge> 0 \<and> cb_k_ldpc q = int (length (cb_bits q)) + cb_filler q) plans"
    unfolding list_all_length using block [OF _ refl] len by simp
  ultimately show ?thesis
    using r len by (intro exI [of _ ?K] exI [of _ "nat ?L"]) (auto simp: crc_overhead_def)
qed

theorem segment_roundtrip_witness:
  "\<exists>r. segment_transport_block (replicate 100 1) default_segmentation = Inr r \<and> length (sr_blocks r) = nat (sr_num r)"
proof -
  obtain r q where "segment_transport_block (replicate 100 1) default_segmentation = Inr r" "sr_blocks r = [q]"
    by (rule test_segments)
  with segment_roundtrip [of "replicate 100 1" default_segmentation r] show ?thesis by auto
qed

text \<open>C22: segmentation succeeds exactly when the blocks are long enough for the automatic choice of
  the base graph, the bits are 0/1 wherever a CRC is attached, and a block together with its CRC
  fits the largest lifting size of the base graph chosen for it.\<close>

theorem segment_success_iff:
  assumes "tb \<noteq> []" "length tb < 2147483648" "40 \<le> sg_max_cb cfg"
    and "C = (if length tb > sg_max_cb cfg then ceil_div (length tb) (sg_max_cb cfg) else 1)"
    and "L = (if C > 1 \<and> sg_attach cfg then 24 else 0)"
  shows "(\<exists>r. segment_transport_block tb cfg = Inr r) \<longleftrightarrow>
    (L > 0 \<longrightarrow> bits_ok tb) \<and> block_fits cfg (ceil_div (length tb) C + L)"
proof -
  have B: "0 < length tb" using assms(1) by simp
  have C: "C = spec_blocks cfg (length tb)" and L: "int L = crc_overhead cfg (int C)" "L = 0 \<or> L = 24"
    using assms(4,5) by (simp_all add: spec_blocks_def crc_overhead_def)
  note s = spec_blocks_bounds [OF B assms(2,3)]
  let ?K = "ceil_div (length tb) C"
  have K: "length tb \<le> C * ?K" using ceil_div_mult [OF s(1), of "length tb"] by (simp add: C mult.commute)
  have small: "?K + nat (int L) < 2147483648"
    using block_room [OF B assms(2,3)] L by (simp add: C)
  have "(\<exists>r. segment_transport_block tb cfg = Inr r) \<longleftrightarrow>
      (\<forall>p\<in>set (payloads ?K tb C). \<exists>q. plan_block cfg (int L) p = Inr q)"
    by (simp add: segment_eq [OF assms(1-3)] Let_def and_then_ex flip: mapE_total C L(1))
  also have "\<dots> \<longleftrightarrow> (\<forall>p\<in>set (payloads ?K tb C). (L > 0 \<longrightarrow> bits_ok p) \<and> block_fits cfg (?K + L))"
  proof (rule ball_cong [OF refl])
    fix p assume "p \<in> set (payloads ?K tb C)"
    then have "length p = ?K" by (rule payloads_length)
    with plan_block_iff [of p "int L" cfg] small L(2)
    show "(\<exists>q. plan_block cfg (int L) p = Inr q) \<longleftrightarrow> (L > 0 \<longrightarrow> bits_ok p) \<and> block_fits cfg (?K + L)" by auto
  qed
  also have "\<dots> \<longleftrightarrow> (L > 0 \<longrightarrow> bits_ok (concat (payloads ?K tb C))) \<and> block_fits cfg (?K + L)"
  proof -
    have "payloads ?K tb C \<noteq> []" using s(1) C by (metis length_payloads list.size(3) less_numeral_extra(3))
    then obtain p0 where "p0 \<in> set (payloads ?K tb C)" by fastforce
    moreover have "bits_ok (concat ps) \<longleftrightarrow> (\<forall>p\<in>set ps. bits_ok p)" for ps by (induction ps) auto
    ultimately show ?thesis by (simp add: ball_conj_distrib) blast
  qed
  finally show ?thesis using concat_payloads [OF K] by simp
qed

theorem segment_success_iff_witness:
  "\<nexists>r. segment_transport_block (replicate 16896 0) default_segmentation = Inr r"
  using segment_success_iff [of "replicate 16896 0" default_segmentation 2 24]
  by (simp add: default_segmentation_def ceil_div_def block_fits_def chosen_bg_def kb_for_selection_def)

end
