(* ===== verification/Link.thy ===== *)
theory Link
  imports Crc Puncture RateMatching Harq Scrambling Modulation Segmentation
begin

text \<open>
  How the components fit together. The repository composes them in its tests and benchmarks only, so
  there is no code of its own here: the properties run the operations of the component theories in
  sequence, each on the output of the one before.
\<close>

section \<open>The bit chain\<close>

text \<open>Scrambling, modulation and their inverses restore the bits under noise.\<close>

lemma mapper_roundtrip:
  assumes "bits_ok e" "length e mod bits_per_symbol order = 0" "length noise = length e div bits_per_symbol order"
    and "list_all (\<lambda>z. \<bar>Re z\<bar> < scale_for order \<and> \<bar>Im z\<bar> < scale_for order) noise"
  shows "\<exists>s tx. scramble e c = Inr s \<and> modulate s order = Inr tx \<and> length tx = length noise \<and>
    descramble (demodulate_hard (map2 (+) tx noise) order) c = Inr e"
proof -
  let ?s = "xor_vec e (gold_sequence (length e) c)"
  have s: "scramble e c = Inr ?s" "bits_ok ?s" "length ?s = length e" using assms(1) by (simp_all add: scramble_eq gold.xor_bits)
  then obtain tx where tx: "modulate ?s order = Inr tx" "length tx = length noise" using assms(2,3) by (simp add: modulate_def Let_def)
  have "demodulate_hard (map2 (+) tx noise) order = ?s" using hard_margin [OF s(2) tx(1) _ assms(4)] tx(2) by simp
  moreover have "descramble ?s c = Inr e" using s gold.xor_twice [of e c] by (simp add: descramble_def scramble_eq)
  ultimately show ?thesis using s(1) tx by auto
qed

text \<open>The encoder on a given lifting size: the codeword of information bits that fit.\<close>

lemma encode_given:
  assumes "bits_ok info" "standard_params p" "p_zc p \<in> set lifting_sizes" "p_i_ls p \<le> 7"
    and "int (length info) \<le> int (default_kb (p_bg p)) * p_zc p"
    and "p_info_bits p \<le> int (default_kb (p_bg p)) * p_zc p"
  obtains g cw where "make_graph p = Inr g" "ldpc_encode info p = Inr cw" "length cw = N_of g" "bits_ok cw"
    "take (K_of g) cw = info @ replicate (K_of g - length info) 0" "in_code g (\<lambda>c. cw ! c)" "length info \<le> K_of g"
    "int (K_of g) = int (default_kb (p_bg p)) * p_zc p"
proof -
  obtain ils where "graph_lifting (encode_params info p) = Inr (p_zc p, ils)" using encode_lifting_given [OF assms(3)] by blast
  from ldpc_encode_standard [OF assms(1,2,4) this assms(5,6)] obtain g1 cw where g0: "make_graph (encode_params info p) = Inr g1"
    "int (g_zc g1) = p_zc p" and cw: "ldpc_encode info p = Inr cw" by blast
  from cw obtain g where g: "make_graph (encode_params info p) = Inr g" "length info \<le> K_of g"
    and enc: "encode_ge (info @ replicate (K_of g - length info) 0) g = Inr cw" by (rule ldpc_encode_InrE)
  have "bits_ok (info @ replicate (K_of g - length info) 0)" using assms(1) by simp
  note e = encode_ge_Inr [OF make_graph_ok [OF g(1)] this enc]
  have "p_zc p > 0" using valid_lifting_bounds [OF assms(3)] by simp
  with g(1) obtain g' where g': "make_graph p = Inr g'" "build_H g' = build_H g" "N_of g' = N_of g" "M_of g' = M_of g" "K_of g' = K_of g"
    by (rule encode_params_fixed)
  have "standard_params (encode_params info p)" "p_bg (encode_params info p) = p_bg p"
    using assms(2) by (simp_all add: encode_params_def standard_params_def)
  then have "int (K_of g) = int (default_kb (p_bg p)) * p_zc p"
    using standard_graph(6) [OF g(1)] g0 g(1) by (simp add: K_of_def)
  then show thesis using that [OF g'(1) cw] e g' g(2) by (simp add: in_code_def)
qed

text \<open>Decoding of soft values that carry a codeword, at least behind the two punctured columns.\<close>

lemma decode_carried:
  assumes "make_graph p = Inr g" "standard_params p" "p_zc p = 0 \<longrightarrow> p_info_bits p > 0"
    and cw: "bits_ok cw" "length cw = N_of g" "in_code g (\<lambda>c. cw ! c)" and llr: "carries cw C llr"
    and C: "\<And>j. j < N_of g \<Longrightarrow> 2 * g_zc g \<le> j \<Longrightarrow> C j" "2 \<le> p_max_iter p \<or> (\<forall>j<N_of g. C j)"
  shows "ldpc_decode llr p = Inr (take (K_of g) cw)"
  using C(2)
proof
  assume "2 \<le> p_max_iter p"
  moreover have "\<forall>j<N_of g. llr ! j = 0 \<or> (0 < llr ! j \<longleftrightarrow> cw ! j = 0)"
    using carriesD(1) [OF llr] cw(2) by simp
  moreover have "\<forall>j<N_of g. 2 * g_zc g \<le> j \<longrightarrow> llr ! j \<noteq> 0"
    using carriesD(2) [OF llr] C(1) cw(2) by simp
  moreover have "length llr = N_of g" using llr cw(2) by (simp add: carries_def)
  ultimately show ?thesis using ldpc_decode_punctured [OF assms(1-3) _ cw] by blast
next
  assume "\<forall>j<N_of g. C j"
  then have "llr_to_bits llr = cw" using carries_all [OF cw(1) llr] cw(2) by simp
  then show ?thesis using ldpc_decode_hit [OF assms(1) _ assms(3), of llr] cw(2,3) by (metis length_llr_to_bits)
qed

lemma lifting_size_of:
  assumes "make_graph p = Inr g" "0 < p_zc p"
  shows "int (g_zc g) = p_zc p"
proof -
  obtain zc ils where "graph_lifting p = Inr (zc, ils)" "g_zc g = nat zc" using assms(1) by (rule make_graph_InrE)
  then show ?thesis using graph_lifting_Inr(4) [of p zc ils] assms(2) by simp
qed

text \<open>Only the two punctured columns are left out of a full circular buffer.\<close>

lemma punctured_room:
  assumes "make_graph p = Inr g" "standard_params p" "0 < p_zc p" "rm_puncture_first_2z cfg \<longrightarrow> rm_zc cfg = p_zc p"
  shows "rm_punch cfg \<le> 2 * g_zc g" "rm_punch cfg < N_of g" "\<not> rm_puncture_first_2z cfg \<Longrightarrow> rm_punch cfg = 0"
proof -
  have zc: "int (g_zc g) = p_zc p" by (rule lifting_size_of [OF assms(1,3)])
  then show le: "rm_punch cfg \<le> 2 * g_zc g" using assms(4) by (auto simp: rm_punch_def nat_le_iff)
  have "4 \<le> g_nb g" using standard_edges(2,4) [OF assms(1,2)] by simp
  then have "4 * g_zc g \<le> N_of g" unfolding N_of_def by (rule mult_le_mono1)
  then show "rm_punch cfg < N_of g" using le zc assms(3) by linarith
qed (simp add: rm_punch_def)

text \<open>The blocks of a segmented transport block.\<close>

lemma segment_plans:
  assumes "segment_transport_block tb cfg = Inr r" "tb \<noteq> []" "length tb < 2147483648" "bits_ok tb" "q \<in> set (sr_blocks r)"
  obtains bits lift where "bits_ok bits" "select_lifting (int (length bits)) (chosen_bg cfg (length bits)) = Inr lift"
    "q = plan_of cfg bits lift"
proof -
  let ?C = "spec_blocks cfg (length tb)"
  let ?K = "ceil_div (length tb) ?C" and ?L = "crc_overhead cfg (int ?C)"
  from assms(1,2) have max: "40 \<le> sg_max_cb cfg" by (simp add: segment_transport_block_def split: if_splits)
  have B: "0 < length tb" using assms(2) by simp
  obtain plans where m: "mapE (plan_block cfg ?L) (payloads ?K tb ?C) = Inr plans" and r: "sr_blocks r = plans"
    using assms(1) by (auto simp: segment_eq [OF assms(2,3) max] Let_def and_then_Inr_iff)
  from assms(5) r obtain i where i: "i < length plans" "q = plans ! i" by (auto simp: in_set_conv_nth)
  then have C: "i < ?C" using mapE_Inr_length [OF m] by simp
  let ?p = "payloads ?K tb ?C ! i"
  have in_p: "?p \<in> set (payloads ?K tb ?C)" using C by (intro nth_mem) simp
  have "plan_block cfg ?L ?p = Inr q" using mapE_Inr_nth [OF m] C i(2) by simp
  moreover have L: "?L = 0 \<or> ?L = 24" by (simp add: crc_overhead_def)
  ultimately obtain bits lift where bits: "(if ?L > 0 then crc_attach ?p CRC24B else Inr ?p) = Inr bits"
    and lift: "select_lifting (int (length bits)) (chosen_bg cfg (length bits)) = Inr lift" "q = plan_of cfg bits lift"
    using plan_block_eq [OF _ L, of ?p cfg] payloads_length [OF in_p] block_room [OF B assms(3) max]
    by (auto simp: and_then_Inr_iff split: if_split_asm)
  have "bits_ok bits" using bits payloads_bits [OF assms(4) in_p] by (auto elim!: crc_attach_Inr split: if_splits)
  then show thesis using that lift by blast
qed

section \<open>Several transmissions of a codeword\<close>

text \<open>A transmission of a codeword: the configuration of its rate matching and the noise on its symbols. The
  receiver demodulates it softly and spreads the soft values over the positions of the codeword.\<close>

type_synonym transmission = "rate_match_config \<times> complexvec"

definition arrives_as :: "bitvec \<Rightarrow> modulation_order \<Rightarrow> real \<Rightarrow> transmission \<Rightarrow> softvec \<Rightarrow> bool" where
  "arrives_as cw order noise_var tx full \<longleftrightarrow>
     (\<exists>e syms llr. rate_match cw (fst tx) = Inr e \<and> modulate e order = Inr syms \<and>
        demodulate_llr (map2 (+) syms (snd tx)) order noise_var = Inr (map Fin llr) \<and>
        rate_dematch llr (fst tx) (length cw) = Inr full)"

definition transmission_ok :: "nat \<Rightarrow> modulation_order \<Rightarrow> transmission \<Rightarrow> bool" where
  "transmission_ok N order tx \<longleftrightarrow> (case tx of (cfg, noise) \<Rightarrow>
     rm_punch cfg < N \<and> rm_buf cfg N \<le> N - rm_punch cfg \<and> rm_small (rm_buf cfg N) (rm_zc cfg) \<and>
     0 < rm_e_bits cfg \<and> rm_e_bits cfg mod bits_per_symbol order = 0 \<and>
     length noise = rm_e_bits cfg div bits_per_symbol order \<and>
     list_all (\<lambda>z. \<bar>Re z\<bar> < scale_for order \<and> \<bar>Im z\<bar> < scale_for order) noise)"

lemma arrives:
  assumes "bits_ok cw" "0 < noise_var" "transmission_ok (length cw) order tx"
  shows "\<exists>full. arrives_as cw order noise_var tx full \<and> carries cw (rm_covers (fst tx) (length cw)) full"
proof -
  obtain cfg noise where tx: "tx = (cfg, noise)" by fastforce
  note ok = assms(3) [unfolded tx transmission_ok_def prod.case]
  obtain e where e: "rate_match cw cfg = Inr e" using rate_match_eq [of cfg cw] ok by simp
  have b: "bits_ok e" by (rule bits_rate_match [OF assms(1) e])
  obtain syms where syms: "modulate e order = Inr syms" "length syms = length noise"
    using ok rate_match_length [OF e] by (simp add: modulate_def Let_def)
  obtain llr where llr: "demodulate_llr (map2 (+) syms noise) order noise_var = Inr (map Fin llr)" "llr_to_bits llr = e"
    "list_all (\<lambda>x. x \<noteq> 0) llr" using soft_margin [OF b syms(1) syms(2) [symmetric] _ assms(2)] ok by blast
  have "signed_as (e ! i) (llr ! i)" if "i < length llr" for i
    using that llr(3) unfolding llr(2) [symmetric] by (auto simp: signed_as_def list_all_length order_le_less not_less)
  then have "list_all2 signed_as e llr" using length_llr_to_bits [of llr] by (simp add: list_all2_conv_all_nth llr(2))
  then obtain full where "rate_dematch llr cfg (length cw) = Inr full" "carries cw (rm_covers cfg (length cw)) full"
    using rate_match_signed [OF _ _ _ e] ok by blast
  with e syms(1) llr(1) show ?thesis unfolding arrives_as_def tx by auto
qed

text \<open>Combining receptions combines what they cover.\<close>

lemma carries_sum:
  assumes "carries cw C full" "list_all2 (\<lambda>tx y. carries cw (rm_covers (fst tx) n) y) txs fulls"
  shows "carries cw (\<lambda>j. C j \<or> (\<exists>tx\<in>set txs. rm_covers (fst tx) n j)) (foldl vec_add full fulls)"
  using assms(2,1)
proof (induction arbitrary: C full rule: list_all2_induct)
  case (Cons tx txs y ys)
  show ?case using Cons.IH [OF carries_add [OF Cons.prems Cons.hyps(1)]] by (simp add: disj_assoc)
qed simp

section \<open>Properties\<close>

text \<open>C1: the whole link. A payload with any of the checksums is attached, encoded, rate matched (the full
  buffer, with or without the two punctured columns, at least one repetition of every bit, any redundancy
  version), scrambled and modulated; every stage succeeds, and with noise under one amplitude step per axis
  the receiver (hard decisions, descrambling, soft values, recovery of the buffer, decoding) ends with the
  transmitted block, whose checksum passes and whose front is the payload. With puncturing two iterations
  of the decoder are enough.\<close>

theorem link_roundtrip:
  assumes "bits_ok payload" "standard_params p" "p_zc p \<in> set lifting_sizes" "p_i_ls p \<le> 7"
    and "int (length payload + crc_length_bits t) \<le> int (default_kb (p_bg p)) * p_zc p"
    and "p_info_bits p \<le> int (default_kb (p_bg p)) * p_zc p" "make_graph p = Inr g"
    and "rm_puncture_first_2z cfg \<longrightarrow> rm_zc cfg = p_zc p \<and> 2 \<le> p_max_iter p" "rm_n_cb cfg = 0"
    and "rm_small (rm_buf cfg (N_of g)) (rm_zc cfg)" "rm_buf cfg (N_of g) \<le> rm_e_bits cfg"
    and "rm_e_bits cfg mod bits_per_symbol order = 0" "length noise = rm_e_bits cfg div bits_per_symbol order"
    and "list_all (\<lambda>z. \<bar>Re z\<bar> < scale_for order \<and> \<bar>Im z\<bar> < scale_for order) noise" "0 < m"
  shows "\<exists>block cw e s tx llr full out. crc_attach payload t = Inr block \<and> ldpc_encode block p = Inr cw \<and>
    rate_match cw cfg = Inr e \<and> scramble e c = Inr s \<and> modulate s order = Inr tx \<and>
    descramble (demodulate_hard (map2 (+) tx noise) order) c = Inr e \<and> bits_to_llr e m = Inr llr \<and>
    rate_dematch llr cfg (length cw) = Inr full \<and> ldpc_decode full p = Inr out \<and>
    take (length block) out = block \<and> crc_check block t = Inr True \<and> take (length payload) block = payload"
proof -
  obtain block where "crc_attach payload t = Inr block" using assms(1) by (simp add: crc_attach_eq)
  moreover from this obtain tail where "bits_ok payload" and b: "block = payload @ tail" "length tail = crc_len (spec t)" "bits_ok tail"
    "crc_check block t = Inr True" by (rule crc_attach_Inr)
  ultimately have block: "crc_attach payload t = Inr block" "bits_ok block" "length block = length payload + crc_length_bits t"
    by (simp_all add: crc_length_bits_def)
  obtain cw where cw: "ldpc_encode block p = Inr cw" "length cw = N_of g" "bits_ok cw"
    "take (K_of g) cw = block @ replicate (K_of g - length block) 0" "in_code g (\<lambda>c. cw ! c)"
    using encode_given [OF block(2) assms(2-4), unfolded block(3)] assms(5-7) block(3) by force
  have zc: "0 < p_zc p" using valid_lifting_bounds [OF assms(3)] by simp
  note room = punctured_room [OF assms(7,2) zc, of cfg]
  have n: "rm_punch cfg < length cw" "rm_punch cfg + rm_buf cfg (N_of g) = N_of g" "0 < rm_e_bits cfg"
    using room(2) assms(8,9,11) cw(2) by (auto simp: rm_buf_def)
  obtain e where e: "rate_match cw cfg = Inr e" using rate_match_eq [OF n(1,3)] assms(10) cw(2) by simp
  have ok: "bits_ok e" by (rule bits_rate_match [OF cw(3) e])
  have buf: "rm_buf cfg (length cw) \<le> length cw - rm_punch cfg" "rm_small (rm_buf cfg (length cw)) (rm_zc cfg)"
    using n(2) assms(10) cw(2) by simp_all
  obtain full where full: "rate_dematch (map (\<lambda>b. if b = 0 then m else - m) e) cfg (length cw) = Inr full"
      "carries cw (rm_covers cfg (length cw)) full"
    using rate_match_signed [OF n(1) buf e signed_llr [OF ok assms(15)]] by blast
  have cov: "rm_covers cfg (length cw) j" if "j < N_of g" "rm_punch cfg \<le> j" for j
    using rm_covers_all [OF _ that(2)] assms(11) n(2) that(1) cw(2) by simp
  have "ldpc_decode full p = Inr (take (K_of g) cw)"
  proof (rule decode_carried [OF assms(7,2) _ cw(3,2,5) full(2)])
    show "2 \<le> p_max_iter p \<or> (\<forall>j<N_of g. rm_covers cfg (length cw) j)"
      using cov room(3) assms(8) by auto
  qed (use zc cov room(1) assms(8) in auto)
  moreover from mapper_roundtrip [OF ok _ _ assms(14), of c] assms(12,13) rate_match_length [OF e] obtain s tx
    where "scramble e c = Inr s" "modulate s order = Inr tx" "descramble (demodulate_hard (map2 (+) tx noise) order) c = Inr e" by auto
  moreover have "take (length payload) block = payload" using b(1) by simp
  moreover have "take (length block) (take (K_of g) cw) = block" by (simp add: cw(4))
  ultimately show ?thesis using block(1) cw(1) e full(1) bits_to_llr_eq [OF ok, of m] b(4) by blast
qed

text \<open>C2: incremental redundancy. A codeword is sent several times, each time with its own redundancy version,
  length, puncturing and noise (under one amplitude step per axis), demodulated softly, spread over the
  positions of the codeword and combined in the soft buffer of its HARQ process. When the transmissions
  together cover the positions behind the two punctured columns, whatever each of them leaves out, every
  stage succeeds and decoding the combined soft values gives the information part of the codeword.\<close>

theorem incremental_redundancy:
  assumes "make_graph p = Inr g" "standard_params p" "p_zc p = 0 \<longrightarrow> p_info_bits p > 0" "2 \<le> p_max_iter p"
    and "bits_ok cw" "length cw = N_of g" "ldpc_syndrome_ok cw p = Inr True"
    and "0 < noise_var" "list_all (transmission_ok (N_of g) order) (tx # txs)" "length txs < 2147483647"
    and "list_all (\<lambda>j. list_ex (\<lambda>(cfg, noise). rm_covers cfg (N_of g) j) (tx # txs)) [2 * g_zc g..<N_of g]"
    and "\<And>q. Mapping.lookup b pid = Some q \<Longrightarrow> hp_ndi q \<noteq> ndi"
  shows "\<exists>full fulls b' soft. arrives_as cw order noise_var tx full \<and> list_all2 (arrives_as cw order noise_var) txs fulls \<and>
    harq_run b (map (\<lambda>((cfg, noise), full). Upsert pid ndi full (rm_rv cfg)) (zip (tx # txs) (full # fulls))) = Inr b' \<and>
    harq_get b' pid = Some soft \<and> ldpc_decode soft p = Inr (take (K_of g) cw)"
proof -
  let ?C = "\<lambda>tx. rm_covers (fst tx) (length cw)"
  have ok: "transmission_ok (length cw) order t" if "t \<in> set (tx # txs)" for t
    using assms(6,9) that by (auto simp: list_all_iff)
  obtain full where full: "arrives_as cw order noise_var tx full" "carries cw (?C tx) full"
    using arrives [OF assms(5,8) ok [of tx]] by auto
  have "\<forall>t\<in>set txs. \<exists>y. arrives_as cw order noise_var t y \<and> carries cw (?C t) y" using arrives [OF assms(5,8) ok] by simp
  then obtain f where f: "\<And>t. t \<in> set txs \<Longrightarrow> arrives_as cw order noise_var t (f t) \<and> carries cw (?C t) (f t)" by metis
  define fulls where "fulls = map f txs"
  have all: "list_all2 (arrives_as cw order noise_var) txs fulls" "list_all2 (\<lambda>t y. carries cw (?C t) y) txs fulls"
    using f by (simp_all add: fulls_def list_all2_conv_all_nth)
  let ?soft = "foldl vec_add full fulls" and ?xs = "zip fulls (map (rm_rv \<circ> fst) txs)"
  have len: "length fulls = length txs" by (simp add: fulls_def)
  have "length y = length full" if "y \<in> set fulls" for y using that f full(2) by (auto simp: fulls_def carries_def)
  then have "length (fst x) = length full" if "x \<in> set ?xs" for x using that by (cases x) (auto dest: set_zip_leftD)
  then obtain b' where b': "harq_run b (map (\<lambda>(llr, rv). Upsert pid ndi llr rv) ((full, rm_rv (fst tx)) # ?xs)) = Inr b'"
    "harq_get b' pid = Some (foldl vec_add full (map fst ?xs))"
    using harq_receives [OF assms(12), of b pid ?xs full "rm_rv (fst tx)"] assms(10) len by auto
  have "map (\<lambda>(llr, rv). Upsert pid ndi llr rv) ?xs =
      map (\<lambda>((cfg, noise), full). Upsert pid ndi full (rm_rv cfg)) (zip txs fulls)"
    using len by (intro nth_equalityI) (simp_all add: case_prod_unfold)
  then have ops: "map (\<lambda>(llr, rv). Upsert pid ndi llr rv) ((full, rm_rv (fst tx)) # ?xs) =
      map (\<lambda>((cfg, noise), full). Upsert pid ndi full (rm_rv cfg)) (zip (tx # txs) (full # fulls))"
    by (simp add: case_prod_unfold)
  have "ldpc_decode ?soft p = Inr (take (K_of g) cw)"
  proof (rule decode_carried [OF assms(1-3,5,6) _ carries_sum [OF full(2) all(2)]])
    show "in_code g (\<lambda>c. cw ! c)" using assms(7) syndrome_of_code [OF assms(1,6)] by simp
    fix j assume "j < N_of g" "2 * g_zc g \<le> j"
    then have "\<exists>t\<in>set (tx # txs). rm_covers (fst t) (length cw) j"
      using assms(6,11) by (fastforce simp: list_all_iff list_ex_iff)
    then show "?C tx j \<or> (\<exists>t\<in>set txs. ?C t j)" by simp
  qed (use assms(4) in simp)
  with full(1) all(1) b' len show ?thesis unfolding ops by auto
qed

theorem link_roundtrip_witness:
  "\<exists>block cw e s tx. crc_attach (replicate 14 1) CRC6 = Inr block \<and> ldpc_encode block test_params = Inr cw \<and>
    rate_match cw (default_rm\<lparr>rm_e_bits := 24, rm_zc := 2, rm_puncture_first_2z := True\<rparr>) = Inr e \<and> scramble e 7 = Inr s \<and>
    modulate s QPSK = Inr tx \<and> descramble (demodulate_hard (map2 (+) tx (replicate 12 0)) QPSK) 7 = Inr e"
proof -
  obtain g where g: "make_graph test_params = Inr g" "N_of g = 28" using test_params_graph by blast
  let ?cfg = "default_rm\<lparr>rm_e_bits := 24, rm_zc := 2, rm_puncture_first_2z := True\<rparr>"
  have buf: "rm_buf ?cfg (N_of g) = 24" by (simp add: g(2) rm_buf_def rm_punch_def default_rm_def)
  have noise: "list_all (\<lambda>z. \<bar>Re z\<bar> < scale_for QPSK \<and> \<bar>Im z\<bar> < scale_for QPSK) (replicate 12 0)"
    using scale_pos [of QPSK] by (simp add: list_all_iff)
  have rm: "rm_n_cb ?cfg = 0" "rm_zc ?cfg = 2" "rm_e_bits ?cfg = 24" by (simp_all add: default_rm_def)
  have "p_max_iter test_params = 25" by (simp add: test_params_def default_params_def)
  with link_roundtrip [of "replicate 14 1" test_params CRC6 g ?cfg QPSK "replicate 12 0" 1 7, OF _ _ _ _ _ _ g(1) _ _ _ _ _ _ noise]
  show ?thesis unfolding buf rm by (simp add: crc_length_bits_def default_kb_def rm_small_def bits_per_symbol_def) blast
qed

text \<open>Two transmissions that each carry half of the circular buffer.\<close>

definition half_rm :: "int \<Rightarrow> rate_match_config" where
  "half_rm rv = default_rm\<lparr>rm_e_bits := 12, rm_rv := rv, rm_zc := 2\<rparr>"

lemma half_rm_covers: "list_all (\<lambda>j. rm_covers (half_rm 0) 28 j \<or> rm_covers (half_rm 2) 28 j) [4..<28]"
  by code_simp

lemma half_rm_ok: "rv = 0 \<or> rv = 2 \<Longrightarrow> transmission_ok 28 QPSK (half_rm rv, replicate 6 0)"
  using scale_pos [of QPSK]
  by (auto simp: transmission_ok_def half_rm_def default_rm_def rm_punch_def rm_buf_def rm_small_def bits_per_symbol_def list_all_iff)

theorem incremental_redundancy_witness:
  "\<exists>cw full0 full2 b' soft. ldpc_encode (replicate 20 1) test_params = Inr cw \<and>
    arrives_as cw QPSK 1 (half_rm 0, replicate 6 0) full0 \<and> arrives_as cw QPSK 1 (half_rm 2, replicate 6 0) full2 \<and>
    harq_run Mapping.empty [Upsert 7 0 full0 0, Upsert 7 0 full2 2] = Inr b' \<and> harq_get b' 7 = Some soft \<and>
    ldpc_decode soft test_params = Inr (replicate 20 1)"
proof -
  have "bits_ok (replicate 20 1)" by (simp add: bits_ok_def is_bit_def list_all_iff)
  then obtain g cw where g: "make_graph test_params = Inr g" and cw: "ldpc_encode (replicate 20 1) test_params = Inr cw"
    "length cw = N_of g" "bits_ok cw" "take (K_of g) cw = replicate 20 1 @ replicate (K_of g - 20) 0" "in_code g (\<lambda>c. cw ! c)"
    by (rule encode_given [where p = test_params]) (simp_all add: default_kb_def)
  have n: "N_of g = 28" "K_of g = 20" "g_zc g = 2"
    using test_params_graph g lifting_size_of [OF g] by auto
  have p: "p_max_iter test_params = 25" "rm_rv (half_rm rv) = rv" for rv
    by (simp_all add: test_params_def default_params_def half_rm_def default_rm_def)
  have hyps: "standard_params test_params" "p_zc test_params = 0 \<longrightarrow> 0 < p_info_bits test_params" "2 \<le> p_max_iter test_params"
    by (simp_all add: p)
  have code: "ldpc_syndrome_ok cw test_params = Inr True" using syndrome_of_code [OF g cw(2)] cw(5) by simp
  let ?t0 = "(half_rm 0, replicate 6 0) :: transmission" and ?t2 = "(half_rm 2, replicate 6 0) :: transmission"
  have cover: "list_all (\<lambda>j. list_ex (\<lambda>(cfg, noise). rm_covers cfg (N_of g) j) [?t0, ?t2]) [2 * g_zc g..<N_of g]"
    using half_rm_covers by (simp add: n)
  have ok: "list_all (transmission_ok (N_of g) QPSK) [?t0, ?t2]" by (simp add: n half_rm_ok)
  have "\<exists>full fulls b' soft. arrives_as cw QPSK 1 ?t0 full \<and> list_all2 (arrives_as cw QPSK 1) [?t2] fulls \<and>
    harq_run Mapping.empty (map (\<lambda>((cfg, noise), full). Upsert 7 0 full (rm_rv cfg)) (zip [?t0, ?t2] (full # fulls))) = Inr b' \<and>
    harq_get b' 7 = Some soft \<and> ldpc_decode soft test_params = Inr (take (K_of g) cw)"
    by (rule incremental_redundancy [OF g hyps cw(3,2) code zero_less_one ok _ cover]) (simp_all add: Mapping.lookup_empty)
  then obtain full fulls b' soft where r: "arrives_as cw QPSK 1 ?t0 full" "list_all2 (arrives_as cw QPSK 1) [?t2] fulls"
    "harq_run Mapping.empty (map (\<lambda>((cfg, noise), full). Upsert 7 0 full (rm_rv cfg)) (zip [?t0, ?t2] (full # fulls))) = Inr b'"
    "harq_get b' 7 = Some soft" "ldpc_decode soft test_params = Inr (take (K_of g) cw)" by blast
  from r(2) obtain full2 where full2: "fulls = [full2]" "arrives_as cw QPSK 1 ?t2 full2" by (auto simp: list_all2_Cons1)
  have "harq_run Mapping.empty [Upsert 7 0 full 0, Upsert 7 0 full2 2] = Inr b'"
    using r(3) unfolding full2(1) list.map zip_Cons_Cons zip_Nil prod.case p(2) .
  moreover have "ldpc_decode soft test_params = Inr (replicate 20 1)" using r(5) cw(4) by (simp add: n(2))
  ultimately show ?thesis using r(1,4) cw(1) full2(2) by blast
qed

text \<open>C8: segmentation hands the encoder what it needs: every block of a segmented transport block is encoded
  with the parameters the plan carries, the plan's \<open>k_ldpc\<close> is the number of information positions of
  the graph, and decoding the noise-free word gives the block back followed by the planned filler.\<close>

theorem segments_encode:
  assumes "segment_transport_block tb cfg = Inr r" "tb \<noteq> []" "length tb < 2147483648" "bits_ok tb" "0 < m"
  shows "list_all (\<lambda>q. \<exists>g cw llr. make_graph (cb_ldpc q) = Inr g \<and> int (K_of g) = cb_k_ldpc q \<and>
    ldpc_encode (cb_bits q) (cb_ldpc q) = Inr cw \<and> bits_to_llr cw m = Inr llr \<and>
    ldpc_decode llr (cb_ldpc q) = Inr (cb_bits q @ replicate (nat (cb_filler q)) 0)) (sr_blocks r)"
  unfolding list_all_iff
proof
  fix q assume "q \<in> set (sr_blocks r)"
  then obtain bits lift where ok: "bits_ok bits"
    and lift: "select_lifting (int (length bits)) (chosen_bg cfg (length bits)) = Inr lift"
    and q: "q = plan_of cfg bits lift" by (rule segment_plans [OF assms(1-4)])
  note l = select_lifting_Inr [OF lift] and cover = lifting_covers [OF lift]
  let ?p = "cb_ldpc q"
  have p: "p_bg ?p = chosen_bg cfg (length bits)" "p_zc ?p = lc_zc lift" "p_i_ls ?p = lc_i_ls lift" "p_kb ?p = lc_kb lift"
    "p_info_bits ?p = int (length bits)" "p_mb_use ?p = -1" "cb_bits q = bits" "cb_k_ldpc q = lc_kb lift * lc_zc lift"
    "cb_filler q = lc_kb lift * lc_zc lift - int (length bits)"
    by (simp_all add: q plan_of_def Let_def default_params_def)
  have kb: "lc_kb lift = int (default_kb (p_bg ?p))"
    using l(7) by (simp add: p(1) default_kb_def BG1_KB_def BG2_KB_def)
  have "standard_params ?p" using kb p(4,6) by (simp add: standard_params_def)
  then obtain g cw where g: "make_graph ?p = Inr g" and cw: "ldpc_encode bits ?p = Inr cw" "length cw = N_of g" "bits_ok cw"
    "take (K_of g) cw = bits @ replicate (K_of g - length bits) 0" "in_code g (\<lambda>c. cw ! c)" "length bits \<le> K_of g"
    and K: "int (K_of g) = lc_kb lift * lc_zc lift"
    using encode_given [OF ok, of ?p thesis] l(1,4) cover unfolding p(2,3,5) kb by simp
  let ?llr = "map (\<lambda>b. if b = 0 then m else - m) cw"
  have h: "llr_to_bits ?llr = cw" by (rule llr_to_bits_of_bits [OF cw(3) assms(5)])
  have "0 < lc_zc lift" using valid_lifting_bounds [OF l(1)] by simp
  then have "ldpc_decode ?llr ?p = Inr (take (K_of g) cw)"
    using ldpc_decode_hit [OF g, of ?llr] cw(2,5) by (simp add: h p(2))
  moreover have "K_of g - length bits = nat (cb_filler q)" using K cw(6) p(9) by linarith
  ultimately show "\<exists>g cw llr. make_graph ?p = Inr g \<and> int (K_of g) = cb_k_ldpc q \<and>
    ldpc_encode (cb_bits q) ?p = Inr cw \<and> bits_to_llr cw m = Inr llr \<and>
    ldpc_decode llr ?p = Inr (cb_bits q @ replicate (nat (cb_filler q)) 0)"
    using g cw K bits_to_llr_eq [OF cw(3), of m] p(7,8) by auto
qed

theorem segments_encode_witness:
  "\<exists>r. segment_transport_block (replicate 100 1) default_segmentation = Inr r \<and>
    (\<exists>cw. ldpc_encode (cb_bits (hd (sr_blocks r))) (cb_ldpc (hd (sr_blocks r))) = Inr cw)"
proof -
  obtain r q where r: "segment_transport_block (replicate 100 1) default_segmentation = Inr r" "sr_blocks r = [q]"
    by (rule test_segments)
  from segments_encode [OF r(1), of 1] r show ?thesis by auto
qed

end
