(* ===== verification/ErrorCorrection.thy ===== *)
theory ErrorCorrection
  imports Puncture
begin

text \<open>
  Errors that one iteration of the min-sum decoder corrects. Soft values may have the wrong sign at some
  doubtful positions. A check that meets no other doubtful position sends a right message of at least
  three quarters of the reliable magnitude; any other check a message that is wrong by at most three
  quarters of the doubtful one. When the right messages outvote the wrong ones at every variable, the
  decoder returns the codeword. A single doubtful position is always outvoted when no two checks share two
  variables, which holds for both base graphs at the large lifting sizes.
\<close>

section \<open>Doubtful positions\<close>

text \<open>The soft value of a position, positive when its sign is the one of the codeword.\<close>

definition margin :: "bitvec \<Rightarrow> softvec \<Rightarrow> nat \<Rightarrow> real" where
  "margin x llr v = llr ! v * of_int (sgn_bit (x ! v))"

text \<open>At least \<open>m\<close> at the reliable positions, wrong by at most \<open>e\<close> at the doubtful ones.\<close>

definition noisy :: "graph \<Rightarrow> bitvec \<Rightarrow> (nat \<Rightarrow> bool) \<Rightarrow> real \<Rightarrow> real \<Rightarrow> softvec \<Rightarrow> bool" where
  "noisy g x doubt m e llr \<longleftrightarrow> length llr = N_of g \<and> 0 < m \<and> 0 \<le> e \<and>
     (\<forall>v<N_of g. (if doubt v then - e else m) \<le> margin x llr v)"

text \<open>The check of edge \<open>i\<close> meets no other doubtful position.\<close>

definition clean :: "graph \<Rightarrow> (nat \<Rightarrow> bool) \<Rightarrow> nat \<Rightarrow> bool" where
  "clean g doubt i \<longleftrightarrow> list_all (\<lambda>j. j = i \<or> \<not> doubt (s_var (expand_edges g ! j)))
     (chk_edges (expand_edges g) (s_check (expand_edges g ! i)))"

text \<open>The right messages outvote the wrong ones at every variable.\<close>

definition outvoted :: "graph \<Rightarrow> (nat \<Rightarrow> bool) \<Rightarrow> real \<Rightarrow> real \<Rightarrow> bool" where
  "outvoted g doubt m e \<longleftrightarrow> list_all (\<lambda>v.
     let es = var_edges (expand_edges g) v; a = length (filter (clean g doubt) es); b = length (filter (\<lambda>i. \<not> clean g doubt i) es)
     in (if doubt v then 4 * e else - 4 * m) < 3 * m * real a - 3 * e * real b) [0..<N_of g]"

definition codeword :: "graph \<Rightarrow> bitvec \<Rightarrow> bool" where
  "codeword g x \<longleftrightarrow> bits_ok x \<and> length x = N_of g \<and> in_code g (\<lambda>c. x ! c)"

lemma outvotedD:
  "outvoted g doubt m e \<Longrightarrow> v < N_of g \<Longrightarrow> (if doubt v then 4 * e else - 4 * m) <
    3 * m * real (length (filter (clean g doubt) (var_edges (expand_edges g) v))) -
    3 * e * real (length (filter (\<lambda>i. \<not> clean g doubt i) (var_edges (expand_edges g) v)))"
  by (simp add: outvoted_def list_all_iff Let_def)

section \<open>The first messages\<close>

lemma iterate_1:
  assumes g: "graph_ok g" and len: "length llr = N_of g"
  obtains w where "\<And>j. j < length (expand_edges g) \<Longrightarrow> w ! j = Fin (llr ! s_var (expand_edges g ! j))"
    "\<And>i. i < length (expand_edges g) \<Longrightarrow>
      fst (iterate g (map Fin llr) 1) ! i = check_msg w (chk_edges (expand_edges g) (s_check (expand_edges g ! i))) i"
proof -
  let ?E = "expand_edges g" and ?z = "replicate (length (expand_edges g)) (Fin 0)"
  define w where "w = v2c_of ?E (N_of g) (app_of ?E (N_of g) (map Fin llr) ?z) ?z ?z"
  have it: "iterate g (map Fin llr) 1 = (c2v_of ?E (M_of g) w ?z, w)" by (simp add: w_def Let_def)
  note w = v2c_nth [of ?z ?E "N_of g", OF _ expand_edges_bounds(2) [OF g]]
  note c = c2v_nth [of ?z ?E "M_of g", OF _ expand_edges_bounds(1) [OF g], where v2c = w]
  show thesis
  proof (rule that)
    fix j assume j: "j < length ?E"
    then show "w ! j = Fin (llr ! s_var (?E ! j))"
      using w(2) [OF _ _ j] edge_bounds(1) [OF g j] len by (simp add: w_def app_of_zero d_sub_def)
    show "fst (iterate g (map Fin llr) 1) ! j = check_msg w (chk_edges ?E (s_check (?E ! j))) j"
      unfolding it fst_conv using c(2) [OF _ _ j] by simp
  qed
qed

text \<open>What the first message along an edge is worth at its variable.\<close>

text \<open>The least magnitude of the other values with the sign of their product: at least \<open>m\<close> where none of
  them is doubtful; otherwise a wrong sign needs a wrong value, which is no larger than \<open>e\<close>.\<close>

lemma vote_bound:
  fixes s :: "'a \<Rightarrow> real" and t :: int
  assumes me: "0 < m" "0 \<le> e" and marg: "\<And>j. j \<in> S \<Longrightarrow> (if doubtful j then - e else m) \<le> s j"
    and r: "\<forall>j\<in>S. r \<le> \<bar>s j\<bar>" "\<exists>j\<in>S. r = \<bar>s j\<bar>" and t: "t = 1 \<or> t = - 1" and pos: "(\<forall>j\<in>S. 0 < s j) \<longrightarrow> t = 1"
  shows "(if \<forall>j\<in>S. \<not> doubtful j then 3 / 4 * m else - (3 / 4 * e)) \<le> 3 / 4 * (r * of_int t)"
proof (cases "\<forall>j\<in>S. \<not> doubtful j")
  case True
  then have rel: "m \<le> s j" if "j \<in> S" for j using marg [OF that] that by simp
  then have "t = 1" using pos me(1) less_le_trans by blast
  moreover have "m \<le> r" using r(2) rel by force
  ultimately show ?thesis using True by simp
next
  case False
  have "- e \<le> r * of_int t"
  proof (cases "t = 1")
    case True
    moreover have "0 \<le> r" using r(2) by auto
    ultimately show ?thesis using me by simp
  next
    case t1: False
    with pos obtain j where j: "j \<in> S" "s j \<le> 0" by (auto simp: not_less)
    have "- e \<le> s j" using marg [OF j(1)] me by (simp split: if_splits)
    then have "r \<le> e" using r(1) j by force
    then show ?thesis using t t1 by simp
  qed
  then have "- (3 / 4 * e) \<le> 3 / 4 * (r * of_int t)" by simp
  then show ?thesis using False by (simp only: if_False)
qed

lemma first_message:
  assumes g: "graph_ok g" "checks_paired g" and x: "codeword g x" and llr: "noisy g x doubt m e llr" and i: "i < length (expand_edges g)"
  shows "\<exists>q. fst (iterate g (map Fin llr) 1) ! i = Fin (q * of_int (sgn_bit (x ! s_var (expand_edges g ! i)))) \<and>
    (if clean g doubt i then 3 / 4 * m else - (3 / 4 * e)) \<le> q"
proof -
  let ?E = "expand_edges g"
  let ?els = "chk_edges ?E (s_check (?E ! i))" and ?x = "\<lambda>j. x ! s_var (?E ! j)" and ?f = "\<lambda>j. llr ! s_var (?E ! j)"
  note x' = x [unfolded codeword_def] and llr' = llr [unfolded noisy_def]
  obtain w where w: "\<And>j. j < length ?E \<Longrightarrow> w ! j = Fin (?f j)"
    "fst (iterate g (map Fin llr) 1) ! i = check_msg w ?els i" using iterate_1 [OF g(1), of llr] llr' i by metis
  have me: "0 < m" "0 \<le> e" using llr' by simp_all
  have c: "s_check (?E ! i) < M_of g" by (rule edge_bounds(2) [OF g(1) i])
  have els: "distinct ?els" "i \<in> set ?els" "length ?els \<noteq> 1"
    using i g(2) c by (simp_all add: chk_edges_def checks_paired_def list_all_iff)
  have par: "prod_list (map (\<lambda>j. sgn_bit (?x j)) ?els) = 1" using parity [OF g(1) _ _ _ c] x' by blast
  have "\<exists>r t. check_msg w ?els i = Fin (3 / 4 * (r * of_int t) * of_int (sgn_bit (?x i))) \<and> (t = 1 \<or> t = - 1) \<and>
    (\<forall>j\<in>set ?els - {i}. r \<le> \<bar>?f j\<bar>) \<and> (\<exists>j\<in>set ?els - {i}. r = \<bar>?f j\<bar>) \<and>
    ((\<forall>j\<in>set ?els - {i}. 0 < ?f j * of_int (sgn_bit (?x j))) \<longrightarrow> t = 1)"
    by (rule check_value [OF els _ par]) (simp add: w(1) chk_edges_iff)
  then obtain r t where msg: "check_msg w ?els i = Fin (3 / 4 * (r * of_int t) * of_int (sgn_bit (?x i)))" and t: "t = 1 \<or> t = - 1"
    and r: "\<forall>j\<in>set ?els - {i}. r \<le> \<bar>?f j\<bar>" "\<exists>j\<in>set ?els - {i}. r = \<bar>?f j\<bar>"
    and pos: "(\<forall>j\<in>set ?els - {i}. 0 < ?f j * of_int (sgn_bit (?x j))) \<longrightarrow> t = 1" by blast
  have marg: "(if doubt (s_var (?E ! j)) then - e else m) \<le> ?f j * of_int (sgn_bit (?x j))" if "j \<in> set ?els" for j
    using that llr' edge_bounds(1) [OF g(1)] by (simp add: chk_edges_iff margin_def)
  have clean: "clean g doubt i \<longleftrightarrow> (\<forall>j\<in>set ?els - {i}. \<not> doubt (s_var (?E ! j)))"
    by (auto simp: clean_def list_all_iff)
  have "\<bar>?f j * of_int (sgn_bit (?x j))\<bar> = \<bar>?f j\<bar>" for j by (simp add: sgn_bit_def)
  then have "(if clean g doubt i then 3 / 4 * m else - (3 / 4 * e)) \<le> 3 / 4 * (r * of_int t)"
    unfolding clean using r by (intro vote_bound [OF me _ _ _ t pos] marg) auto
  with msg w(2) show ?thesis by metis
qed

section \<open>The decisions\<close>

lemma sum_votes:
  assumes "\<And>i. i \<in> set es \<Longrightarrow> (if P i then A else B) \<le> q i"
  shows "A * real (length (filter P es)) + B * real (length (filter (\<lambda>i. \<not> P i) es)) \<le> (\<Sum>i\<leftarrow>es. q i :: real)"
  using assms by (induction es) (force simp: algebra_simps)+

lemma first_decision:
  assumes g: "graph_ok g" "checks_paired g" and x: "codeword g x" and llr: "noisy g x doubt m e llr"
    and out: "outvoted g doubt m e" and v: "v < N_of g"
  shows "decision g llr 1 ! v = x ! v"
proof -
  let ?E = "expand_edges g" and ?es = "var_edges (expand_edges g) v" and ?s = "of_int (sgn_bit (x ! v)) :: real"
  define c where "c = fst (iterate g (map Fin llr) 1)"
  have "\<exists>q. c ! i = Fin (q * ?s) \<and> (if clean g doubt i then 3 / 4 * m else - (3 / 4 * e)) \<le> q" if "i \<in> set ?es" for i
    using first_message [OF g x llr, of i] that by (simp only: c_def var_edges_iff)
  then obtain q where q: "\<And>i. i \<in> set ?es \<Longrightarrow> c ! i = Fin (q i * ?s)"
    "\<And>i. i \<in> set ?es \<Longrightarrow> (if clean g doubt i then 3 / 4 * m else - (3 / 4 * e)) \<le> q i" by metis
  have ch: "map Fin llr ! v = Fin (margin x llr v * ?s)"
    using llr v by (simp add: noisy_def margin_def sgn_bit_def)
  have "app_of ?E (N_of g) (map Fin llr) c ! v = Fin ((margin x llr v + (\<Sum>i\<leftarrow>?es. q i)) * ?s)"
    by (rule app_signed [OF v ch q(1)])
  moreover have "0 < margin x llr v + (\<Sum>i\<leftarrow>?es. q i)"
  proof -
    let ?a = "real (length (filter (clean g doubt) ?es))" and ?b = "real (length (filter (\<lambda>i. \<not> clean g doubt i) ?es))"
    have "(if doubt v then 4 * e else - 4 * m) < 3 * m * ?a - 3 * e * ?b"
      by (rule outvotedD [OF out v])
    moreover have "3 / 4 * m * ?a + - (3 / 4 * e) * ?b \<le> (\<Sum>i\<leftarrow>?es. q i)" by (rule sum_votes [OF q(2)])
    moreover have "(if doubt v then - e else m) \<le> margin x llr v" using llr v by (simp add: noisy_def)
    ultimately show ?thesis by (simp split: if_splits)
  qed
  ultimately have "firm (x ! v) (app_of ?E (N_of g) (map Fin llr) c ! v)" by (auto simp: firm_def)
  moreover have "is_bit (x ! v)" using x v by (simp add: codeword_def bits_ok_nth)
  ultimately show ?thesis using hard_firm v unfolding c_def by (simp add: decision_def hard_of_def del: iterate.simps One_nat_def)
qed

text \<open>Before the first iteration the early exit accepts nothing but the codeword.\<close>

lemma reliable_bit:
  assumes "codeword g x" "length llr = N_of g" "v < N_of g" "0 < margin x llr v"
  shows "llr_to_bits llr ! v = x ! v"
proof -
  have "is_bit (x ! v)" using assms(1,3) by (simp add: codeword_def bits_ok_nth)
  then show ?thesis using assms(2-4) by (auto simp: is_bit_def margin_def sgn_bit_def)
qed

text \<open>A doubtful bit that is outvoted has a check whose other bits are all certain.\<close>

lemma outvoted_clean_edge:
  assumes "outvoted g doubt m e" "v < N_of g" "doubt v" "0 < m" "0 \<le> e"
  obtains i where "i \<in> set (var_edges (expand_edges g) v)" "clean g doubt i"
proof -
  let ?E = "expand_edges g"
  have "4 * e < 3 * m * real (length (filter (clean g doubt) (var_edges ?E v))) -
      3 * e * real (length (filter (\<lambda>i. \<not> clean g doubt i) (var_edges ?E v)))"
    using outvotedD [OF assms(1,2)] assms(3) by simp
  moreover have "0 \<le> 3 * e * real (length (filter (\<lambda>i. \<not> clean g doubt i) (var_edges ?E v)))" using assms(5) by simp
  ultimately have "0 < 3 * m * real (length (filter (clean g doubt) (var_edges ?E v)))" using assms(5) by linarith
  then have "filter (clean g doubt) (var_edges ?E v) \<noteq> []" by auto
  then show thesis using that by (auto simp: filter_empty_conv)
qed

lemma no_false_exit:
  assumes g: "graph_ok g" and x: "codeword g x" and llr: "noisy g x doubt m e llr"
    and out: "outvoted g doubt m e" and hit: "in_code g (\<lambda>c. llr_to_bits llr ! c)"
  shows "llr_to_bits llr = x"
proof (rule nth_equalityI)
  let ?E = "expand_edges g" and ?y = "llr_to_bits llr"
  note x' = x [unfolded codeword_def] and llr' = llr [unfolded noisy_def]
  have right: "?y ! u = x ! u" if "u < N_of g" "\<not> doubt u" for u
  proof -
    have "(if doubt u then - e else m) \<le> margin x llr u" using llr' that(1) by blast
    then have "0 < margin x llr u" using llr' that(2) by simp
    then show ?thesis using reliable_bit [OF x _ that(1)] llr' by blast
  qed
  fix v assume "v < length ?y"
  then have v: "v < N_of g" using llr' by simp
  show "?y ! v = x ! v"
  proof (rule ccontr)
    assume ne: "?y ! v \<noteq> x ! v"
    then have "doubt v" using right v by blast
    then obtain i where "i \<in> set (var_edges ?E v)" "clean g doubt i" using outvoted_clean_edge [OF out v] llr' by blast
    then have i: "i < length ?E" "s_var (?E ! i) = v" "clean g doubt i" by (simp_all add: var_edges_iff)
    let ?c = "s_check (?E ! i)" and ?known = "\<lambda>u. ?y ! u = x ! u"
    have els: "i \<in> set (chk_edges ?E ?c)" "distinct (chk_edges ?E ?c)" using i(1) by (simp_all add: chk_edges_def)
    then obtain us vs where s: "chk_edges ?E ?c = us @ i # vs" by (meson split_list)
    have "?known (s_var (?E ! j))" if "j \<in> set us \<or> j \<in> set vs" for j
    proof -
      have j: "j \<in> set (chk_edges ?E ?c)" "j \<noteq> i" using that els(2) unfolding s by auto
      then have "\<not> doubt (s_var (?E ! j))" using i(3) by (auto simp: clean_def list_all_iff)
      moreover have "s_var (?E ! j) < N_of g" using j(1) edge_bounds(1) [OF g] by (simp add: chk_edges_iff)
      ultimately show ?thesis using right by blast
    qed
    then have "filter (\<lambda>u. \<not> peel g ?known 0 u) (check_vars ?E ?c) = [v]"
      unfolding check_vars_def s using ne i(2) by (simp add: filter_empty_conv)
    moreover have "?c < M_of g" by (rule edge_bounds(2) [OF g i(1)])
    ultimately have "peel g ?known (Suc 0) v" by (simp only: peel.simps list_ex_iff) auto
    then have "?y ! v = x ! v"
      using peel_unique [OF g, of x ?y ?known v "Suc 0"] x' hit v llr' by (simp del: peel.simps)
    with ne show False by simp
  qed
qed (use x llr in \<open>simp add: codeword_def noisy_def\<close>)

lemma decode_minsum_outvoted:
  assumes g: "graph_ok g" "checks_paired g" and x: "codeword g x" and llr: "noisy g x doubt m e llr"
    and out: "outvoted g doubt m e" and n: "1 \<le> max_iter"
  shows "decode_minsum llr g max_iter = Inr (take (K_of g) x)"
proof -
  let ?P = "\<lambda>i. in_code g (\<lambda>c. decision g llr i ! c)"
  let ?h = "first_hit ?P 0 (nat max_iter)"
  have len: "length llr = N_of g" using llr by (simp add: noisy_def)
  have d1: "decision g llr 1 = x"
    using first_decision [OF g x llr out] x by (intro nth_equalityI) (simp_all add: codeword_def decision_def)
  then have "?P 1" using x by (simp add: codeword_def)
  moreover have hit: "?h \<le> nat max_iter" "?h < nat max_iter \<Longrightarrow> ?P ?h" "\<And>i. i < ?h \<Longrightarrow> \<not> ?P i"
    using first_hit_spec [of 0 "nat max_iter" ?P] by auto
  ultimately have "?h \<le> 1" by (meson not_le)
  moreover have "decision g llr ?h = x" if "?h = 0"
  proof -
    have "?P 0" using hit(2) n that by simp
    then show ?thesis using no_false_exit [OF g(1) x llr out] by (simp add: that decision_0 [OF len])
  qed
  ultimately have "decision g llr ?h = x" using d1 by (cases "?h = 0") (auto simp: le_Suc_eq)
  then show ?thesis using decode_minsum_eq [OF g(1) len] by simp
qed

section \<open>A single doubtful position\<close>

text \<open>The Tanner graph has no cycle of length 2 or 4: no check meets a variable twice and no two checks
  share two variables.\<close>

definition girth6 :: "graph \<Rightarrow> bool" where
  "girth6 g \<longleftrightarrow> (\<forall>c<M_of g. distinct (check_vars (expand_edges g) c)) \<and>
     (\<forall>c<M_of g. \<forall>c'<M_of g. \<forall>u v. u \<noteq> v \<and> {u, v} \<subseteq> set (check_vars (expand_edges g) c) \<and>
        {u, v} \<subseteq> set (check_vars (expand_edges g) c') \<longrightarrow> c = c')"

lemma girth6D:
  assumes "girth6 g" "c < M_of g" "c' < M_of g" "u \<noteq> v" "u \<in> set (check_vars (expand_edges g) c)" "v \<in> set (check_vars (expand_edges g) c)"
    "u \<in> set (check_vars (expand_edges g) c')" "v \<in> set (check_vars (expand_edges g) c')"
  shows "c = c'"
  using assms unfolding girth6_def by (metis empty_subsetI insert_subset)

lemma unclean_unique:
  assumes g: "graph_ok g" "girth6 g"
    and i: "i \<in> set (var_edges (expand_edges g) u)" "\<not> clean g (\<lambda>w. w = v) i"
    and i': "i' \<in> set (var_edges (expand_edges g) u)" "\<not> clean g (\<lambda>w. w = v) i'"
  shows "u \<noteq> v" "i = i'"
proof -
  let ?E = "expand_edges g"
  have other: "u \<noteq> v \<and> {u, v} \<subseteq> set (check_vars ?E (s_check (?E ! k))) \<and> s_check (?E ! k) < M_of g \<and> k \<in> set (chk_edges ?E (s_check (?E ! k)))"
    if k: "k \<in> set (var_edges ?E u)" "\<not> clean g (\<lambda>w. w = v) k" for k
  proof -
    let ?c = "s_check (?E ! k)"
    have kE: "k < length ?E" "s_var (?E ! k) = u" using k(1) by (simp_all add: var_edges_iff)
    then have c: "?c < M_of g" and k_in: "k \<in> set (chk_edges ?E ?c)" using edge_bounds(2) [OF g(1)] by (simp_all add: chk_edges_iff)
    obtain j where j: "j \<in> set (chk_edges ?E ?c)" "j \<noteq> k" "s_var (?E ! j) = v" using k(2) by (auto simp: clean_def list_all_iff)
    have inj: "inj_on (\<lambda>ei. s_var (?E ! ei)) (set (chk_edges ?E ?c))"
      using g(2) c by (simp add: girth6_def check_vars_def distinct_map)
    have "s_var (?E ! j) \<noteq> s_var (?E ! k)" using inj_on_eq_iff [OF inj j(1) k_in] j(2) by simp
    then have "u \<noteq> v" using j(3) kE(2) by simp
    moreover have "s_var (?E ! k) \<in> set (check_vars ?E ?c)" "s_var (?E ! j) \<in> set (check_vars ?E ?c)"
      using k_in j(1) by (simp_all add: check_vars_def)
    ultimately show ?thesis using c k_in j(3) kE(2) by simp
  qed
  note o1 = other [OF i] and o2 = other [OF i']
  show "u \<noteq> v" using o1 by blast
  have c: "s_check (?E ! i) = s_check (?E ! i')"
    by (rule girth6D [OF g(2), of _ _ u v]) (use o1 o2 in simp_all)
  have inj: "inj_on (\<lambda>ei. s_var (?E ! ei)) (set (chk_edges ?E (s_check (?E ! i))))"
    using g(2) o1 by (simp add: girth6_def check_vars_def distinct_map)
  have "s_var (?E ! i) = s_var (?E ! i')" using i(1) i'(1) by (simp add: var_edges_iff)
  then show "i = i'" using inj_on_eq_iff [OF inj, of i i'] o1 o2 c by simp
qed

lemma filter_split_length: "length (filter P xs) + length (filter (\<lambda>x. \<not> P x) xs) = length xs"
  by (induction xs) simp_all

lemma single_outvoted:
  assumes g: "graph_ok g" "girth6 g" and me: "0 < m" "0 \<le> e" "3 * e < 4 * m"
    and deg: "4 * e < 3 * m * real (length (var_edges (expand_edges g) v))"
  shows "outvoted g (\<lambda>u. u = v) m e"
  unfolding outvoted_def list_all_iff
proof
  fix u assume "u \<in> set [0..<N_of g]"
  let ?es = "var_edges (expand_edges g) u" and ?C = "clean g (\<lambda>w. w = v)"
  let ?B = "filter (\<lambda>i. \<not> ?C i) ?es"
  have "card (set ?B) \<le> 1" "u = v \<Longrightarrow> ?B = []"
  proof -
    show "u = v \<Longrightarrow> ?B = []" using unclean_unique(1) [OF g] by (auto simp: filter_empty_conv)
    have "x = y" if "x \<in> set ?B" "y \<in> set ?B" for x y
      using unclean_unique(2) [OF g, of x u v y] that by simp
    then show "card (set ?B) \<le> 1" by (metis One_nat_def card_le_Suc0_iff_eq finite_set)
  qed
  moreover have "distinct ?B" by (simp add: var_edges_def)
  ultimately have B: "length ?B \<le> 1" "u = v \<Longrightarrow> length ?B = 0" using distinct_card [of ?B] by simp_all
  have "(if u = v then 4 * e else - 4 * m) < 3 * m * real (length (filter ?C ?es)) - 3 * e * real (length ?B)"
  proof (cases "u = v")
    case True
    then have "length (filter ?C ?es) = length ?es" using B(2) filter_split_length [of ?C ?es] by simp
    then show ?thesis using True B(2) deg by simp
  next
    case False
    have "3 * e * real (length ?B) \<le> 3 * e * 1" using B(1) me(2) by (intro mult_left_mono) simp_all
    moreover have "0 \<le> 3 * m * real (length (filter ?C ?es))" using me(1) by simp
    ultimately show ?thesis using False me(3) by simp
  qed
  then show "let es = ?es; a = length (filter ?C es); b = length (filter (\<lambda>i. \<not> ?C i) es)
      in (if u = v then 4 * e else - 4 * m) < 3 * m * real a - 3 * e * real b"
    by (simp only: Let_def)
qed

end
