(* ===== verification/ShortCycles.thy ===== *)
theory ShortCycles
  imports ErrorCorrection "HOL-Library.Multiset"
begin

text \<open>
  The Tanner graphs of both base graphs have no cycle of length 4 at the large lifting sizes. Two checks
  share two variables exactly when two rows of the table meet the same two columns with the same difference of
  shifts modulo the lifting size. The differences are computed from the tables column by column,
  sorted, and seen to be distinct. Since a difference that is distinct modulo \<open>z\<close> is distinct modulo
  every multiple of \<open>z\<close>, one evaluation per lifting set covers all its larger sizes.
\<close>

section \<open>Computing the differences\<close>

fun ascending :: "int list \<Rightarrow> bool" where
  "ascending (x # y # zs) \<longleftrightarrow> x < y \<and> ascending (y # zs)"
| "ascending _ \<longleftrightarrow> True"

fun merge :: "int list \<Rightarrow> int list \<Rightarrow> int list" where
  "merge [] ys = ys"
| "merge xs [] = xs"
| "merge (x # xs) (y # ys) = (if x < y then x # merge xs (y # ys) else y # merge (x # xs) ys)"

fun merge_pairs :: "int list list \<Rightarrow> int list list" where
  "merge_pairs (x # y # zs) = merge x y # merge_pairs zs"
| "merge_pairs xs = xs"

fun merge_rounds :: "nat \<Rightarrow> int list list \<Rightarrow> int list" where
  "merge_rounds 0 xs = concat xs"
| "merge_rounds (Suc n) xs = merge_rounds n (merge_pairs xs)"

fun group_rows :: "(int \<times> 'a) list \<Rightarrow> 'a list list" where
  "group_rows [] = []"
| "group_rows [(r, x)] = [[x]]"
| "group_rows ((r, x) # (q, y) # xs) =
     (case group_rows ((q, y) # xs) of [] \<Rightarrow> [[x]] | g # gs \<Rightarrow> if r = q then (x # g) # gs else [x] # g # gs)"

text \<open>The rows of a table: the columns below \<open>n\<close> with the shift for lifting set \<open>i\<close>.\<close>

definition keyed :: "nat \<Rightarrow> int \<Rightarrow> bg_edge list \<Rightarrow> (int \<times> int \<times> int) list" where
  "keyed i n es = filter (\<lambda>(r, c, s). c < n) (map (\<lambda>e. (int (row e), int (col e), shift e ! i)) es)"

definition shift_rows :: "nat \<Rightarrow> int \<Rightarrow> bg_edge list \<Rightarrow> (int \<times> int) list list" where
  "shift_rows i n es = group_rows (keyed i n es)"

text \<open>The later columns of a row with their difference to column \<open>c\<close>.\<close>

definition col_codes :: "int \<Rightarrow> int \<Rightarrow> (int \<times> int) list \<Rightarrow> int list" where
  "col_codes z c xs = (case dropWhile (\<lambda>(c', s). c' < c) xs of
     [] \<Rightarrow> []
   | (c', s) # ys \<Rightarrow> if c' = c then map (\<lambda>(d, t). d * 1000 + (s - t) mod z) ys else [])"

definition no_short_cycles :: "int \<Rightarrow> int list \<Rightarrow> (int \<times> int) list list \<Rightarrow> bool" where
  "no_short_cycles z cs rows \<longleftrightarrow>
     list_all (\<lambda>c. ascending (merge_rounds 8 (map (\<lambda>x. [x]) (concat (map (col_codes z c) rows))))) cs"

section \<open>What the computation shows\<close>

lemma mset_merge [simp]: "mset (merge xs ys) = mset xs + mset ys"
  by (induction xs ys rule: merge.induct) simp_all

lemma mset_merge_pairs [simp]: "mset (concat (merge_pairs xs)) = mset (concat xs)"
  by (induction xs rule: merge_pairs.induct) simp_all

lemma mset_merge_rounds [simp]: "mset (merge_rounds n xs) = mset (concat xs)"
  by (induction n arbitrary: xs) simp_all

lemma ascending_sorted: "ascending xs \<Longrightarrow> sorted_wrt (<) xs"
proof (induction xs rule: ascending.induct)
  case (1 x y zs)
  then have "x < y" "sorted_wrt (<) (y # zs)" by simp_all
  then show ?case by auto
qed simp_all

lemma distinct_by_sorting: "ascending (merge_rounds n (map (\<lambda>x. [x]) xs)) \<Longrightarrow> distinct xs"
proof -
  assume "ascending (merge_rounds n (map (\<lambda>x. [x]) xs))"
  then have "distinct (merge_rounds n (map (\<lambda>x. [x]) xs))" using ascending_sorted by (simp add: strict_sorted_iff)
  moreover have "mset (merge_rounds n (map (\<lambda>x. [x]) xs)) = mset xs" by simp
  ultimately show ?thesis using mset_eq_imp_distinct_iff by blast
qed

lemma distinct_concat_nth:
  assumes "distinct (concat xss)" "i < length xss" "j < length xss" "a \<in> set (xss ! i)" "a \<in> set (xss ! j)"
  shows "i = j"
  using assms
proof (induction xss arbitrary: i j)
  case (Cons xs xss)
  have "a \<in> set (concat xss)" if "k < length xss" "a \<in> set (xss ! k)" for k using that by (auto intro!: bexI nth_mem)
  moreover have "set xs \<inter> set (concat xss) = {}" "distinct (concat xss)" using Cons.prems(1) by simp_all
  ultimately show ?case using Cons.IH Cons.prems(2-5) by (cases i; cases j) auto
qed simp

lemma col_codes_mem:
  assumes "sorted_wrt (<) (map fst xs)" "(c, s) \<in> set xs" "(d, t) \<in> set xs" "c < d"
  shows "d * 1000 + (s - t) mod z \<in> set (col_codes z c xs)"
proof -
  obtain us ys where s: "xs = us @ (c, s) # ys" using assms(2) by (meson split_list)
  then have us: "\<forall>(c', s')\<in>set us. c' < c" using assms(1) by (auto simp: sorted_wrt_append)
  then have "(d, t) \<in> set ys" using assms(3,4) s by auto
  moreover have "dropWhile (\<lambda>(c', s). c' < c) xs = (c, s) # ys"
    unfolding s using us by (subst dropWhile_append2) auto
  ultimately show ?thesis by (force simp: col_codes_def)
qed

text \<open>Grouping a list whose keys are contiguous.\<close>

lemma group_rows_eq:
  "distinct (remdups_adj (map fst K)) \<Longrightarrow> group_rows K = map (\<lambda>r. map snd (filter (\<lambda>p. fst p = r) K)) (remdups_adj (map fst K))"
proof (induction K rule: group_rows.induct)
  case (3 r x q y xs)
  let ?K = "(q, y) # xs"
  obtain rs where rs: "remdups_adj (map fst ?K) = q # rs" by (metis fst_conv list.simps(9) remdups_adj_Cons_alt)
  have d: "distinct (q # rs)"
    using 3(2) rs by (cases "r = q") simp_all
  then have IH: "group_rows ?K = map (\<lambda>r. map snd (filter (\<lambda>p. fst p = r) ?K)) (q # rs)" using 3(1) rs by simp
  show ?case
  proof (cases "r = q")
    case True
    moreover have "\<forall>k\<in>set rs. q \<noteq> k" "q \<notin> set rs" using d by auto
    ultimately show ?thesis using rs IH by simp
  next
    case False
    have keys: "set (q # rs) = fst ` set ?K" using remdups_adj_set [of "map fst ?K"] unfolding rs by simp
    have "r \<notin> fst ` set ?K" using 3(2) False by simp
    then have "r \<notin> set (q # rs)" "r \<notin> fst ` set ?K" unfolding keys by simp_all
    then have "filter (\<lambda>p. fst p = r) ?K = []" "\<forall>k\<in>set (q # rs). r \<noteq> k"
      using \<open>r \<notin> set (q # rs)\<close> by (auto simp: filter_empty_conv)
    then show ?thesis using False rs IH by simp
  qed
qed simp_all

section \<open>The evaluations\<close>

lemma bg1_cycles:
  "no_short_cycles 128 [0..25] (shift_rows 0 26 BG1_EDGES)"
  "no_short_cycles 96 [0..25] (shift_rows 1 26 BG1_EDGES)"
  "no_short_cycles 80 [0..25] (shift_rows 2 26 BG1_EDGES)"
  by code_simp+

lemma bg1_cycles':
  "no_short_cycles 144 [0..25] (shift_rows 4 26 BG1_EDGES)"
  "no_short_cycles 22 [0..25] (shift_rows 5 26 BG1_EDGES)"
  by code_simp+

lemma bg2_cycles:
  "no_short_cycles 128 [0..13] (shift_rows 0 14 BG2_EDGES)"
  "no_short_cycles 96 [0..13] (shift_rows 1 14 BG2_EDGES)"
  "no_short_cycles 20 [0..13] (shift_rows 2 14 BG2_EDGES)"
  "no_short_cycles 112 [0..13] (shift_rows 3 14 BG2_EDGES)"
  by code_simp+

lemma bg2_cycles':
  "no_short_cycles 72 [0..13] (shift_rows 4 14 BG2_EDGES)"
  "no_short_cycles 176 [0..13] (shift_rows 5 14 BG2_EDGES)"
  "no_short_cycles 208 [0..13] (shift_rows 6 14 BG2_EDGES)"
  "no_short_cycles 15 [0..13] (shift_rows 7 14 BG2_EDGES)"
  by code_simp+

text \<open>The rows are contiguous and their columns ascend.\<close>

lemma bg_row_order:
  "remdups_adj (map row BG1_EDGES) = [0..<46]" "remdups_adj (map row BG2_EDGES) = [0..<42]"
  by code_simp+

lemma bg_col_order:
  "list_all (\<lambda>xs. ascending (map fst xs)) (shift_rows 0 68 BG1_EDGES)"
  "list_all (\<lambda>xs. ascending (map fst xs)) (shift_rows 0 52 BG2_EDGES)"
  by code_simp+

text \<open>Every core column has two entries in the first four rows.\<close>

definition two_entries :: "int list \<Rightarrow> (int \<times> int \<times> int) list \<Rightarrow> bool" where
  "two_entries cs K \<longleftrightarrow> list_all (\<lambda>c. 2 \<le> length (filter (\<lambda>(r, c', s). c' = c) K)) cs"

lemma bg_degrees:
  "two_entries [0..25] (filter (\<lambda>(r, c, s). r < 4) (keyed 0 26 BG1_EDGES))"
  "two_entries [0..13] (filter (\<lambda>(r, c, s). r < 4) (keyed 0 14 BG2_EDGES))"
  by code_simp+

text \<open>The smallest size of each lifting set that was evaluated, and the sizes it covers.\<close>

definition evaluated :: "base_graph \<Rightarrow> nat \<Rightarrow> int" where
  "evaluated bg i = (if bg = BG1 then [128, 96, 80, 0, 144, 22, 0, 0] else [128, 96, 20, 112, 72, 176, 208, 15]) ! i"

lemma evaluated_sizes:
  "list_all (\<lambda>zc. case i_ls_for_zc zc of None \<Rightarrow> False
     | Some i \<Rightarrow> (256 \<le> zc \<longrightarrow> List.member [0, 1, 2, 4, 5] i \<and> zc mod evaluated BG1 i = 0) \<and> (112 \<le> zc \<longrightarrow> zc mod evaluated BG2 i = 0))
   lifting_sizes"
  by code_simp

section \<open>The rows of the tables\<close>

lemma shift_rows_eq:
  assumes "remdups_adj (map row (filter (\<lambda>e. int (col e) < n) T)) = [0..<mb]"
  shows "shift_rows i n T =
    map (\<lambda>R. map (\<lambda>e. (int (col e), shift e ! i)) (filter (\<lambda>e. row e = R \<and> int (col e) < n) T)) [0..<mb]"
proof -
  have K: "keyed i n T = map (\<lambda>e. (int (row e), int (col e), shift e ! i)) (filter (\<lambda>e. int (col e) < n) T)"
    by (simp add: keyed_def filter_map comp_def)
  have "remdups_adj (map fst (keyed i n T)) = remdups_adj (map int (map row (filter (\<lambda>e. int (col e) < n) T)))"
    by (simp add: K comp_def)
  also have "\<dots> = map int [0..<mb]" unfolding remdups_adj_map_injective [OF inj_of_nat] assms ..
  finally have r: "remdups_adj (map fst (keyed i n T)) = map int [0..<mb]" .
  then have "distinct (remdups_adj (map fst (keyed i n T)))" by (simp add: distinct_map)
  then show ?thesis unfolding shift_rows_def
    by (simp add: group_rows_eq r) (simp add: K filter_map comp_def conj_commute)
qed

lemma table_col_order:
  assumes "R < default_mb bg"
  shows "sorted_wrt (<) (map col (filter (\<lambda>e. row e = R) (table_of bg)))"
proof -
  obtain n where n: "list_all (\<lambda>xs. ascending (map fst xs)) (shift_rows 0 n (table_of bg))" "\<forall>e\<in>set (table_of bg). int (col e) < n"
    using bg_col_order bg_edges_ok [unfolded list_all_iff edge_ok_def] bg_dims
    by (cases bg) (force simp: table_of_def)+
  have "filter (\<lambda>e. int (col e) < n) (table_of bg) = table_of bg" using n(2) by (simp add: filter_id_conv)
  then have r: "remdups_adj (map row (filter (\<lambda>e. int (col e) < n) (table_of bg))) = [0..<default_mb bg]"
    using bg_row_order by (simp add: table_of_def default_mb_def)
  have "filter (\<lambda>e. row e = R \<and> int (col e) < n) (table_of bg) = filter (\<lambda>e. row e = R) (table_of bg)"
    using n(2) by (intro filter_cong) auto
  moreover have "\<forall>R\<in>{0..<default_mb bg}. ascending (map int (map col (filter (\<lambda>e. row e = R \<and> int (col e) < n) (table_of bg))))"
    using n(1) unfolding shift_rows_eq [OF r] by (simp add: list_all_iff comp_def)
  ultimately have "ascending (map int (map col (filter (\<lambda>e. row e = R) (table_of bg))))" using assms by force
  then have "sorted_wrt (<) (map int (map col (filter (\<lambda>e. row e = R) (table_of bg))))" by (rule ascending_sorted)
  then show ?thesis by (simp only: sorted_wrt_map of_nat_less_iff)
qed

text \<open>What the evaluations say: rows that meet two core columns with the same difference are the same row.\<close>

definition cycle_free :: "base_graph \<Rightarrow> nat \<Rightarrow> int \<Rightarrow> bool" where
  "cycle_free bg i z \<longleftrightarrow> no_short_cycles z [0..int (default_kb bg) + 3] (shift_rows i (int (default_kb bg) + 4) (table_of bg))"

lemma cycle_free_rows:
  assumes free: "cycle_free bg i z" and T: "{e, e', f, f'} \<subseteq> set (table_of bg)"
    and rows: "row e' = row e" "row f' = row f" and cols: "col f = col e" "col f' = col e'" "col e < col e'" "col e' < default_kb bg + 4"
    and diff: "(shift e ! i - shift e' ! i) mod z = (shift f ! i - shift f' ! i) mod z"
  shows "row e = row f"
proof -
  let ?n = "int (default_kb bg) + 4" and ?T = "table_of bg" and ?c = "int (col e)"
  define R where "R r = map (\<lambda>e. (int (col e), shift e ! i)) (filter (\<lambda>e. row e = r \<and> int (col e) < ?n) ?T)" for r
  have "(\<lambda>e. int (col e) < ?n) = (\<lambda>e. col e < default_kb bg + 4)" by (auto simp: fun_eq_iff)
  then have "remdups_adj (map row (filter (\<lambda>e. int (col e) < ?n) ?T)) = [0..<default_mb bg]"
    using bg1_rows bg2_rows by (simp add: table_of_def default_kb_def default_mb_def)
  from shift_rows_eq [OF this] have rows_eq: "shift_rows i ?n ?T = map R [0..<default_mb bg]" by (simp add: R_def [abs_def])
  have mb: "row x < default_mb bg" if "x \<in> set ?T" for x
    using that base_of_eq [of bg] base_of_ok by (force simp: edge_ok_def)
  have mem: "int (col e') * 1000 + (shift x ! i - shift y ! i) mod z \<in> set (col_codes z ?c (R (row x)))"
    if "x \<in> set ?T" "y \<in> set ?T" "row y = row x" "col x = col e" "col y = col e'" for x y
  proof (rule col_codes_mem)
    have "sorted_wrt (\<lambda>x y. col x < col y) (filter (\<lambda>e. int (col e) < ?n) (filter (\<lambda>e. row e = row x) ?T))"
      by (rule sorted_wrt_filter) (use table_col_order [OF mb [OF that(1)]] in \<open>simp add: sorted_wrt_map\<close>)
    then show "sorted_wrt (<) (map fst (R (row x)))" by (simp add: R_def comp_def sorted_wrt_map conj_commute)
    show "(?c, shift x ! i) \<in> set (R (row x))"
      unfolding R_def set_map by (rule image_eqI [of _ _ x]) (use that cols(3,4) in simp_all)
    show "(int (col e'), shift y ! i) \<in> set (R (row x))"
      unfolding R_def set_map by (rule image_eqI [of _ _ y]) (use that cols(4) in simp_all)
    show "?c < int (col e')" using cols(3) by simp
  qed
  have "?c \<in> set [0..int (default_kb bg) + 3]" using cols(3,4) by simp
  then have "distinct (concat (map (col_codes z ?c) (map R [0..<default_mb bg])))"
    using free unfolding cycle_free_def no_short_cycles_def rows_eq list_all_iff by (intro distinct_by_sorting) blast
  from distinct_concat_nth [OF this, of "row e" "row f" "int (col e') * 1000 + (shift e ! i - shift e' ! i) mod z"]
  show ?thesis using mem [of e e'] mem [of f f'] T rows cols mb diff by simp
qed

section \<open>The lifted graphs\<close>

lemma edge_var_shift:
  assumes "graph_ok g" "e \<in> set (g_edges g)"
  shows "int (edge_var g z e) mod int (g_zc g) = (int z + shift e ! g_i_ls g) mod int (g_zc g)"
proof -
  have zc: "0 < int (g_zc g)" and s: "0 \<le> shift e ! g_i_ls g"
    using assms by (auto simp: graph_ok_def edge_ok_def list_all_length)
  have "mod_shift (shift e ! g_i_ls g) (g_zc g) = nat (shift e ! g_i_ls g mod int (g_zc g))"
    using s pos_mod_sign [OF zc, of "shift e ! g_i_ls g"] by (simp add: mod_shift_def Let_def)
  then have "int (mod_shift (shift e ! g_i_ls g) (g_zc g)) = shift e ! g_i_ls g mod int (g_zc g)" using zc by simp
  then show ?thesis by (simp add: edge_var_def lifted_var_def zmod_int mod_simps)
qed

text \<open>The graphs that the library makes from the tables: along a row the columns ascend, so an edge is given
  by its row and column.\<close>

lemma standard_row_order:
  assumes "make_graph p = Inr g" "standard_params p" "R < g_mb g"
  shows "sorted_wrt (<) (map col (filter (\<lambda>e. row e = R) (g_edges g)))"
proof -
  let ?T = "table_of (p_bg p)"
  note ed = standard_edges [OF assms(1,2)]
  have "sorted_wrt (\<lambda>x y. col x < col y) (filter (\<lambda>e. row e = R) ?T)"
    using table_col_order [of R "p_bg p"] assms(3) ed(3) by (simp add: sorted_wrt_map)
  then have "sorted_wrt (\<lambda>x y. col x < col y) (filter Q (filter (\<lambda>e. row e = R) ?T))" for Q by (rule sorted_wrt_filter)
  from this [of "\<lambda>e. row e < g_mb g \<and> col e < g_kb g + g_mb g"] this [of "\<lambda>e. True"] show ?thesis
    using ed(5) by (auto simp: sorted_wrt_map conj_commute)
qed

lemma standard_col_inj:
  assumes "make_graph p = Inr g" "standard_params p"
    and "e \<in> set (g_edges g)" "f \<in> set (g_edges g)" "row e = row f" "col e = col f" "row e < g_mb g"
  shows "e = f"
proof -
  have "inj_on col (set (filter (\<lambda>x. row x = row e) (g_edges g)))"
    using standard_row_order [OF assms(1,2,7)] by (simp add: strict_sorted_iff distinct_map)
  then show ?thesis using assms(3-6) by (auto dest: inj_onD)
qed

text \<open>The variables of a check come from the edges of its row of blocks.\<close>

lemma check_vars_at:
  assumes "graph_ok g"
  shows "check_vars (expand_edges g) c = map (edge_var g (c mod g_zc g)) (filter (\<lambda>e. row e = c div g_zc g) (g_edges g))"
  using check_vars_row [OF assms, of "c mod g_zc g" "c div g_zc g"] assms by (simp add: graph_ok_def)

lemma check_var_edge:
  assumes "graph_ok g" "u \<in> set (check_vars (expand_edges g) c)"
  obtains e where "e \<in> set (g_edges g)" "row e = c div g_zc g" "col e = u div g_zc g" "edge_var g (c mod g_zc g) e = u"
  using assms edge_var_col by (auto simp: check_vars_at graph_ok_def)

lemma check_row_less: "c < M_of g \<Longrightarrow> c div g_zc g < g_mb g"
  by (simp add: M_of_def less_mult_imp_div_less)

lemma distinct_check_vars:
  assumes g: "graph_ok g" and cols: "distinct (map col (filter (\<lambda>e. row e = c div g_zc g) (g_edges g)))"
  shows "distinct (check_vars (expand_edges g) c)"
proof -
  have "map (\<lambda>v. v div g_zc g) (check_vars (expand_edges g) c) = map col (filter (\<lambda>e. row e = c div g_zc g) (g_edges g))"
    using edge_var_col g by (simp add: check_vars_at graph_ok_def)
  then show ?thesis using cols by (metis distinct_map)
qed

lemma standard_check_distinct:
  assumes "make_graph p = Inr g" "standard_params p" "c < M_of g"
  shows "distinct (check_vars (expand_edges g) c)"
  using standard_row_order [OF assms(1,2) check_row_less [OF assms(3)]]
  by (intro distinct_check_vars [OF standard_graph(1) [OF assms(1,2)]]) (simp add: strict_sorted_iff)

text \<open>Two pairs of edges that close a cycle of length 4 lie in one row of blocks: in the core columns by the
  evaluation of the table, in the extension columns because these have one edge each.\<close>

lemma cycle_row:
  assumes T: "{e, e', f, f'} \<subseteq> set (table_of bg)" and free: "cycle_free bg i z" "z dvd n"
    and rows: "row e' = row e" "row f' = row f" and cols: "col f = col e" "col f' = col e'" "col e < col e'"
    and zu: "(a + shift e ! i) mod n = (b + shift f ! i) mod n" and zv: "(a + shift e' ! i) mod n = (b + shift f' ! i) mod n"
  shows "row e = row f"
proof (cases "col e' < default_kb bg + 4")
  case True
  have "n dvd (a + shift e ! i - (b + shift f ! i)) - (a + shift e' ! i - (b + shift f' ! i))"
    using zu zv unfolding mod_eq_dvd_iff by (rule dvd_diff)
  then have "z dvd (shift e ! i - shift e' ! i) - (shift f ! i - shift f' ! i)"
    using free(2) dvd_trans by (simp add: algebra_simps)
  then have "(shift e ! i - shift e' ! i) mod z = (shift f ! i - shift f' ! i) mod z" by (simp only: mod_eq_dvd_iff)
  then show ?thesis using cycle_free_rows [OF free(1) T rows cols True] by simp
next
  case False
  then have "col e' = default_kb bg + row e'" "col f' = default_kb bg + row f'"
    using table_extension [of e' bg] table_extension [of f' bg] T cols by auto
  then show ?thesis using rows cols by simp
qed

lemma common_pair:
  assumes mk: "make_graph p = Inr g" and st: "standard_params p"
    and free: "cycle_free (p_bg p) (g_i_ls g) z" "z dvd int (g_zc g)"
    and c: "c < M_of g" "c' < M_of g" and cols: "u div g_zc g \<le> v div g_zc g"
    and uv: "u \<noteq> v" "{u, v} \<subseteq> set (check_vars (expand_edges g) c)" "{u, v} \<subseteq> set (check_vars (expand_edges g) c')"
  shows "c = c'"
proof -
  let ?z = "c mod g_zc g" and ?z' = "c' mod g_zc g" and ?zc = "int (g_zc g)"
  note g = standard_graph(1) [OF mk st]
  have T: "set (g_edges g) \<subseteq> set (table_of (p_bg p))" using standard_edges(5) [OF mk st] by auto
  obtain e where e: "e \<in> set (g_edges g)" "row e = c div g_zc g" "col e = u div g_zc g" "edge_var g ?z e = u"
    using check_var_edge [OF g, of u c] uv by auto
  obtain e' where e': "e' \<in> set (g_edges g)" "row e' = c div g_zc g" "col e' = v div g_zc g" "edge_var g ?z e' = v"
    using check_var_edge [OF g, of v c] uv by auto
  obtain f where f: "f \<in> set (g_edges g)" "row f = c' div g_zc g" "col f = u div g_zc g" "edge_var g ?z' f = u"
    using check_var_edge [OF g, of u c'] uv by auto
  obtain f' where f': "f' \<in> set (g_edges g)" "row f' = c' div g_zc g" "col f' = v div g_zc g" "edge_var g ?z' f' = v"
    using check_var_edge [OF g, of v c'] uv by auto
  have zu: "(int ?z + shift e ! g_i_ls g) mod ?zc = (int ?z' + shift f ! g_i_ls g) mod ?zc"
    using edge_var_shift [OF g e(1), of ?z] edge_var_shift [OF g f(1), of ?z'] e(4) f(4) by simp
  have zv: "(int ?z + shift e' ! g_i_ls g) mod ?zc = (int ?z' + shift f' ! g_i_ls g) mod ?zc"
    using edge_var_shift [OF g e'(1), of ?z] edge_var_shift [OF g f'(1), of ?z'] e'(4) f'(4) by simp
  have row: "row e < g_mb g" using check_row_less [OF c(1)] e(2) by simp
  have "e \<noteq> e'" using e(4) e'(4) uv(1) by auto
  then have "col e \<noteq> col e'" using standard_col_inj [OF mk st e(1) e'(1) _ _ row] e(2) e'(2) by auto
  then have "col e < col e'" using e(3) e'(3) cols by simp
  then have rows: "row e = row f"
    by (intro cycle_row [OF _ free _ _ _ _ _ zu zv]) (use T e e' f f' in auto)
  then have "e = f" using standard_col_inj [OF mk st e(1) f(1) _ _ row] e(3) f(3) by simp
  then have "?zc dvd int ?z - int ?z'" using zu by (simp add: mod_eq_dvd_iff)
  then have "?z = ?z'" by (simp add: mod_eq_dvd_iff [symmetric] zmod_int [symmetric])
  then show ?thesis using rows e(2) f(2) by (metis div_mult_mod_eq)
qed

lemma standard_girth6:
  assumes "make_graph p = Inr g" "standard_params p" "cycle_free (p_bg p) (g_i_ls g) z" "z dvd int (g_zc g)"
  shows "girth6 g"
  unfolding girth6_def
proof (intro conjI allI impI)
  fix c c' u v
  assume c: "c < M_of g" "c' < M_of g"
    and uv: "u \<noteq> v \<and> {u, v} \<subseteq> set (check_vars (expand_edges g) c) \<and> {u, v} \<subseteq> set (check_vars (expand_edges g) c')"
  then show "c = c'"
    using common_pair [OF assms c, of u v] common_pair [OF assms c, of v u]
    by (cases "u div g_zc g \<le> v div g_zc g") (simp_all add: insert_commute)
qed (rule standard_check_distinct [OF assms(1,2)])

section \<open>Degrees\<close>

lemma var_edges_degree:
  assumes g: "graph_ok g"
  shows "length (filter (\<lambda>e. col e = v div g_zc g) (g_edges g)) \<le> length (var_edges (expand_edges g) v)"
proof -
  have zc: "0 < g_zc g" using g by (simp add: graph_ok_def)
  have one: "1 \<le> length (filter (\<lambda>x. s_var x = v) (expand_edge g e))" if e: "e \<in> set (g_edges g)" "col e = v div g_zc g" for e
  proof -
    have "0 \<le> shift e ! g_i_ls g" using g e(1) by (auto simp: graph_ok_def edge_ok_def list_all_length)
    then have "map s_var (expand_edge g e) = map (\<lambda>z. edge_var g z e) [0..<g_zc g]"
      by (simp add: expand_edge_def Let_def edge_var_def)
    moreover obtain z where "z < g_zc g" "edge_var g z e = v" using edge_var_surj [of v g e] e(2) zc by auto
    ultimately have "v \<in> set (map s_var (expand_edge g e))" by auto
    then have "filter (\<lambda>x. s_var x = v) (expand_edge g e) \<noteq> []" by (auto simp: filter_empty_conv)
    then show ?thesis by (simp add: Suc_le_eq)
  qed
  have "length (filter (\<lambda>e. col e = v div g_zc g) es) \<le> length (filter (\<lambda>x. s_var x = v) (concat (map (expand_edge g) es)))"
    if "set es \<subseteq> set (g_edges g)" for es
    using that by (induction es) (auto dest: one)
  moreover have "length (var_edges edges v) = length (filter (\<lambda>x. s_var x = v) (map ((!) edges) [0..<length edges]))" for edges
    by (simp add: var_edges_def filter_map comp_def)
  ultimately show ?thesis by (simp add: map_nth expand_edges_def)
qed

lemma standard_degree:
  assumes mk: "make_graph p = Inr g" and st: "standard_params p" and v: "v < K_of g + 4 * g_zc g"
  shows "2 \<le> length (var_edges (expand_edges g) v)"
proof -
  let ?T = "table_of (p_bg p)" and ?n = "int (default_kb (p_bg p)) + 4" and ?c = "v div g_zc g"
  note ed = standard_edges [OF mk st] and g = standard_graph(1) [OF mk st]
  have zc: "0 < g_zc g" using g by (simp add: graph_ok_def)
  have "v < (default_kb (p_bg p) + 4) * g_zc g" using v ed(1) by (simp add: K_of_def algebra_simps)
  then have c: "?c < default_kb (p_bg p) + 4" by (simp add: less_mult_imp_div_less)
  have deg: "two_entries [0..?n - 1] (filter (\<lambda>(r, c, s). r < 4) (keyed 0 ?n ?T))"
    using bg_degrees by (simp add: table_of_def default_kb_def)
  have K: "filter (\<lambda>(r, c', s). c' = int ?c) (filter (\<lambda>(r, c, s). r < 4) (keyed 0 ?n ?T)) =
      map (\<lambda>e. (int (row e), int (col e), shift e ! 0)) (filter (\<lambda>e. row e < 4 \<and> col e = ?c) ?T)"
    using c by (simp add: keyed_def filter_map comp_def) (intro arg_cong [of _ _ "map _"] filter_cong, auto)
  have "int ?c \<in> set [0..?n - 1]" using c by simp
  with deg have "2 \<le> length (filter (\<lambda>(r, c', s). c' = int ?c) (filter (\<lambda>(r, c, s). r < 4) (keyed 0 ?n ?T)))"
    by (simp only: two_entries_def list_all_iff)
  then have "2 \<le> length (filter (\<lambda>e. row e < 4 \<and> col e = ?c) ?T)" unfolding K by simp
  also have "filter (\<lambda>e. row e < 4 \<and> col e = ?c) ?T = filter (\<lambda>e. row e < 4 \<and> col e = ?c) (g_edges g)"
    using ed(5)
  proof
    assume e: "g_edges g = filter (\<lambda>e. row e < g_mb g \<and> col e < g_kb g + g_mb g) ?T"
    show ?thesis unfolding e filter_filter using c ed(1,2) by (intro filter_cong) auto
  qed simp
  also have "\<dots> = filter (\<lambda>e. row e < 4) (filter (\<lambda>e. col e = ?c) (g_edges g))" by (simp add: conj_commute)
  finally have "2 \<le> length (filter (\<lambda>e. col e = ?c) (g_edges g))" using length_filter_le order_trans by blast
  then show ?thesis using var_edges_degree [OF g, of v] by linarith
qed

lemma large_lifting:
  assumes mk: "make_graph p = Inr g" and st: "standard_params p" and "p_i_ls p < 0"
    and large: "(if p_bg p = BG1 then 256 else 112) \<le> g_zc g"
  shows "girth6 g"
proof -
  obtain zc ils where l: "graph_lifting p = Inr (zc, ils)" "g_zc g = nat zc" "g_i_ls g = nat ils" using mk by (rule make_graph_InrE)
  note i = graph_lifting_Inr(1,3) [OF l(1)]
  have ils: "i_ls_for_zc zc = Some (g_i_ls g)" "zc = int (g_zc g)"
    using i assms(3) valid_lifting_bounds [OF i(1)] l(2,3) by auto
  have free: "cycle_free (p_bg p) (g_i_ls g) (evaluated (p_bg p) (g_i_ls g)) \<and> evaluated (p_bg p) (g_i_ls g) dvd zc"
  proof (cases "p_bg p")
    case BG1
    then have "List.member [0, 1, 2, 4, 5] (g_i_ls g)" "zc mod evaluated BG1 (g_i_ls g) = 0"
      using evaluated_sizes i(1) ils large by (auto simp: list_all_iff split: option.splits)
    then show ?thesis using bg1_cycles bg1_cycles' BG1
      by (auto simp: cycle_free_def evaluated_def table_of_def default_kb_def mod_eq_0_iff_dvd)
  next
    case BG2
    then have "zc mod evaluated BG2 (g_i_ls g) = 0"
      using evaluated_sizes i(1) ils large by (auto simp: list_all_iff split: option.splits)
    moreover have "g_i_ls g < 8" using ils(1) by (rule i_ls_for_zc_less)
    ultimately show ?thesis using bg2_cycles bg2_cycles' BG2
      by (auto simp: cycle_free_def evaluated_def table_of_def default_kb_def mod_eq_0_iff_dvd less_Suc_eq numeral_eq_Suc)
  qed
  then show ?thesis using standard_girth6 [OF mk st] ils(2) by blast
qed

section \<open>Properties\<close>

text \<open>C6: error correction. On every standard code with a lifting size of at least 256 (base graph 1) or 112
  (base graph 2), whatever number of rows is used, one wrong soft value at any information or core
  parity position is corrected, as long as its magnitude is below four thirds of the least magnitude of the
  right ones. One iteration is enough, and the early exit does not accept the wrong word.\<close>

theorem ldpc_corrects_error:
  assumes "make_graph p = Inr g" "standard_params p" "p_i_ls p < 0" "(if p_bg p = BG1 then 256 else 112) \<le> g_zc g"
    and "p_zc p = 0 \<longrightarrow> p_info_bits p > 0" "1 \<le> p_max_iter p"
    and "bits_ok x" "length x = N_of g" "ldpc_syndrome_ok x p = Inr True"
    and "length llr = N_of g" "v < K_of g + 4 * g_zc g" "0 < m" "0 \<le> e" "3 * e < 4 * m"
    and "\<forall>u<N_of g. (if u = v then - e else m) \<le> margin x llr u"
  shows "ldpc_decode llr p = Inr (take (K_of g) x)"
proof -
  note g = standard_graph(1) [OF assms(1,2)] and paired = standard_paired [OF assms(1,2)]
  have x: "codeword g x" using assms(7-9) syndrome_of_code [OF assms(1,8)] by (simp add: codeword_def)
  have llr: "noisy g x (\<lambda>u. u = v) m e llr" using assms(10,12,13,15) by (simp add: noisy_def)
  have "6 * m \<le> 3 * m * real (length (var_edges (expand_edges g) v))"
    using standard_degree [OF assms(1,2,11)] assms(12) by simp
  then have "outvoted g (\<lambda>u. u = v) m e"
    using assms(12-14) by (intro single_outvoted [OF g large_lifting [OF assms(1-4)]]) linarith+
  then have "decode_minsum llr g (p_max_iter p) = Inr (take (K_of g) x)"
    by (rule decode_minsum_outvoted [OF g paired x llr _ assms(6)])
  then show ?thesis using assms(1,5) by (simp add: ldpc_decode_def)
qed

theorem ldpc_corrects_error_witness:
  "ldpc_decode ((- 3 :: real) # replicate 1567 3) (test_params\<lparr>p_zc := 112\<rparr>) = Inr (replicate 1120 0)"
proof -
  let ?p = "test_params\<lparr>p_zc := 112\<rparr>" and ?llr = "(- 3 :: real) # replicate 1567 3"
  have p: "standard_params ?p" "p_bg ?p = BG2" "p_zc ?p = 112" "p_i_ls ?p = -1" "p_info_bits ?p = -1" "p_max_iter ?p = 25" "p_mb_use ?p = 4"
    by (simp_all add: test_params_def default_params_def standard_params_def default_mb_def)
  have "i_ls_for_zc 112 = Some 3" by code_simp
  then have "graph_lifting ?p = Inr (112, 3)" by (simp add: graph_lifting_def p)
  then obtain g where g: "make_graph ?p = Inr g" using make_graph_standard [OF p(1)] p by (auto simp: default_kb_def)
  have zc: "g_zc g = 112" using g by (rule make_graph_InrE) (use graph_lifting_Inr(4) [of ?p] p in auto)
  have "g_mb g = 4" using g by (rule make_graph_InrE) (simp add: p)
  then have n: "N_of g = 1568" "K_of g = 1120"
    using standard_edges(1,4) [OF g p(1)] zc by (simp_all add: N_of_def K_of_def p default_kb_def)
  have "in_code g (\<lambda>c. replicate 1568 0 ! c)"
    using in_code_zero [of g] n dot_cong [of 1568 _ _ "\<lambda>c. replicate 1568 0 ! c" "\<lambda>c. 0"] by (auto simp: in_code_def)
  then have code: "ldpc_syndrome_ok (replicate 1568 0) ?p = Inr True" using syndrome_of_code [OF g, of "replicate 1568 0"] n by simp
  have margin: "(if u = 0 then - 3 else 3) \<le> margin (replicate 1568 0) ?llr u" if "u < 1568" for u
    using that by (cases u) (simp_all add: margin_def sgn_bit_def)
  have "bits_ok (replicate 1568 0)" by (simp add: bits_ok_def is_bit_def list_all_iff)
  then show ?thesis
    using ldpc_corrects_error [OF g p(1), of "replicate 1568 0" ?llr 0 3 3] code margin by (simp add: p zc n)
qed

end
