(* ===== verification/CompactLdpc.thy ===== *)
theory CompactLdpc
  imports LdpcDecode
begin

text \<open>
  \<open>educational/nr_style_compact_ldpc\<close>: the compact quasi-cyclic code. The file repeats the structure of
  \<open>src/ldpc.cpp\<close> on graphs with one shift per edge; the elimination, the passes of the decoder and the
  row syndrome are the same text and are taken from \<open>LdpcEncode\<close> and \<open>LdpcDecode\<close>. \<open>nr_of\<close> is the
  graph of the main library with the same edges; the lemmas show that the two libraries agree on it, so
  that the theory of the main code applies, and that the parity part of the compact matrices is the
  identity.
\<close>

section \<open>The code\<close>

datatype compact_base_graph = CBG1 | CBG2

record compact_params =
  cp_bg :: compact_base_graph
  cp_zc :: int
  cp_max_iter :: int
  cp_info_cols :: int

definition default_compact :: compact_params where
  "default_compact = \<lparr>cp_bg = CBG2, cp_zc = 2, cp_max_iter = 25, cp_info_cols = -1\<rparr>"

record compact_graph_info =
  ci_mb :: nat
  ci_nb :: nat
  ci_kb :: nat
  ci_zc :: nat
  ci_provenance :: string

type_synonym compact_edge = "nat \<times> nat \<times> nat"

definition compact_BG1_EDGES :: "compact_edge list" where
  "compact_BG1_EDGES = [
    (0, 0, 0), (0, 1, 1), (0, 2, 0), (0, 6, 0), (1, 0, 1), (1, 3, 0), (1, 4, 1), (1, 7, 0),
    (2, 1, 0), (2, 2, 1), (2, 5, 0), (2, 8, 0), (3, 0, 0), (3, 3, 1), (3, 5, 1), (3, 9, 0)]"

definition compact_BG2_EDGES :: "compact_edge list" where
  "compact_BG2_EDGES = [
    (0, 0, 0), (0, 1, 1), (0, 2, 0), (0, 4, 0), (1, 0, 1), (1, 1, 0), (1, 3, 1), (1, 5, 0),
    (2, 1, 0), (2, 2, 1), (2, 3, 0), (2, 6, 0), (3, 0, 0), (3, 2, 1), (3, 3, 1), (3, 7, 0)]"

record compact_graph =
  cg_mb :: nat
  cg_nb :: nat
  cg_kb :: nat
  cg_zc :: nat
  cg_edges :: "compact_edge list"
  cg_provenance :: string

definition compact_make_graph :: "compact_params \<Rightarrow> compact_graph result" where
  "compact_make_graph p =
     and_then (require (cp_zc p = 2 \<or> cp_zc p = 4 \<or> cp_zc p = 8) ''compact Zc must be 2,4, or 8'') (\<lambda>_.
     let (mb, nb, kb, edges, prov) =
       (if cp_bg p = CBG1
        then (4, 10, if cp_info_cols p > 0 then nat (cp_info_cols p) else 6, compact_BG1_EDGES,
              ''EDUCATIONAL_ONLY CompactQcLdpc BG1-style scaffold'')
        else (4, 8, if cp_info_cols p > 0 then nat (cp_info_cols p) else 4, compact_BG2_EDGES,
              ''EDUCATIONAL_ONLY CompactQcLdpc BG2-style scaffold''))
     in and_then (require (kb > 0 \<and> kb < nb) ''invalid kb'') (\<lambda>_.
        and_then (require (nb - kb = mb) ''scaffold requires nb-kb == mb'') (\<lambda>_.
        Inr \<lparr>cg_mb = mb, cg_nb = nb, cg_kb = kb, cg_zc = nat (cp_zc p), cg_edges = edges, cg_provenance = prov\<rparr>)))"

definition compact_N :: "compact_graph \<Rightarrow> nat" where "compact_N g = cg_nb g * cg_zc g"
definition compact_K :: "compact_graph \<Rightarrow> nat" where "compact_K g = cg_kb g * cg_zc g"
definition compact_M :: "compact_graph \<Rightarrow> nat" where "compact_M g = cg_mb g * cg_zc g"

definition compact_lifted_var :: "nat \<Rightarrow> nat \<Rightarrow> nat \<Rightarrow> nat \<Rightarrow> nat" where
  "compact_lifted_var col_block s row_within zc = col_block * zc + (row_within + s) mod zc"

definition compact_build_H :: "compact_graph \<Rightarrow> matrix" where
  "compact_build_H g =
     foldl (\<lambda>H (r, c, s). foldl (\<lambda>H z. toggle H (r * cg_zc g + z) (compact_lifted_var c s z (cg_zc g))) H [0..<cg_zc g])
       (replicate (compact_M g) (replicate (compact_N g) 0)) (cg_edges g)"

definition compact_encode_ge :: "bitvec \<Rightarrow> compact_graph \<Rightarrow> bitvec result" where
  "compact_encode_ge info g =
     (let K = compact_K g; N = compact_N g; M = compact_M g in
      and_then (require (length info = K) ''info length must equal kb*zc'') (\<lambda>_.
      let H = compact_build_H g;
          rhs = map (\<lambda>r. info_parity K (H ! r) info) [0..<M];
          A = map (\<lambda>r. map (\<lambda>c. H ! r ! (K + c)) [0..<M]) [0..<M]
      in and_then (gauss_jordan ''parity submatrix singular'' M (A, rhs) [0..<M])
           (\<lambda>st. Inr (map (\<lambda>i. info ! i) [0..<K] @ map (\<lambda>i. snd st ! i) [0..<M]))))"

definition compact_expand_edges :: "compact_graph \<Rightarrow> sparse_edge list" where
  "compact_expand_edges g =
     concat (map (\<lambda>(r, c, s). map (\<lambda>z. \<lparr>s_check = r * cg_zc g + z, s_var = compact_lifted_var c s z (cg_zc g)\<rparr>) [0..<cg_zc g])
       (cg_edges g))"

fun compact_minsum :: "compact_graph \<Rightarrow> sparse_edge list \<Rightarrow> dbl list \<Rightarrow> nat \<Rightarrow> dbl list \<Rightarrow> dbl list \<Rightarrow> bitvec" where
  "compact_minsum g edges channel 0 c2v v2c =
     take (compact_K g) (hard_of (compact_N g) (app_of edges (compact_N g) channel c2v))"
| "compact_minsum g edges channel (Suc n) c2v v2c =
     (let app = app_of edges (compact_N g) channel c2v;
          v2c' = v2c_of edges (compact_N g) app c2v v2c;
          hard = hard_of (compact_N g) app
      in if syndrome edges (compact_M g) hard then take (compact_K g) hard
         else compact_minsum g edges channel n (c2v_of edges (compact_M g) v2c' c2v) v2c')"

definition compact_decode_minsum :: "softvec \<Rightarrow> compact_graph \<Rightarrow> int \<Rightarrow> bitvec result" where
  "compact_decode_minsum llr g max_iter =
     and_then (require (length llr = compact_N g) ''LLR length must equal nb*zc'') (\<lambda>_.
     let edges = compact_expand_edges g; zeros = replicate (length edges) (Fin 0) in
     Inr (compact_minsum g edges (map Fin llr) (nat max_iter) zeros zeros))"

definition compact_qc_ldpc_graph_info :: "compact_params \<Rightarrow> compact_graph_info result" where
  "compact_qc_ldpc_graph_info p =
     and_then (compact_make_graph p) (\<lambda>g.
     Inr \<lparr>ci_mb = cg_mb g, ci_nb = cg_nb g, ci_kb = cg_kb g, ci_zc = cg_zc g, ci_provenance = cg_provenance g\<rparr>)"

definition compact_qc_ldpc_encode :: "bitvec \<Rightarrow> compact_params \<Rightarrow> bitvec result" where
  "compact_qc_ldpc_encode info p =
     and_then (require (bits_ok info) ''info bits must be 0/1'') (\<lambda>_.
     and_then (compact_make_graph p) (compact_encode_ge info))"

definition compact_qc_ldpc_decode :: "softvec \<Rightarrow> compact_params \<Rightarrow> bitvec result" where
  "compact_qc_ldpc_decode llr p =
     and_then (compact_make_graph p) (\<lambda>g. compact_decode_minsum llr g (cp_max_iter p))"

definition compact_qc_ldpc_syndrome_ok :: "bitvec \<Rightarrow> compact_params \<Rightarrow> bool result" where
  "compact_qc_ldpc_syndrome_ok codeword p =
     and_then (compact_make_graph p) (\<lambda>g.
     and_then (require (length codeword = compact_N g) ''codeword length'') (\<lambda>_.
     let H = compact_build_H g in
     Inr (list_all (\<lambda>r. row_syndrome (compact_N g) (H ! r) codeword = 0) [0..<compact_M g])))"

section \<open>The graph as one of the main library\<close>

definition nr_edge :: "compact_edge \<Rightarrow> bg_edge" where
  "nr_edge e = (case e of (r, c, s) \<Rightarrow> \<lparr>row = r, col = c, shift = replicate 8 (int s)\<rparr>)"

definition nr_of :: "compact_graph \<Rightarrow> graph" where
  "nr_of g = \<lparr>g_mb = cg_mb g, g_nb = cg_nb g, g_kb = cg_kb g, g_zc = cg_zc g, g_i_ls = 0, g_filler = 0,
     g_edges = map nr_edge (cg_edges g), g_provenance = cg_provenance g\<rparr>"

lemma nr_of_sizes [simp]:
  "N_of (nr_of g) = compact_N g" "K_of (nr_of g) = compact_K g" "M_of (nr_of g) = compact_M g" "g_zc (nr_of g) = cg_zc g"
  "g_mb (nr_of g) = cg_mb g" "g_kb (nr_of g) = cg_kb g"
  by (simp_all add: N_of_def K_of_def M_of_def compact_N_def compact_K_def compact_M_def nr_of_def)

lemma nr_lifted_var: "lifted_var c (mod_shift (int s) zc) z zc = compact_lifted_var c s z zc"
  by (simp add: lifted_var_def compact_lifted_var_def mod_shift_def Let_def mod_add_right_eq flip: of_nat_mod)

lemma nr_expand: "compact_expand_edges g = expand_edges (nr_of g)"
  by (simp add: compact_expand_edges_def expand_edges_def expand_edge_def nr_of_def nr_edge_def nr_lifted_var o_def
      case_prod_unfold)

lemma nr_build_H: "compact_build_H g = build_H (nr_of g)"
proof -
  have "add_edge (nr_of g) H (nr_edge (r, c, s)) =
      foldl (\<lambda>H z. toggle H (r * cg_zc g + z) (compact_lifted_var c s z (cg_zc g))) H [0..<cg_zc g]" for H r c s
    by (simp add: add_edge_def nr_of_def nr_edge_def nr_lifted_var)
  moreover have "g_edges (nr_of g) = map nr_edge (cg_edges g)" by (simp add: nr_of_def)
  ultimately show ?thesis unfolding compact_build_H_def build_H_def
    by (simp only: foldl_map nr_of_sizes) (intro foldl_cong; auto)
qed

lemma gauss_jordan_msg: "gauss_jordan m M st cs = Inr x \<longleftrightarrow> gauss_jordan m' M st cs = Inr x"
proof (induction cs arbitrary: st)
  case (Cons c cs)
  have "gj_col m M st c = Inr y \<longleftrightarrow> gj_col m' M st c = Inr y" for y
    by (simp add: gj_col_def Let_def split: prod.split)
  with Cons show ?case by (simp add: and_then_Inr_iff)
qed simp

lemma nr_encode:
  assumes g: "graph_ok (nr_of g)" and N: "compact_K g + compact_M g = compact_N g"
    and info: "length info = compact_K g" "bits_ok info"
  shows "compact_encode_ge info g = Inr cw \<longleftrightarrow> encode_ge info (nr_of g) = Inr cw"
proof -
  let ?K = "compact_K g" and ?M = "compact_M g" and ?H = "build_H (nr_of g)"
  let ?rhs = "map (\<lambda>r. info_parity ?K (?H ! r) info) [0..<?M]"
  let ?gj = "gauss_jordan singular_msg ?M (parity_matrix (nr_of g), ?rhs) [0..<?M]"
  have "bits_ok ?rhs" using info by (auto simp: bits_ok_iff_nth info_parity_eq dot_def intro!: is_bit_xsum)
  then have "length (snd st) = ?M" if "?gj = Inr st" for st
    using gauss_jordan_solution(1) [OF parity_matrix_ok(1) [OF g], of ?rhs singular_msg "fst st" "snd st"] that N by simp
  then have len: "map (\<lambda>i. snd st ! i) [0..<?M] = snd st" if "?gj = Inr st" for st using that by (metis map_nth)
  have "map (\<lambda>i. info ! i) [0..<?K] = info" using info(1) by (metis map_nth)
  moreover have "map (\<lambda>r. map (\<lambda>c. ?H ! r ! (?K + c)) [0..<?M]) [0..<?M] = parity_matrix (nr_of g)"
    by (simp add: parity_matrix_def)
  ultimately have "compact_encode_ge info g = Inr cw \<longleftrightarrow> (\<exists>st. ?gj = Inr st \<and> cw = info @ map (\<lambda>i. snd st ! i) [0..<?M])"
    using info(1) by (auto simp: compact_encode_ge_def Let_def and_then_Inr_iff nr_build_H
      gauss_jordan_msg [of "''parity submatrix singular''" _ _ _ _ singular_msg])
  also have "\<dots> \<longleftrightarrow> encode_ge info (nr_of g) = Inr cw"
    using info(1) N len by (auto simp: encode_ge_def Let_def and_then_Inr_iff)
  finally show ?thesis .
qed

lemma nr_decode: "compact_decode_minsum llr g n = decode_minsum llr (nr_of g) n"
proof -
  have "compact_minsum g edges ch k c2v v2c = minsum_loop (nr_of g) edges ch k c2v v2c" for edges ch k c2v v2c
    by (induction k arbitrary: c2v v2c) (simp_all add: Let_def)
  then show ?thesis by (simp add: compact_decode_minsum_def decode_minsum_def nr_expand Let_def)
qed

section \<open>The graphs of the code\<close>

text \<open>What the two edge tables have in common.\<close>

definition scaffold :: "nat \<Rightarrow> nat \<Rightarrow> compact_edge list \<Rightarrow> bool" where
  "scaffold kb mb es \<longleftrightarrow> list_all (\<lambda>(r, c, s). r < mb \<and> c < kb + mb \<and> s < 384) es \<and>
     list_all (\<lambda>R. filter (\<lambda>(r, c, s). r = R \<and> kb \<le> c) es = [(R, kb + R, 0)]) [0..<mb]"

lemma scaffold_tables: "scaffold 6 4 compact_BG1_EDGES" "scaffold 4 4 compact_BG2_EDGES"
  by code_simp+

definition params_ok :: "compact_params \<Rightarrow> bool" where
  "params_ok p \<longleftrightarrow> cp_zc p \<in> {2, 4, 8} \<and> (cp_info_cols p \<le> 0 \<or> cp_info_cols p = (if cp_bg p = CBG1 then 6 else 4))"

definition the_graph :: "compact_params \<Rightarrow> compact_graph" where
  "the_graph p = (if cp_bg p = CBG1
     then \<lparr>cg_mb = 4, cg_nb = 10, cg_kb = 6, cg_zc = nat (cp_zc p), cg_edges = compact_BG1_EDGES,
       cg_provenance = ''EDUCATIONAL_ONLY CompactQcLdpc BG1-style scaffold''\<rparr>
     else \<lparr>cg_mb = 4, cg_nb = 8, cg_kb = 4, cg_zc = nat (cp_zc p), cg_edges = compact_BG2_EDGES,
       cg_provenance = ''EDUCATIONAL_ONLY CompactQcLdpc BG2-style scaffold''\<rparr>)"

lemma compact_make_graph_iff: "compact_make_graph p = Inr g \<longleftrightarrow> params_ok p \<and> g = the_graph p"
  by (auto simp: compact_make_graph_def params_ok_def the_graph_def Let_def split: if_splits)

lemma the_graph_scaffold:
  "scaffold (cg_kb (the_graph p)) (cg_mb (the_graph p)) (cg_edges (the_graph p))"
  "cg_nb (the_graph p) = cg_kb (the_graph p) + cg_mb (the_graph p)" "0 < cg_kb (the_graph p)" "0 < cg_mb (the_graph p)"
  "cg_zc (the_graph p) = nat (cp_zc p)"
  using scaffold_tables by (simp_all add: the_graph_def)

lemma nr_graph_ok:
  assumes "params_ok p"
  shows "graph_ok (nr_of (the_graph p))"
proof -
  have "list_all (\<lambda>z. List.member lifting_sizes z) [2, 4, 8]" by code_simp
  then have "cp_zc p \<in> set lifting_sizes" "0 < cp_zc p" using assms by (auto simp: params_ok_def)
  then show ?thesis
    using the_graph_scaffold [of p] unfolding graph_ok_def scaffold_def
    by (auto simp: nr_of_def nr_edge_def edge_ok_def list_all_iff)
qed

lemma xlist_partition: "xlist f xs = xlist f (filter P xs) XOR xlist f (filter (\<lambda>x. \<not> P x) xs)"
  by (induction xs) (simp_all add: ac_simps)

text \<open>The parity bit of row \<open>z\<close> of block \<open>R\<close> is the sum of the information bits of that row.\<close>

lemma compact_row:
  assumes "params_ok p" "R < cg_mb (the_graph p)" "z < nat (cp_zc p)"
  shows "dot (compact_N (the_graph p)) (build_H (nr_of (the_graph p)) ! (R * nat (cp_zc p) + z)) f =
    xlist (\<lambda>(r, c, s). f (compact_lifted_var c s z (nat (cp_zc p))))
      (filter (\<lambda>(r, c, s). r = R \<and> c < cg_kb (the_graph p)) (cg_edges (the_graph p))) XOR
    block_val (nr_of (the_graph p)) f R z"
proof -
  let ?g = "the_graph p" and ?f = "\<lambda>(r, c, s). f (compact_lifted_var c s z (nat (cp_zc p)))"
  note sc = the_graph_scaffold [of p]
  have "dot (compact_N ?g) (build_H (nr_of ?g) ! (R * nat (cp_zc p) + z)) f =
      xlist (\<lambda>e. f (edge_var (nr_of ?g) z e)) (filter (\<lambda>e. row e = R) (map nr_edge (cg_edges ?g)))"
    using row_sum [OF nr_graph_ok [OF assms(1)], of R z f] assms(2,3) by (simp add: sc) (simp add: nr_of_def)
  also have "\<dots> = xlist ?f (filter (\<lambda>(r, c, s). r = R) (cg_edges ?g))"
    by (simp add: filter_map xlist_map o_def nr_edge_def case_prod_unfold edge_var_def sc(5))
      (simp add: nr_of_def nr_lifted_var)
  also have "\<dots> = xlist ?f (filter (\<lambda>(r, c, s). r = R \<and> c < cg_kb ?g) (cg_edges ?g)) XOR
      xlist ?f (filter (\<lambda>(r, c, s). r = R \<and> cg_kb ?g \<le> c) (cg_edges ?g))"
    by (subst xlist_partition [where P = "\<lambda>(r, c, s). c < cg_kb ?g"])
      (simp add: case_prod_unfold not_less conj_commute)
  also have "filter (\<lambda>(r, c, s). r = R \<and> cg_kb ?g \<le> c) (cg_edges ?g) = [(R, cg_kb ?g + R, 0)]"
    using sc(1) assms(2) by (simp add: scaffold_def list_all_iff)
  finally show ?thesis using assms(3) by (simp add: block_val_def sc(5) compact_lifted_var_def)
qed

lemma compact_nonsingular:
  assumes "params_ok p"
  shows "nonsingular (compact_M (the_graph p)) (parity_matrix (nr_of (the_graph p)))"
proof -
  let ?g = "the_graph p"
  note sc = the_graph_scaffold [of p]
  have N: "compact_K ?g + compact_M ?g = compact_N ?g"
    by (simp add: compact_K_def compact_M_def compact_N_def sc(2) add_mult_distrib)
  show ?thesis
  proof (rule nonsingularI [OF nr_graph_ok [OF assms], unfolded nr_of_sizes, OF N])
    fix F C z assume F: "\<And>c. c < compact_K ?g \<Longrightarrow> F c = 0"
      and rows: "\<And>r. r < compact_M ?g \<Longrightarrow> dot (compact_N ?g) (build_H (nr_of ?g) ! r) F = 0"
      and C: "C < cg_mb ?g" and z: "z < cg_zc ?g"
    have zc: "z < nat (cp_zc p)" using z by (simp add: sc(5))
    have "C * nat (cp_zc p) + z < compact_M ?g" using grid_index_less [OF C zc] by (simp add: compact_M_def sc(5))
    moreover have "xlist (\<lambda>(r, c, s). F (compact_lifted_var c s z (nat (cp_zc p))))
        (filter (\<lambda>(r, c, s). r = C \<and> c < cg_kb ?g) (cg_edges ?g)) = 0"
      using zc grid_index_less [of _ "cg_kb ?g" _ "nat (cp_zc p)"]
      by (intro xlist_zero) (auto simp: compact_lifted_var_def compact_K_def sc(5) intro!: F)
    ultimately show "block_val (nr_of ?g) F C z = 0" using rows compact_row [OF assms C zc, of F] by simp
  qed
qed

lemma compact_encode_total:
  assumes "params_ok p" "bits_ok info" "length info = compact_K (the_graph p)"
  obtains cw where "compact_qc_ldpc_encode info p = Inr cw" "length cw = compact_N (the_graph p)" "bits_ok cw"
    "take (compact_K (the_graph p)) cw = info" "in_code (nr_of (the_graph p)) (\<lambda>c. cw ! c)"
proof -
  let ?g = "the_graph p"
  have N: "compact_K ?g + compact_M ?g = compact_N ?g"
    by (simp add: compact_K_def compact_M_def compact_N_def the_graph_scaffold(2) add_mult_distrib)
  note g = nr_graph_ok [OF assms(1)]
  obtain cw where cw: "encode_ge info (nr_of ?g) = Inr cw"
    using encode_ge_total [OF g assms(2)] compact_nonsingular [OF assms(1)] assms(3) N by auto
  then have "compact_encode_ge info ?g = Inr cw" using nr_encode [OF g N assms(3,2)] by simp
  then have "compact_qc_ldpc_encode info p = Inr cw"
    using assms compact_make_graph_iff [of p ?g] by (simp add: compact_qc_ldpc_encode_def)
  with encode_ge_Inr [OF g assms(2) cw] show thesis by (intro that [of cw]) simp_all
qed

lemma compact_syndrome:
  assumes "params_ok p" "length cw = compact_N (the_graph p)"
  shows "compact_qc_ldpc_syndrome_ok cw p = Inr (in_code (nr_of (the_graph p)) (\<lambda>c. cw ! c))"
  using assms compact_make_graph_iff [of p "the_graph p"]
  by (auto simp: compact_qc_ldpc_syndrome_ok_def row_syndrome_eq in_code_def list_all_iff nr_build_H)

text \<open>The word the encoder returns: the information bits, then the sum over each row.\<close>

definition row_bits :: "compact_params \<Rightarrow> bitvec \<Rightarrow> nat \<Rightarrow> nat \<Rightarrow> u8" where
  "row_bits p info R z = xlist (\<lambda>(r, c, s). info ! compact_lifted_var c s z (nat (cp_zc p)))
     (filter (\<lambda>(r, c, s). r = R \<and> c < cg_kb (the_graph p)) (cg_edges (the_graph p)))"

lemma parity_of_code:
  assumes "params_ok p" "length cw = compact_N (the_graph p)" "take (compact_K (the_graph p)) cw = info"
    and "in_code (nr_of (the_graph p)) (\<lambda>c. cw ! c)" "R < 4" "z < nat (cp_zc p)"
  shows "cw ! (compact_K (the_graph p) + (R * nat (cp_zc p) + z)) = row_bits p info R z"
proof -
  let ?g = "the_graph p" and ?zc = "nat (cp_zc p)"
  have mb: "cg_mb ?g = 4" by (simp add: the_graph_def)
  have R: "R < cg_mb ?g" using assms(5) mb by simp
  have "R * ?zc + z < compact_M ?g" using grid_index_less [OF R assms(6)] by (simp add: compact_M_def the_graph_scaffold(5))
  then have "dot (compact_N ?g) (build_H (nr_of ?g) ! (R * ?zc + z)) (\<lambda>c. cw ! c) = 0" using assms(4) by (simp add: in_code_def)
  moreover have "xlist (\<lambda>(r, c, s). cw ! compact_lifted_var c s z ?zc)
      (filter (\<lambda>(r, c, s). r = R \<and> c < cg_kb ?g) (cg_edges ?g)) = row_bits p info R z"
    unfolding row_bits_def
  proof (rule xlist_cong, clarsimp)
    fix c s assume "c < cg_kb ?g"
    then have "compact_lifted_var c s z ?zc < compact_K ?g"
      using assms(6) grid_index_less [of c "cg_kb ?g" "(z + s) mod ?zc" ?zc]
      by (simp add: compact_lifted_var_def compact_K_def the_graph_scaffold(5))
    then show "cw ! compact_lifted_var c s z ?zc = info ! compact_lifted_var c s z ?zc" by (simp flip: assms(3))
  qed
  moreover have "block_val (nr_of ?g) (\<lambda>c. cw ! c) R z = cw ! (compact_K ?g + (R * ?zc + z))"
    by (simp add: block_val_def compact_K_def the_graph_scaffold(5) add_mult_distrib add.assoc)
  ultimately have "row_bits p info R z XOR cw ! (compact_K ?g + (R * ?zc + z)) = 0"
    using compact_row [OF assms(1) R assms(6), of "\<lambda>c. cw ! c"] by simp
  then have "row_bits p info R z XOR cw ! (compact_K ?g + (R * ?zc + z)) = row_bits p info R z XOR row_bits p info R z" by simp
  then show ?thesis by (simp only: xor_left_cancel)
qed

lemma compact_words_eq:
  assumes "length cw = compact_N (the_graph p)" "length cw' = compact_N (the_graph p)"
    and "take (compact_K (the_graph p)) cw = take (compact_K (the_graph p)) cw'"
    and "\<And>R z. R < 4 \<Longrightarrow> z < nat (cp_zc p) \<Longrightarrow> cw ! (compact_K (the_graph p) + (R * nat (cp_zc p) + z)) =
      cw' ! (compact_K (the_graph p) + (R * nat (cp_zc p) + z))"
  shows "cw = cw'"
proof (rule nth_equalityI)
  let ?g = "the_graph p" and ?zc = "nat (cp_zc p)"
  fix i assume i: "i < length cw"
  show "cw ! i = cw' ! i"
  proof (cases "i < compact_K ?g")
    case True
    then show ?thesis using assms(3) by (metis nth_take)
  next
    case False
    have "compact_N ?g = compact_K ?g + 4 * ?zc" by (simp add: compact_N_def compact_K_def the_graph_def)
    then have "i - compact_K ?g < 4 * ?zc" "0 < ?zc" using i assms(1) False by (auto intro: Nat.gr0I)
    then have "(i - compact_K ?g) div ?zc < 4" "(i - compact_K ?g) mod ?zc < ?zc" by (simp_all add: less_mult_imp_div_less)
    from assms(4) [OF this] show ?thesis using False by simp
  qed
qed (use assms in simp)

section \<open>Properties\<close>

text \<open>C24: round trip of the compact code: for the lifting sizes 2, 4 and 8 and every bit vector of the right
  length the encoder succeeds, its word passes the syndrome check, and decoding the noise-free soft
  values of any magnitude with any number of iterations gives the information back.\<close>

theorem compact_encode_decode:
  assumes "params_ok p" "bits_ok info" "length info = compact_K (the_graph p)" "0 < m"
  shows "\<exists>cw llr. compact_qc_ldpc_encode info p = Inr cw \<and> compact_qc_ldpc_syndrome_ok cw p = Inr True \<and>
    take (length info) cw = info \<and> bits_to_llr cw m = Inr llr \<and> compact_qc_ldpc_decode llr p = Inr info"
proof -
  let ?g = "the_graph p" and ?G = "nr_of (the_graph p)"
  obtain cw where cw: "compact_qc_ldpc_encode info p = Inr cw" "length cw = compact_N ?g" "bits_ok cw"
    "take (compact_K ?g) cw = info" "in_code ?G (\<lambda>c. cw ! c)"
    using compact_encode_total [OF assms(1-3)] .
  let ?llr = "map (\<lambda>b. if b = 0 then m else - m) cw"
  have len: "length ?llr = N_of ?G" using cw(2) by simp
  have h: "llr_to_bits ?llr = cw" using llr_to_bits_of_bits [OF cw(3) assms(4)] .
  have "compact_decode_minsum ?llr ?g n = Inr info" for n
    using decode_minsum_hit [OF nr_graph_ok [OF assms(1)] len] cw(4,5) by (simp add: nr_decode h)
  then have "compact_qc_ldpc_decode ?llr p = Inr info"
    using assms(1) compact_make_graph_iff [of p ?g] by (simp add: compact_qc_ldpc_decode_def)
  then show ?thesis
    using cw bits_to_llr_eq [OF cw(3)] compact_syndrome [OF assms(1) cw(2)] assms(3) by auto
qed

theorem compact_encode_decode_witness:
  "\<exists>cw llr. compact_qc_ldpc_encode [1, 0, 1, 1, 0, 0, 1, 0] default_compact = Inr cw \<and> bits_to_llr cw 3 = Inr llr \<and>
    compact_qc_ldpc_decode llr default_compact = Inr [1, 0, 1, 1, 0, 0, 1, 0]"
  using compact_encode_decode [of default_compact "[1, 0, 1, 1, 0, 0, 1, 0]" 3]
  by (auto simp: params_ok_def default_compact_def the_graph_def compact_K_def)

text \<open>The parity bits have a closed form: bit \<open>z\<close> of parity block \<open>R\<close> is the sum over the information
  edges of row \<open>R\<close> of the information bit that the edge's shift selects, so the elimination of the code
  computes what a direct xor per row would. The encoder accepts exactly bit vectors of the length of the
  graph, and only for the six graphs of the file.\<close>

theorem compact_parity_bits:
  "compact_qc_ldpc_encode info p = Inr cw \<longleftrightarrow>
    params_ok p \<and> bits_ok info \<and> length info = compact_K (the_graph p) \<and> length cw = compact_N (the_graph p) \<and>
    take (length info) cw = info \<and>
    list_all (\<lambda>R. list_all (\<lambda>z. cw ! (length info + (R * nat (cp_zc p) + z)) = row_bits p info R z) [0..<nat (cp_zc p)]) [0..<4]"
(is "?enc \<longleftrightarrow> params_ok p \<and> bits_ok info \<and> ?len \<and> ?N \<and> ?info \<and> ?rows")
proof -
  have req: "params_ok p" "bits_ok info" ?len if ?enc
    using that by (auto simp: compact_qc_ldpc_encode_def and_then_Inr_iff compact_make_graph_iff compact_encode_ge_def Let_def
      split: if_splits)
  have rows: "?rows \<longleftrightarrow> (\<forall>R z. R < 4 \<longrightarrow> z < nat (cp_zc p) \<longrightarrow> cw ! (length info + (R * nat (cp_zc p) + z)) = row_bits p info R z)"
    by (auto simp: list_all_iff)
  show ?thesis
  proof (cases "params_ok p \<and> bits_ok info \<and> ?len")
    case True
    then obtain w where w: "compact_qc_ldpc_encode info p = Inr w" "length w = compact_N (the_graph p)"
      "take (compact_K (the_graph p)) w = info" "in_code (nr_of (the_graph p)) (\<lambda>c. w ! c)"
      using compact_encode_total [of p info] by metis
    have par: "w ! (compact_K (the_graph p) + (R * nat (cp_zc p) + z)) = row_bits p info R z"
      if "R < 4" "z < nat (cp_zc p)" for R z using parity_of_code [OF _ w(2,3,4) that] True by blast
    have "?enc \<longleftrightarrow> cw = w" using w(1) by auto
    also have "\<dots> \<longleftrightarrow> ?N \<and> ?info \<and> ?rows"
    proof
      assume "cw = w"
      then show "?N \<and> ?info \<and> ?rows" using True w(2,3) par unfolding rows by simp
    next
      assume *: "?N \<and> ?info \<and> ?rows"
      show "cw = w"
      proof (rule compact_words_eq)
        show "take (compact_K (the_graph p)) cw = take (compact_K (the_graph p)) w" using * True w(3) by simp
        fix R z :: nat assume "R < 4" "z < nat (cp_zc p)"
        then show "cw ! (compact_K (the_graph p) + (R * nat (cp_zc p) + z)) = w ! (compact_K (the_graph p) + (R * nat (cp_zc p) + z))"
          using * True par unfolding rows by simp
      qed (use * w(2) in simp_all)
    qed
    finally show ?thesis using True by blast
  qed (use req in blast)
qed

end
