(* ===== verification/GoldenVectors.thy ===== *)
theory GoldenVectors
  imports CompactLdpc Modulation Crc
begin

text \<open>
  The reference vectors under \<open>vectors/\<close>, evaluated on the definitions: what the repository recorded with
  its own programs is what the model computes. \<open>tests/test_vectors.cpp\<close> compares none of the recorded
  words; here they are compared.
\<close>

lemma compact_golden_word:
  "compact_qc_ldpc_encode [1, 0, 1, 0, 0, 1, 0, 0] default_compact = Inr [1, 0, 1, 0, 0, 1, 0, 0, 1, 0, 1, 1, 0, 0, 0, 0]"
  by code_simp

lemma compact_golden_syndrome: "compact_qc_ldpc_syndrome_ok [1, 0, 1, 0, 0, 1, 0, 0, 1, 0, 1, 1, 0, 0, 0, 0] default_compact = Inr True"
proof -
  have ok: "params_ok default_compact" by (simp add: params_ok_def default_compact_def)
  have K: "compact_K (the_graph default_compact) = 8" by (simp add: compact_K_def the_graph_def default_compact_def)
  show ?thesis
    by (rule compact_encode_total [OF ok, of "[1, 0, 1, 0, 0, 1, 0, 0]"])
      (simp_all add: K compact_golden_word compact_syndrome [OF ok])
qed

lemma qpsk_golden:
  "modulate [0, 0, 1, 1] QPSK = Inr [Complex (1 / sqrt 2) (1 / sqrt 2), Complex (- 1 / sqrt 2) (- 1 / sqrt 2)]"
proof -
  have "gray_pam_amp [0, 0, 1, 1] 0 (Suc 0) = 1" "gray_pam_amp [0, 0, 1, 1] (Suc 0) (Suc 0) = 1"
    "gray_pam_amp [0, 0, 1, 1] 2 (Suc 0) = - 1" "gray_pam_amp [0, 0, 1, 1] 3 (Suc 0) = - 1" by code_simp+
  then show ?thesis by (simp add: modulate_def bits_per_symbol_def scale_for_def Let_def upt_rec)
qed

lemma crc_golden:
  "and_then (crc_attach [1, 0, 1, 0, 1, 1, 0, 0, 1, 1, 1, 0, 0, 1, 0, 1] CRC24A) (\<lambda>coded. crc_check coded CRC24A) = Inr True"
proof -
  obtain a where a: "crc_attach [1, 0, 1, 0, 1, 1, 0, 0, 1, 1, 1, 0, 0, 1, 0, 1] CRC24A = Inr a" by (simp add: crc_attach_eq)
  then show ?thesis by (auto elim: crc_attach_Inr)
qed

text \<open>The three recorded vectors: the codeword of the compact scaffold with its syndrome, the QPSK symbols
  within the tolerance of \<open>TOLERANCES.md\<close>, and the checksum that passes.\<close>

theorem golden_vectors:
  "compact_qc_ldpc_encode [1, 0, 1, 0, 0, 1, 0, 0] default_compact = Inr [1, 0, 1, 0, 0, 1, 0, 0, 1, 0, 1, 1, 0, 0, 0, 0] \<and>
   compact_qc_ldpc_syndrome_ok [1, 0, 1, 0, 0, 1, 0, 0, 1, 0, 1, 1, 0, 0, 0, 0] default_compact = Inr True \<and>
   (\<exists>a b. modulate [0, 0, 1, 1] QPSK = Inr [a, b] \<and>
      list_all (\<lambda>d. \<bar>d\<bar> \<le> 1 / 10 ^ 9)
        [Re a - 0.7071067811865476, Im a - 0.7071067811865476, Re b + 0.7071067811865476, Im b + 0.7071067811865476]) \<and>
   and_then (crc_attach [1, 0, 1, 0, 1, 1, 0, 0, 1, 1, 1, 0, 0, 1, 0, 1] CRC24A) (\<lambda>coded. crc_check coded CRC24A) = Inr True"
proof -
  have "1.4142135623 \<le> sqrt 2" "sqrt 2 \<le> 1.4142135624"
    by (rule real_le_rsqrt real_le_lsqrt; simp add: power2_eq_square)+
  moreover have "1 / sqrt 2 = sqrt 2 / 2" by (simp add: real_div_sqrt field_simps)
  ultimately have "\<bar>1 / sqrt 2 - 0.7071067811865476\<bar> \<le> 1 / 10 ^ 9" by (simp only: abs_le_iff) simp
  then show ?thesis using compact_golden_word compact_golden_syndrome crc_golden by (simp add: qpsk_golden abs_minus_commute)
qed

end
