(* ===== verification/CodeFamily.thy ===== *)
theory CodeFamily
  imports Link ShortCycles GoldenVectors
begin

text \<open>
  What a user of an LDPC code relies on, as an interface that the standard code and the compact code share:
  the encoder succeeds and returns a codeword of the graph, and the decoder is min-sum on that graph. The
  clients are proved once: noise-free words, erasures, single erasures and outvoted errors.
\<close>

section \<open>The interface\<close>

lemma distinct_single: "distinct xs \<Longrightarrow> v \<in> set xs \<Longrightarrow> filter (\<lambda>w. w = v) xs = [v]"
  by (induction xs) (auto simp: filter_empty_conv)

locale code_family =
  fixes admits :: "'p \<Rightarrow> bitvec \<Rightarrow> bool"
    and graph :: "'p \<Rightarrow> graph"
    and iterations :: "'p \<Rightarrow> int"
    and encode :: "bitvec \<Rightarrow> 'p \<Rightarrow> bitvec result"
    and decode :: "softvec \<Rightarrow> 'p \<Rightarrow> bitvec result"
  assumes shape: "admits p info \<Longrightarrow> graph_ok (graph p) \<and> checks_paired (graph p)"
    and encodes: "admits p info \<Longrightarrow> \<exists>cw. encode info p = Inr cw \<and> codeword (graph p) cw \<and> length info \<le> K_of (graph p) \<and>
      take (K_of (graph p)) cw = info @ replicate (K_of (graph p) - length info) 0"
    and decodes: "admits p info \<Longrightarrow> decode llr p = decode_minsum llr (graph p) (iterations p)"
begin

lemma noise_free:
  assumes "admits p info" "0 < m"
  shows "\<exists>cw llr. encode info p = Inr cw \<and> bits_to_llr cw m = Inr llr \<and>
    decode llr p = Inr (info @ replicate (K_of (graph p) - length info) 0)"
proof -
  obtain cw where cw: "encode info p = Inr cw" "codeword (graph p) cw"
    "take (K_of (graph p)) cw = info @ replicate (K_of (graph p) - length info) 0" using encodes [OF assms(1)] by blast
  then have c: "bits_ok cw" "length cw = N_of (graph p)" "in_code (graph p) (\<lambda>i. cw ! i)" by (simp_all add: codeword_def)
  let ?llr = "map (\<lambda>b. if b = 0 then m else - m) cw"
  have "llr_to_bits ?llr = cw" by (rule llr_to_bits_of_bits [OF c(1) assms(2)])
  then have "decode_minsum ?llr (graph p) (iterations p) = Inr (take (K_of (graph p)) cw)"
    using decode_minsum_hit [of "graph p" ?llr] shape [OF assms(1)] c(2,3) by simp
  then show ?thesis using cw(1,3) bits_to_llr_eq [OF c(1)] decodes [OF assms(1)] by auto
qed

lemma erasures_restored:
  assumes "admits p info" "encode info p = Inr cw" "list_all2 (\<lambda>b l. l = 0 \<or> (0 < l \<longleftrightarrow> b = 0)) cw llr"
    and "\<And>v. v < N_of (graph p) \<Longrightarrow> peel (graph p) (\<lambda>v. llr ! v \<noteq> 0) n v" "n \<le> nat (iterations p)"
  shows "decode llr p = Inr (info @ replicate (K_of (graph p) - length info) 0)"
proof -
  have cw: "codeword (graph p) cw" "take (K_of (graph p)) cw = info @ replicate (K_of (graph p) - length info) 0"
    using encodes [OF assms(1)] assms(2) by auto
  then have "agrees (graph p) cw llr"
    using shape [OF assms(1)] assms(3) by (simp add: agrees_def codeword_def list_all2_conv_all_nth)
  then show ?thesis using decode_minsum_peeled [OF _ assms(4,5)] cw(2) decodes [OF assms(1)] by simp
qed

lemma outvoted_corrected:
  assumes "admits p info" "encode info p = Inr cw" "noisy (graph p) cw doubt m e llr" "outvoted (graph p) doubt m e" "1 \<le> iterations p"
  shows "decode llr p = Inr (info @ replicate (K_of (graph p) - length info) 0)"
proof -
  have cw: "codeword (graph p) cw" "take (K_of (graph p)) cw = info @ replicate (K_of (graph p) - length info) 0"
    using encodes [OF assms(1)] assms(2) by auto
  show ?thesis
    using decode_minsum_outvoted [OF _ _ cw(1) assms(3-5)] shape [OF assms(1)] cw(2) decodes [OF assms(1)] by simp
qed

end

text \<open>A family whose checks meet no variable twice and whose variables all have a check.\<close>

locale simple_code_family = code_family +
  assumes simple: "admits p info \<Longrightarrow> c < M_of (graph p) \<Longrightarrow> distinct (check_vars (expand_edges (graph p)) c)"
    and covered: "admits p info \<Longrightarrow> v < N_of (graph p) \<Longrightarrow> var_edges (expand_edges (graph p)) v \<noteq> []"
begin

lemma one_unknown_peels:
  assumes "admits p info" "v < N_of (graph p)" "\<And>u. u < N_of (graph p) \<Longrightarrow> u \<noteq> v \<Longrightarrow> known u" "u < N_of (graph p)"
  shows "peel (graph p) known 1 u"
proof (cases "known u")
  case False
  then have u: "u = v" using assms(3,4) by blast
  note g = shape [OF assms(1), THEN conjunct1]
  let ?E = "expand_edges (graph p)"
  obtain i where "i \<in> set (var_edges ?E v)" using covered [OF assms(1,2)] by (cases "var_edges ?E v") auto
  then have i: "i < length ?E" "s_var (?E ! i) = v" by (simp_all add: var_edges_iff)
  define c where "c = s_check (?E ! i)"
  have c: "c < M_of (graph p)" unfolding c_def by (rule edge_bounds(2) [OF g i(1)])
  have "v \<in> set (check_vars ?E c)" using i by (auto simp: check_vars_def c_def chk_edges_iff)
  moreover have "known w \<longleftrightarrow> w \<noteq> v" if "w \<in> set (check_vars ?E c)" for w
    using that False u assms(3) [of w] edge_bounds(1) [OF g] by (auto simp: check_vars_def chk_edges_iff)
  then have "filter (\<lambda>w. \<not> known w) (check_vars ?E c) = filter (\<lambda>w. w = v) (check_vars ?E c)" by (intro filter_cong) auto
  ultimately have "filter (\<lambda>w. \<not> known w) (check_vars ?E c) = [v]"
    using simple [OF assms(1) c] by (simp add: distinct_single)
  then show ?thesis using c u by (auto simp: list_ex_iff)
qed (use peel_mono [of 0 1] in simp)

lemma single_erasure_restored:
  assumes "admits p info" "encode info p = Inr cw" "list_all2 (\<lambda>b l. l = 0 \<or> (0 < l \<longleftrightarrow> b = 0)) cw llr"
    and "v < N_of (graph p)" "\<And>u. u < N_of (graph p) \<Longrightarrow> u \<noteq> v \<Longrightarrow> llr ! u \<noteq> 0" "1 \<le> iterations p"
  shows "decode llr p = Inr (info @ replicate (K_of (graph p) - length info) 0)"
proof (rule erasures_restored [OF assms(1-3)])
  show "peel (graph p) (\<lambda>v. llr ! v \<noteq> 0) 1 u" if "u < N_of (graph p)" for u
    by (rule one_unknown_peels [OF assms(1,4) _ that]) (rule assms(5))
qed (use assms(6) in simp)

end

section \<open>The standard code\<close>

definition std_graph :: "ldpc_params \<Rightarrow> graph" where
  "std_graph p = (case make_graph p of Inr g \<Rightarrow> g | Inl _ \<Rightarrow> undefined)"

definition std_admits :: "ldpc_params \<Rightarrow> bitvec \<Rightarrow> bool" where
  "std_admits p info \<longleftrightarrow> bits_ok info \<and> standard_params p \<and> p_zc p \<in> set lifting_sizes \<and> p_i_ls p \<le> 7 \<and>
     int (length info) \<le> int (default_kb (p_bg p)) * p_zc p \<and> p_info_bits p \<le> int (default_kb (p_bg p)) * p_zc p"

lemma std_encodes:
  assumes "std_admits p info"
  obtains cw where "make_graph p = Inr (std_graph p)" "ldpc_encode info p = Inr cw" "codeword (std_graph p) cw"
    "length info \<le> K_of (std_graph p)" "take (K_of (std_graph p)) cw = info @ replicate (K_of (std_graph p) - length info) 0"
proof -
  obtain g cw where "make_graph p = Inr g" "ldpc_encode info p = Inr cw" "length cw = N_of g" "bits_ok cw"
    "take (K_of g) cw = info @ replicate (K_of g - length info) 0" "in_code g (\<lambda>c. cw ! c)" "length info \<le> K_of g"
    using assms by (auto simp: std_admits_def elim!: encode_given [of info p])
  then show thesis by (intro that [of cw]) (simp_all add: std_graph_def codeword_def)
qed

lemma std_degree:
  assumes mk: "make_graph p = Inr g" and st: "standard_params p" and v: "v < N_of g"
  shows "var_edges (expand_edges g) v \<noteq> []"
proof (cases "v < K_of g + 4 * g_zc g")
  case True
  then show ?thesis using standard_degree [OF mk st] by fastforce
next
  case False
  note g = standard_graph [OF mk st] and ed = standard_edges [OF mk st]
  define R where "R = v div g_zc g - g_kb g"
  have zc: "0 < g_zc g" using g(1) by (simp add: graph_ok_def)
  have "(g_kb g + 4) * g_zc g \<le> v" using False by (simp add: K_of_def algebra_simps)
  then have "g_kb g + 4 \<le> v div g_zc g" using zc by (simp add: less_eq_div_iff_mult_less_eq)
  moreover have "v div g_zc g < g_nb g" using v by (simp add: N_of_def less_mult_imp_div_less)
  ultimately have R: "4 \<le> R" "R < g_mb g" "v div g_zc g = g_kb g + R" using ed(4) by (simp_all add: R_def)
  then obtain e where "filter (\<lambda>e. row e = R \<and> g_kb g + 4 \<le> col e) (g_edges g) = [e]" "col e = g_kb g + R"
    using g(4) by (auto simp: extension_rows_def)
  then have "e \<in> set (filter (\<lambda>e. row e = R \<and> g_kb g + 4 \<le> col e) (g_edges g))" "col e = v div g_zc g" using R by simp_all
  then have "filter (\<lambda>e. col e = v div g_zc g) (g_edges g) \<noteq> []" by (auto simp: filter_empty_conv)
  then have "0 < length (filter (\<lambda>e. col e = v div g_zc g) (g_edges g))" by (rule length_greater_0_conv [THEN iffD2])
  then show ?thesis using var_edges_degree [OF g(1), of v] by auto
qed

interpretation std: simple_code_family std_admits std_graph p_max_iter ldpc_encode ldpc_decode
proof
  fix p info c v llr assume a: "std_admits p info"
  have mk: "make_graph p = Inr (std_graph p)" using a by (rule std_encodes)
  have st: "standard_params p" and zc: "0 < p_zc p" using a valid_lifting_bounds by (auto simp: std_admits_def)
  show "graph_ok (std_graph p) \<and> checks_paired (std_graph p)" using standard_graph(1) [OF mk st] standard_paired [OF mk st] by simp
  show "\<exists>cw. ldpc_encode info p = Inr cw \<and> codeword (std_graph p) cw \<and> length info \<le> K_of (std_graph p) \<and>
      take (K_of (std_graph p)) cw = info @ replicate (K_of (std_graph p) - length info) 0"
    using a by (rule std_encodes) blast
  show "ldpc_decode llr p = decode_minsum llr (std_graph p) (p_max_iter p)" using zc by (simp add: ldpc_decode_def mk)
  show "distinct (check_vars (expand_edges (std_graph p)) c)" if "c < M_of (std_graph p)" by (rule standard_check_distinct [OF mk st that])
  show "var_edges (expand_edges (std_graph p)) v \<noteq> []" if "v < N_of (std_graph p)" by (rule std_degree [OF mk st that])
qed

section \<open>The compact code\<close>

definition compact_admits :: "compact_params \<Rightarrow> bitvec \<Rightarrow> bool" where
  "compact_admits p info \<longleftrightarrow> params_ok p \<and> bits_ok info \<and> length info = compact_K (the_graph p)"

text \<open>Every row of the two scaffolds has at least two edges, in different columns, and every column has one.\<close>

lemma compact_rows:
  "list_all (\<lambda>es. list_all (\<lambda>R. distinct (map (\<lambda>(r, c, s). c) (filter (\<lambda>(r, c, s). r = R) es)) \<and>
     2 \<le> length (filter (\<lambda>(r, c, s). r = R) es)) [0..<4]) [compact_BG1_EDGES, compact_BG2_EDGES]"
  "list_all (\<lambda>C. filter (\<lambda>(r, c, s). c = C) compact_BG1_EDGES \<noteq> []) [0..<10]"
  "list_all (\<lambda>C. filter (\<lambda>(r, c, s). c = C) compact_BG2_EDGES \<noteq> []) [0..<8]"
  by code_simp+

lemma compact_shape:
  assumes "R < 4" "C < cg_nb (the_graph p)"
  shows "distinct (map col (filter (\<lambda>e. row e = R) (g_edges (nr_of (the_graph p)))))"
    "2 \<le> length (filter (\<lambda>e. row e = R) (g_edges (nr_of (the_graph p))))"
    "filter (\<lambda>e. col e = C) (g_edges (nr_of (the_graph p))) \<noteq> []"
proof -
  let ?es = "cg_edges (the_graph p)"
  have "distinct (map (\<lambda>(r, c, s). c) (filter (\<lambda>(r, c, s). r = R) ?es)) \<and> 2 \<le> length (filter (\<lambda>(r, c, s). r = R) ?es)"
    "filter (\<lambda>(r, c, s). c = C) ?es \<noteq> []"
    using compact_rows assms by (auto simp: the_graph_def list_all_iff split: if_splits)
  moreover have "filter (\<lambda>e. row e = R) (map nr_edge ?es) = map nr_edge (filter (\<lambda>(r, c, s). r = R) ?es)"
    "filter (\<lambda>e. col e = C) (map nr_edge ?es) = map nr_edge (filter (\<lambda>(r, c, s). c = C) ?es)"
    by (simp_all add: filter_map comp_def nr_edge_def case_prod_unfold)
  moreover have "map col (map nr_edge xs) = map (\<lambda>(r, c, s). c) xs" for xs by (simp add: comp_def nr_edge_def case_prod_unfold)
  ultimately show "distinct (map col (filter (\<lambda>e. row e = R) (g_edges (nr_of (the_graph p)))))"
    "2 \<le> length (filter (\<lambda>e. row e = R) (g_edges (nr_of (the_graph p))))"
    "filter (\<lambda>e. col e = C) (g_edges (nr_of (the_graph p))) \<noteq> []"
    by (simp_all add: nr_of_def del: map_map)
qed

interpretation compact: simple_code_family compact_admits "\<lambda>p. nr_of (the_graph p)" cp_max_iter compact_qc_ldpc_encode compact_qc_ldpc_decode
proof
  fix p info c v llr assume a: "compact_admits p info"
  let ?g = "nr_of (the_graph p)"
  have p: "params_ok p" using a by (simp add: compact_admits_def)
  note g = nr_graph_ok [OF p]
  have nb: "0 < cg_nb (the_graph p)" and mb: "cg_mb (the_graph p) = 4" by (simp_all add: the_graph_def)
  have row: "c div g_zc ?g < 4" if "c < M_of ?g" for c using check_row_less [OF that] mb by simp
  show "distinct (check_vars (expand_edges ?g) c)" if "c < M_of ?g"
    by (rule distinct_check_vars [OF g]) (rule compact_shape(1) [OF row [OF that] nb])
  have "length (chk_edges (expand_edges ?g) c) \<noteq> 1" if "c < M_of ?g" for c
    using compact_shape(2) [OF row [OF that] nb] check_vars_at [OF g, of c] by (metis check_vars_def length_map Suc_1 not_less_eq_eq One_nat_def order_refl)
  then show "graph_ok ?g \<and> checks_paired ?g" using g by (simp add: checks_paired_def list_all_iff)
  show "\<exists>cw. compact_qc_ldpc_encode info p = Inr cw \<and> codeword ?g cw \<and> length info \<le> K_of ?g \<and>
      take (K_of ?g) cw = info @ replicate (K_of ?g - length info) 0"
  proof -
    obtain cw where "compact_qc_ldpc_encode info p = Inr cw" "length cw = compact_N (the_graph p)" "bits_ok cw"
      "take (compact_K (the_graph p)) cw = info" "in_code ?g (\<lambda>c. cw ! c)"
      using a by (auto simp: compact_admits_def elim!: compact_encode_total)
    then show ?thesis using a by (intro exI [of _ cw]) (simp add: codeword_def compact_admits_def)
  qed
  show "compact_qc_ldpc_decode llr p = decode_minsum llr ?g (cp_max_iter p)"
    using compact_make_graph_iff [of p "the_graph p"] p by (simp add: compact_qc_ldpc_decode_def nr_decode)
  show "var_edges (expand_edges ?g) v \<noteq> []" if v: "v < N_of ?g"
  proof -
    have "v div g_zc ?g < cg_nb (the_graph p)" using v by (simp add: compact_N_def less_mult_imp_div_less)
    then have "0 < length (filter (\<lambda>e. col e = v div g_zc ?g) (g_edges ?g))" using compact_shape(3) [of 0] by simp
    then show ?thesis using var_edges_degree [OF g, of v] by auto
  qed
qed

section \<open>Properties\<close>

text \<open>C35: single erasures: in both codes the decoder restores the information when any one soft value of
  an encoded word is missing and the others have the right sign, whatever their magnitudes, for every
  admitted parameter set (51 lifting sizes, two base graphs and all admissible row counts for the standard code, six graphs for
  the compact one).\<close>

theorem single_erasures_restored:
  assumes "list_all2 (\<lambda>b l. l = 0 \<or> (0 < l \<longleftrightarrow> b = 0)) cw llr" "list_all (\<lambda>u. u = v \<or> llr ! u \<noteq> 0) [0..<length cw]" "v < length cw"
  shows "(std_admits p info \<and> ldpc_encode info p = Inr cw \<and> 1 \<le> p_max_iter p \<longrightarrow>
      ldpc_decode llr p = Inr (info @ replicate (K_of (std_graph p) - length info) 0)) \<and>
    (compact_admits q info \<and> compact_qc_ldpc_encode info q = Inr cw \<and> 1 \<le> cp_max_iter q \<longrightarrow>
      compact_qc_ldpc_decode llr q = Inr info)"
proof (intro conjI impI; elim conjE)
  assume a: "std_admits p info" "ldpc_encode info p = Inr cw" "1 \<le> p_max_iter p"
  have "length cw = N_of (std_graph p)" using std.encodes [OF a(1)] a(2) by (auto simp: codeword_def)
  then show "ldpc_decode llr p = Inr (info @ replicate (K_of (std_graph p) - length info) 0)"
    using assms(2,3) by (intro std.single_erasure_restored [OF a(1,2) assms(1) _ _ a(3)]) (auto simp: list_all_iff)
next
  assume a: "compact_admits q info" "compact_qc_ldpc_encode info q = Inr cw" "1 \<le> cp_max_iter q"
  have "length cw = N_of (nr_of (the_graph q))" using compact.encodes [OF a(1)] a(2) by (auto simp: codeword_def)
  then have "compact_qc_ldpc_decode llr q = Inr (info @ replicate (K_of (nr_of (the_graph q)) - length info) 0)"
    using assms(2,3) by (intro compact.single_erasure_restored [OF a(1,2) assms(1) _ _ a(3)]) (auto simp: list_all_iff)
  then show "compact_qc_ldpc_decode llr q = Inr info" using a(1) by (simp add: compact_admits_def)
qed

theorem single_erasures_restored_witness:
  "compact_qc_ldpc_decode [0, 1, - 1, 2, 3, - 1, 4, 1, - 2, 5, - 1, - 3, 1, 1, 2, 7] default_compact = Inr [1, 0, 1, 0, 0, 1, 0, 0]"
proof -
  let ?cw = "[1, 0, 1, 0, 0, 1, 0, 0, 1, 0, 1, 1, 0, 0, 0, 0] :: bitvec"
  have "compact_admits default_compact [1, 0, 1, 0, 0, 1, 0, 0]" "cp_max_iter default_compact = 25"
    by (simp_all add: compact_admits_def params_ok_def compact_K_def the_graph_def default_compact_def)
  then show ?thesis
    using single_erasures_restored [of ?cw "[0, 1, - 1, 2, 3, - 1, 4, 1, - 2, 5, - 1, - 3, 1, 1, 2, 7]" 0 default_params
        "[1, 0, 1, 0, 0, 1, 0, 0]" default_compact] compact_golden_word
    by (simp add: upt_rec)
qed

end
