(* ===== verification/Metrics.thy ===== *)
theory Metrics
  imports Prelude
begin

text \<open>
  \<open>include/nr_bb/metrics.hpp\<close> and \<open>src/metrics.cpp\<close>: the error counters and the two rates.
\<close>

section \<open>The code\<close>

record link_metrics =
  bit_errors :: nat
  bit_total :: nat
  block_errors :: nat
  block_total :: nat

definition empty_metrics :: link_metrics where
  "empty_metrics = \<lparr>bit_errors = 0, bit_total = 0, block_errors = 0, block_total = 0\<rparr>"

definition ber :: "link_metrics \<Rightarrow> real" where
  "ber m = (if bit_total m \<noteq> 0 then real (bit_errors m) / real (bit_total m) else 0)"

definition bler :: "link_metrics \<Rightarrow> real" where
  "bler m = (if block_total m \<noteq> 0 then real (block_errors m) / real (block_total m) else 0)"

definition accumulate_ber :: "link_metrics \<Rightarrow> bitvec \<Rightarrow> bitvec \<Rightarrow> link_metrics result" where
  "accumulate_ber m ref hat =
     and_then (require (length ref = length hat) ''BER length mismatch'') (\<lambda>_.
       Inr (foldl (\<lambda>m i. if ref ! i \<noteq> hat ! i then m\<lparr>bit_errors := bit_errors m + 1\<rparr> else m)
             (m\<lparr>bit_total := bit_total m + length ref\<rparr>) [0..<length ref]))"

definition accumulate_bler :: "link_metrics \<Rightarrow> bool \<Rightarrow> link_metrics" where
  "accumulate_bler m crc_ok =
     (let m' = m\<lparr>block_total := block_total m + 1\<rparr>
      in if \<not> crc_ok then m'\<lparr>block_errors := block_errors m' + 1\<rparr> else m')"

section \<open>Lemmas\<close>

definition hamming :: "bitvec \<Rightarrow> bitvec \<Rightarrow> nat" where
  "hamming xs ys = card {i. i < length xs \<and> xs ! i \<noteq> ys ! i}"

lemma hamming_le: "hamming xs ys \<le> length xs"
proof -
  have "hamming xs ys \<le> card {..<length xs}" unfolding hamming_def by (rule card_mono) auto
  then show ?thesis by simp
qed

lemma hamming_0_iff: "length xs = length ys \<Longrightarrow> hamming xs ys = 0 \<longleftrightarrow> xs = ys"
  by (auto simp: hamming_def list_eq_iff_nth_eq)

lemma count_fold:
  "foldl (\<lambda>m i. if P i then m\<lparr>bit_errors := bit_errors m + 1\<rparr> else m) m is =
   m\<lparr>bit_errors := bit_errors m + length (filter P is)\<rparr>"
  by (induction "is" arbitrary: m) auto

lemma accumulate_ber_eq:
  "length ref = length hat \<Longrightarrow> accumulate_ber m ref hat =
     Inr (m\<lparr>bit_errors := bit_errors m + hamming ref hat, bit_total := bit_total m + length ref\<rparr>)"
  by (simp add: accumulate_ber_def count_fold hamming_def length_filter_conv_card conj_commute cong: conj_cong)

fun run_metrics :: "link_metrics \<Rightarrow> (bitvec \<times> bitvec \<times> bool) list \<Rightarrow> link_metrics result" where
  "run_metrics m [] = Inr m"
| "run_metrics m ((ref, hat, crc_ok) # bs) =
     and_then (accumulate_ber m ref hat) (\<lambda>m'. run_metrics (accumulate_bler m' crc_ok) bs)"

lemma run_metrics_eq:
  "list_all (\<lambda>(ref, hat, crc_ok). length ref = length hat) bs \<Longrightarrow>
   run_metrics m bs = Inr \<lparr>bit_errors = bit_errors m + (\<Sum>(ref, hat, crc_ok)\<leftarrow>bs. hamming ref hat),
     bit_total = bit_total m + (\<Sum>(ref, hat, crc_ok)\<leftarrow>bs. length ref),
     block_errors = block_errors m + length (filter (\<lambda>(ref, hat, crc_ok). \<not> crc_ok) bs),
     block_total = block_total m + length bs\<rparr>"
  by (induction bs arbitrary: m) (auto simp: accumulate_ber_eq accumulate_bler_def Let_def)

section \<open>Properties\<close>

text \<open>Over a campaign the counters are the sums of the Hamming distances, bits, failed blocks and
  blocks; both rates stay between 0 and 1, and the bit error rate is 0 exactly when every block was
  received as sent.\<close>

theorem metrics_campaign:
  assumes "list_all (\<lambda>(ref, hat, crc_ok). length ref = length hat) bs"
  shows "\<exists>m. run_metrics empty_metrics bs = Inr m \<and>
    bit_errors m = (\<Sum>(ref, hat, crc_ok)\<leftarrow>bs. hamming ref hat) \<and>
    block_errors m = length (filter (\<lambda>(ref, hat, crc_ok). \<not> crc_ok) bs) \<and>
    0 \<le> ber m \<and> ber m \<le> 1 \<and> 0 \<le> bler m \<and> bler m \<le> 1 \<and>
    (ber m = 0 \<longleftrightarrow> list_all (\<lambda>(ref, hat, crc_ok). ref = hat) bs)"
proof -
  let ?e = "\<Sum>(ref, hat, crc_ok)\<leftarrow>bs. hamming ref hat" and ?n = "\<Sum>(ref, hat, crc_ok)\<leftarrow>bs. length ref"
  have le: "?e \<le> ?n" using hamming_le by (intro sum_list_mono) auto
  have zero: "?e = 0 \<longleftrightarrow> list_all (\<lambda>(ref, hat, crc_ok). ref = hat) bs"
    using assms by (induction bs) (auto simp: hamming_0_iff)
  define e n where "e = ?e" and "n = ?n"
  have bl: "length (filter (\<lambda>(ref, hat, crc_ok). \<not> crc_ok) bs) \<le> length bs" by (rule length_filter_le)
  have run: "run_metrics empty_metrics bs = Inr \<lparr>bit_errors = e, bit_total = n,
      block_errors = length (filter (\<lambda>(ref, hat, crc_ok). \<not> crc_ok) bs), block_total = length bs\<rparr>"
    by (simp add: run_metrics_eq [OF assms] empty_metrics_def e_def n_def)
  show ?thesis unfolding run e_def [symmetric] zero [folded e_def, symmetric]
    using le [folded e_def n_def] bl by (simp add: ber_def bler_def divide_le_eq_1)
qed

theorem metrics_campaign_witness:
  "\<exists>m. run_metrics empty_metrics [([0, 1], [1, 1], False), ([1], [1], True)] = Inr m \<and> block_errors m = 1"
  using metrics_campaign [of "[([0, 1], [1, 1], False), ([1], [1], True)]"] by auto

end
