(* ===== verification/Fapi.thy ===== *)
theory Fapi
  imports Prelude
begin

text \<open>
  The FAPI-like session of \<open>include/nr_bb/fapi.hpp\<close> and \<open>src/fapi.cpp\<close>: messages, the session
  state and \<open>FapiSession::handle\<close> with every guard of the switch. \<open>fapi_trans\<close> is the abstract
  protocol (states and message types only) that \<open>handle\<close> refines; \<open>fapi_reach\<close> are the sessions
  reachable by any sequence of messages.
\<close>

section \<open>The code\<close>

definition FAPI_MSG_VERSION :: u16 where "FAPI_MSG_VERSION = 1"

datatype fapi_state = Idle | Configured | Running | Err_State

datatype fapi_msg_type = CONFIG_REQ | CONFIG_RESP | START_REQ | STOP_REQ | SLOT_IND | UL_TTI_REQ | DL_TTI_REQ
  | TX_DATA_REQ | RX_DATA_IND | CRC_IND | ERROR_IND

record fapi_message =
  fm_version :: u16
  fm_type :: fapi_msg_type
  fm_sfn :: u32
  fm_slot :: u32
  fm_handle :: u32
  fm_payload :: bitvec
  fm_json_meta :: string
  fm_crc_ok :: bool
  fm_error :: string

definition default_message :: fapi_message where
  "default_message = \<lparr>fm_version = FAPI_MSG_VERSION, fm_type = CONFIG_REQ, fm_sfn = 0, fm_slot = 0, fm_handle = 0,
     fm_payload = [], fm_json_meta = [], fm_crc_ok = False, fm_error = []\<rparr>"

record fapi_session =
  fs_state :: fapi_state
  fs_slot_count :: u32
  fs_sfn :: u32
  fs_slot :: u32

definition initial_session :: fapi_session where
  "initial_session = \<lparr>fs_state = Idle, fs_slot_count = 0, fs_sfn = 0, fs_slot = 0\<rparr>"

definition reset :: "fapi_session \<Rightarrow> fapi_session" where
  "reset s = s\<lparr>fs_state := Idle, fs_slot_count := 0, fs_sfn := 0, fs_slot := 0\<rparr>"

definition err :: "fapi_session \<Rightarrow> fapi_message \<Rightarrow> string \<Rightarrow> fapi_session \<times> fapi_message" where
  "err s out e =
     (s\<lparr>fs_state := Err_State\<rparr>, out\<lparr>fm_type := ERROR_IND, fm_error := e, fm_version := FAPI_MSG_VERSION\<rparr>)"

definition handle_config :: "fapi_session \<Rightarrow> fapi_message \<Rightarrow> fapi_session \<times> fapi_message" where
  "handle_config s m =
     (if fs_state s \<noteq> Idle \<and> fs_state s \<noteq> Configured \<and> fs_state s \<noteq> Err_State
      then err s m ''CONFIG_REQ invalid in current state''
      else (s\<lparr>fs_state := Configured\<rparr>,
            m\<lparr>fm_type := CONFIG_RESP, fm_version := FAPI_MSG_VERSION,
              fm_json_meta := ''{'' @ [CHR 0x22] @ ''status'' @ [CHR 0x22] @ '':'' @ [CHR 0x22] @ ''ok'' @ [CHR 0x22] @ '','' @
                [CHR 0x22] @ ''version'' @ [CHR 0x22] @ '':1}''\<rparr>))"

definition handle_start :: "fapi_session \<Rightarrow> fapi_message \<Rightarrow> fapi_session \<times> fapi_message" where
  "handle_start s m =
     (if fs_state s \<noteq> Configured then err s m ''START_REQ requires Configured''
      else (s\<lparr>fs_state := Running\<rparr>,
            m\<lparr>fm_type := SLOT_IND, fm_version := FAPI_MSG_VERSION, fm_sfn := fs_sfn s, fm_slot := fs_slot s\<rparr>))"

definition handle_stop :: "fapi_session \<Rightarrow> fapi_message \<Rightarrow> fapi_session \<times> fapi_message" where
  "handle_stop s m =
     (if fs_state s \<noteq> Running \<and> fs_state s \<noteq> Err_State then err s m ''STOP_REQ invalid state''
      else (s\<lparr>fs_state := Configured\<rparr>, m\<lparr>fm_type := CONFIG_RESP, fm_version := FAPI_MSG_VERSION\<rparr>))"

definition next_slot :: "fapi_session \<Rightarrow> fapi_session" where
  "next_slot s =
     (let slot = (fs_slot s + 1) mod 20 in
      s\<lparr>fs_slot_count := fs_slot_count s + 1, fs_slot := slot,
        fs_sfn := if slot = 0 then (fs_sfn s + 1) mod 1024 else fs_sfn s\<rparr>)"

definition handle_data :: "fapi_session \<Rightarrow> fapi_message \<Rightarrow> fapi_session \<times> fapi_message" where
  "handle_data s m =
     (if fs_state s \<noteq> Running then err s m ''data/tti requires Running''
      else let s' = next_slot s;
               out = m\<lparr>fm_type := if fm_type m = TX_DATA_REQ then CRC_IND else SLOT_IND,
                       fm_version := FAPI_MSG_VERSION, fm_sfn := fs_sfn s', fm_slot := fs_slot s', fm_crc_ok := True\<rparr>
           in (s', if fm_type out = CRC_IND then out\<lparr>fm_payload := fm_payload m\<rparr> else out))"

definition handle :: "fapi_session \<Rightarrow> fapi_message \<Rightarrow> fapi_session \<times> fapi_message" where
  "handle s m =
     (if fm_version m \<noteq> 0 \<and> fm_version m \<noteq> FAPI_MSG_VERSION then err s m ''unsupported FAPI message version''
      else case fm_type m of
        CONFIG_REQ \<Rightarrow> handle_config s m
      | START_REQ \<Rightarrow> handle_start s m
      | STOP_REQ \<Rightarrow> handle_stop s m
      | UL_TTI_REQ \<Rightarrow> handle_data s m
      | DL_TTI_REQ \<Rightarrow> handle_data s m
      | TX_DATA_REQ \<Rightarrow> handle_data s m
      | SLOT_IND \<Rightarrow> err s m ''unexpected message direction for session.handle''
      | RX_DATA_IND \<Rightarrow> err s m ''unexpected message direction for session.handle''
      | CRC_IND \<Rightarrow> err s m ''unexpected message direction for session.handle''
      | CONFIG_RESP \<Rightarrow> err s m ''unexpected message direction for session.handle''
      | ERROR_IND \<Rightarrow> err s m ''unexpected message direction for session.handle'')"

fun handle_all :: "fapi_session \<Rightarrow> fapi_message list \<Rightarrow> fapi_session \<times> fapi_message list" where
  "handle_all s [] = (s, [])"
| "handle_all s (m # ms) =
     (case handle s m of (s', out) \<Rightarrow> case handle_all s' ms of (s'', outs) \<Rightarrow> (s'', out # outs))"

section \<open>The abstract protocol\<close>

inductive fapi_trans :: "fapi_state \<Rightarrow> fapi_msg_type \<Rightarrow> fapi_msg_type \<Rightarrow> fapi_state \<Rightarrow> bool" where
  config: "s \<noteq> Running \<Longrightarrow> fapi_trans s CONFIG_REQ CONFIG_RESP Configured"
| start: "fapi_trans Configured START_REQ SLOT_IND Running"
| stop: "s = Running \<or> s = Err_State \<Longrightarrow> fapi_trans s STOP_REQ CONFIG_RESP Configured"
| tti: "t = UL_TTI_REQ \<or> t = DL_TTI_REQ \<Longrightarrow> fapi_trans Running t SLOT_IND Running"
| tx: "fapi_trans Running TX_DATA_REQ CRC_IND Running"

inductive_cases fapi_transE: "fapi_trans s t t' s'"
inductive_simps fapi_trans_simps:
  "fapi_trans s CONFIG_REQ t' s'" "fapi_trans s START_REQ t' s'" "fapi_trans s STOP_REQ t' s'"
  "fapi_trans s UL_TTI_REQ t' s'" "fapi_trans s DL_TTI_REQ t' s'" "fapi_trans s TX_DATA_REQ t' s'"
  "fapi_trans s SLOT_IND t' s'" "fapi_trans s RX_DATA_IND t' s'" "fapi_trans s CRC_IND t' s'"
  "fapi_trans s CONFIG_RESP t' s'" "fapi_trans s ERROR_IND t' s'"

definition version_ok :: "fapi_message \<Rightarrow> bool" where
  "version_ok m \<longleftrightarrow> fm_version m = 0 \<or> fm_version m = FAPI_MSG_VERSION"

lemmas handle_defs = handle_def handle_config_def handle_start_def handle_stop_def handle_data_def err_def next_slot_def

lemma handle_success:
  assumes "handle s m = (s', out)" "fm_type out \<noteq> ERROR_IND"
  shows "version_ok m" "fapi_trans (fs_state s) (fm_type m) (fm_type out) (fs_state s')"
  using assms
  by (auto simp: handle_defs version_ok_def Let_def fapi_trans_simps split: if_splits fapi_msg_type.splits)

lemma handle_trans:
  assumes "version_ok m" "fapi_trans (fs_state s) (fm_type m) t' st'"
  shows "\<exists>s' out. handle s m = (s', out) \<and> fm_type out = t' \<and> fs_state s' = st'"
  using assms
  by (cases "fs_state s"; cases "fm_type m") (auto simp: fapi_trans_simps handle_defs version_ok_def Let_def)

lemma handle_error:
  assumes "handle s m = (s', out)"
  shows "fm_type out = ERROR_IND \<longleftrightarrow> fs_state s' = Err_State"
    "fm_type out = ERROR_IND \<Longrightarrow> s' = s\<lparr>fs_state := Err_State\<rparr>"
    "fm_version out = FAPI_MSG_VERSION"
  using assms by (auto simp: handle_defs Let_def split: if_splits fapi_msg_type.splits)

section \<open>Slot counting\<close>

definition is_data :: "fapi_msg_type \<Rightarrow> bool" where
  "is_data t \<longleftrightarrow> t = UL_TTI_REQ \<or> t = DL_TTI_REQ \<or> t = TX_DATA_REQ"

definition counters_ok :: "fapi_session \<Rightarrow> nat \<Rightarrow> bool" where
  "counters_ok s n \<longleftrightarrow> fs_slot_count s = of_nat n \<and> unat (fs_slot s) = n mod 20 \<and> unat (fs_sfn s) = n div 20 mod 1024"

lemma unat_Suc32: "unat (w :: u32) < 4294967295 \<Longrightarrow> unat (w + 1) = Suc (unat w)"
  by (simp add: unat_word_ariths)

lemma next_slot_counters:
  assumes "counters_ok s n"
  shows "counters_ok (next_slot s) (Suc n)"
proof -
  have u: "unat (fs_slot s) = n mod 20" "unat (fs_sfn s) = n div 20 mod 1024" "fs_slot_count s = of_nat n"
    using assms by (simp_all add: counters_ok_def)
  have lt: "n mod 20 < 20" "n div 20 mod 1024 < 1024" by simp_all
  then have "unat (fs_slot s) < 4294967295" "unat (fs_sfn s) < 4294967295" using u by linarith+
  then have slot: "unat ((fs_slot s + 1) mod 20) = Suc n mod 20"
    and sfn: "unat ((fs_sfn s + 1) mod 1024) = Suc (n div 20) mod 1024"
    using u by (simp_all add: unat_mod unat_Suc32 mod_Suc_eq)
  have zero: "(fs_slot s + 1) mod 20 = 0 \<longleftrightarrow> Suc n mod 20 = 0"
    using slot by (metis unat_eq_0)
  have "unat (if (fs_slot s + 1) mod 20 = 0 then (fs_sfn s + 1) mod 1024 else fs_sfn s) = Suc n div 20 mod 1024"
    unfolding zero using sfn u(2) by (simp add: div_Suc)
  with slot u(3) show ?thesis by (simp add: counters_ok_def next_slot_def Let_def)
qed

lemma handle_counters:
  assumes "handle s m = (s', out)" "counters_ok s n"
  shows "counters_ok s' (if is_data (fm_type m) \<and> fm_type out \<noteq> ERROR_IND then Suc n else n)"
proof (cases "is_data (fm_type m) \<and> fm_type out \<noteq> ERROR_IND")
  case True
  then have "fs_state s = Running \<and> s' = next_slot s"
    using assms(1) by (auto simp: is_data_def handle_def handle_data_def err_def Let_def split: if_splits)
  with True next_slot_counters [OF assms(2)] show ?thesis by simp
next
  case False
  then have "fs_slot_count s' = fs_slot_count s \<and> fs_slot s' = fs_slot s \<and> fs_sfn s' = fs_sfn s"
    using assms(1) by (auto simp: is_data_def handle_defs Let_def split: if_splits fapi_msg_type.splits)
  with False assms(2) show ?thesis by (simp add: counters_ok_def)
qed

definition served :: "fapi_message list \<Rightarrow> fapi_message list \<Rightarrow> nat" where
  "served ms outs = length (filter (\<lambda>(m, out). is_data (fm_type m) \<and> fm_type out \<noteq> ERROR_IND) (zip ms outs))"

lemma handle_all_counters:
  assumes "handle_all s ms = (s', outs)" "counters_ok s n"
  shows "counters_ok s' (n + served ms outs)"
  using assms
proof (induction ms arbitrary: s outs n)
  case (Cons m ms)
  obtain s1 out outs1 where 1: "handle s m = (s1, out)" "handle_all s1 ms = (s', outs1)" "outs = out # outs1"
    using Cons.prems(1) by (auto split: prod.splits)
  from Cons.IH [OF 1(2) handle_counters [OF 1(1) Cons.prems(2)]] show ?case
    by (auto simp: 1(3) served_def split: if_splits)
qed (simp add: served_def)

section \<open>Reachable sessions\<close>

inductive fapi_reach :: "fapi_session \<Rightarrow> bool" where
  init: "fapi_reach initial_session"
| step: "fapi_reach s \<Longrightarrow> fapi_reach (fst (handle s m))"
| again: "fapi_reach s \<Longrightarrow> fapi_reach (reset s)"

section \<open>Properties\<close>

text \<open>C10: \<open>handle\<close> implements the abstract protocol: it answers without error exactly when the message
  version is accepted and the protocol has a transition for the state and the message type, and then
  the reply type and the next state are those of the transition; in every other case the reply is an
  \<open>ERROR_IND\<close>, the state becomes \<open>Error\<close> and the counters stay as they were.\<close>

theorem fapi_refines_protocol:
  assumes "handle s m = (s', out)"
  shows "(fm_type out \<noteq> ERROR_IND \<longleftrightarrow> version_ok m \<and> (\<exists>t' st'. fapi_trans (fs_state s) (fm_type m) t' st')) \<and>
    (fm_type out \<noteq> ERROR_IND \<longrightarrow> fapi_trans (fs_state s) (fm_type m) (fm_type out) (fs_state s')) \<and>
    (fm_type out = ERROR_IND \<longrightarrow> s' = s\<lparr>fs_state := Err_State\<rparr>)"
proof -
  have no_err: "t' \<noteq> ERROR_IND" if "fapi_trans a t t' b" for a t t' b
    using that by (cases rule: fapi_transE) auto
  show ?thesis
    using handle_success [OF assms] handle_error(2) [OF assms] handle_trans [of m s] no_err assms
    by (metis Pair_inject)
qed

theorem fapi_refines_protocol_witness:
  "fapi_trans Idle CONFIG_REQ (fm_type (snd (handle initial_session default_message)))
     (fs_state (fst (handle initial_session default_message)))"
proof -
  have "fm_type (snd (handle initial_session default_message)) \<noteq> ERROR_IND"
    by (simp add: handle_defs initial_session_def default_message_def FAPI_MSG_VERSION_def)
  with fapi_refines_protocol [OF prod.collapse [symmetric], of initial_session default_message]
  show ?thesis by (simp add: initial_session_def default_message_def)
qed

text \<open>C26: invariant of every reachable session: the slot number is below 20 and the frame number below
  1024; more precisely, after any sequence of messages from the start the counters are those of the
  number of data and TTI requests that were served.\<close>

theorem fapi_counters:
  "(fapi_reach s \<longrightarrow> fs_slot s < 20 \<and> fs_sfn s < 1024) \<and>
   (case handle_all initial_session ms of (s', outs) \<Rightarrow>
      fs_slot_count s' = of_nat (served ms outs) \<and> unat (fs_slot s') = served ms outs mod 20 \<and>
      unat (fs_sfn s') = served ms outs div 20 mod 1024)"
proof (rule conjI)
  have init: "counters_ok initial_session 0" by (simp add: counters_ok_def initial_session_def)
  have "\<exists>n. counters_ok s n" if "fapi_reach s"
    using that
  proof induction
    case (step s m)
    then show ?case using handle_counters [of s m] by (metis prod.collapse)
  next
    case (again s)
    have "counters_ok (reset s) 0" by (simp add: counters_ok_def reset_def)
    then show ?case by blast
  qed (use init in blast)
  then show "fapi_reach s \<longrightarrow> fs_slot s < 20 \<and> fs_sfn s < 1024"
    by (auto simp: counters_ok_def word_less_nat_alt)
  show "case handle_all initial_session ms of (s', outs) \<Rightarrow>
      fs_slot_count s' = of_nat (served ms outs) \<and> unat (fs_slot s') = served ms outs mod 20 \<and>
      unat (fs_sfn s') = served ms outs div 20 mod 1024"
    using handle_all_counters [OF _ init] by (auto simp: counters_ok_def split: prod.splits)
qed

theorem fapi_counters_witness: "fs_slot (fst (handle initial_session default_message)) < 20"
  using fapi_counters [of "fst (handle initial_session default_message)" "[]"]
    fapi_reach.step [OF fapi_reach.init, of default_message] by simp

text \<open>C39: recovery. From every state, whatever happened before, two \<open>CONFIG_REQ\<close> and a
  \<open>START_REQ\<close> of an accepted version bring the session to \<open>Running\<close>.\<close>

theorem fapi_recovers:
  assumes "version_ok m1" "version_ok m2" "version_ok m3"
    and "fm_type m1 = CONFIG_REQ" "fm_type m2 = CONFIG_REQ" "fm_type m3 = START_REQ"
  shows "fs_state (fst (handle_all s [m1, m2, m3])) = Running"
  using assms by (cases "fs_state s") (auto simp: handle_defs version_ok_def)

theorem fapi_recovers_witness:
  "fs_state (fst (handle_all initial_session [default_message, default_message, default_message\<lparr>fm_type := START_REQ\<rparr>])) = Running"
  by (rule fapi_recovers) (simp_all add: version_ok_def default_message_def)

text \<open>The configuration step can be skipped: a rejected message followed by \<open>STOP_REQ\<close> moves an
  idle session to \<open>Configured\<close>, so \<open>START_REQ\<close> is served although no \<open>CONFIG_REQ\<close> was ever
  accepted.\<close>

theorem fapi_start_without_config:
  assumes "version_ok m2" "version_ok m3" "\<not> version_ok m1" "fm_type m2 = STOP_REQ" "fm_type m3 = START_REQ"
  shows "fs_state (fst (handle_all initial_session [m1, m2, m3])) = Running"
  using assms by (auto simp: handle_defs version_ok_def initial_session_def)

theorem fapi_start_without_config_witness:
  "fs_state (fst (handle_all initial_session [default_message\<lparr>fm_version := 99\<rparr>, default_message\<lparr>fm_type := STOP_REQ\<rparr>,
     default_message\<lparr>fm_type := START_REQ\<rparr>])) = Running"
  by (rule fapi_start_without_config) (simp_all add: version_ok_def default_message_def FAPI_MSG_VERSION_def)

end
