(* ===== verification/FapiJson.thy ===== *)
theory FapiJson
  imports Fapi
begin

text \<open>
  The JSON lines of \<open>src/fapi.cpp\<close>: \<open>fapi_from_json_line\<close>, \<open>fapi_to_json_line\<close> and the fixture
  runner. A position in the line is represented by the rest of the line from that position on, so
  \<open>line.find\<close> is a search for the suffix that starts with the pattern. \<open>std::stoul\<close> is modelled as
  the standard defines it (optional white space and sign, decimal digits, the rest ignored, a minus
  sign negates modulo \<open>2 ^ 64\<close>). The catch-all handler of the fixture runner counts every
  exception.
\<close>

section \<open>The code\<close>

definition type_name :: "fapi_msg_type \<Rightarrow> string" where
  "type_name t = (case t of
     CONFIG_REQ \<Rightarrow> ''CONFIG_REQ'' | CONFIG_RESP \<Rightarrow> ''CONFIG_RESP'' | START_REQ \<Rightarrow> ''START_REQ''
   | STOP_REQ \<Rightarrow> ''STOP_REQ'' | SLOT_IND \<Rightarrow> ''SLOT_IND'' | UL_TTI_REQ \<Rightarrow> ''UL_TTI_REQ''
   | DL_TTI_REQ \<Rightarrow> ''DL_TTI_REQ'' | TX_DATA_REQ \<Rightarrow> ''TX_DATA_REQ'' | RX_DATA_IND \<Rightarrow> ''RX_DATA_IND''
   | CRC_IND \<Rightarrow> ''CRC_IND'' | ERROR_IND \<Rightarrow> ''ERROR_IND'')"

definition parse_type :: "string \<Rightarrow> fapi_msg_type option" where
  "parse_type s =
     (if s = ''CONFIG_REQ'' then Some CONFIG_REQ
      else if s = ''CONFIG_RESP'' then Some CONFIG_RESP
      else if s = ''START_REQ'' then Some START_REQ
      else if s = ''STOP_REQ'' then Some STOP_REQ
      else if s = ''SLOT_IND'' then Some SLOT_IND
      else if s = ''UL_TTI_REQ'' then Some UL_TTI_REQ
      else if s = ''DL_TTI_REQ'' then Some DL_TTI_REQ
      else if s = ''TX_DATA_REQ'' then Some TX_DATA_REQ
      else if s = ''RX_DATA_IND'' then Some RX_DATA_IND
      else if s = ''CRC_IND'' then Some CRC_IND
      else if s = ''ERROR_IND'' then Some ERROR_IND
      else None)"

abbreviation quote :: char where "quote \<equiv> CHR 0x22"

definition digits :: string where "digits = ''0123456789''"

definition is_digit :: "char \<Rightarrow> bool" where "is_digit c \<longleftrightarrow> c \<in> set digits"

definition is_space :: "char \<Rightarrow> bool" where
  "is_space c \<longleftrightarrow> c \<in> {CHR '' '', CHR 0x09, CHR 0x0A, CHR 0x0B, CHR 0x0C, CHR 0x0D}"

definition digit_val :: "char \<Rightarrow> nat" where
  "digit_val c = length (takeWhile (\<lambda>d. d \<noteq> c) digits)"

definition parse_nat :: "string \<Rightarrow> nat" where
  "parse_nat ds = foldl (\<lambda>n c. 10 * n + digit_val c) 0 ds"

definition stoul :: "string \<Rightarrow> u64 result" where
  "stoul s =
     (let s1 = dropWhile is_space s;
          (neg, s2) = (case s1 of [] \<Rightarrow> (False, [])
                       | c # cs \<Rightarrow> if c = CHR ''-'' then (True, cs) else if c = CHR ''+'' then (False, cs) else (False, s1));
          ds = takeWhile is_digit s2
      in if ds = [] then Inl Invalid_argument
         else if parse_nat ds > 18446744073709551615 then Inl Out_of_range
         else Inr (if neg then - of_nat (parse_nat ds) else of_nat (parse_nat ds)))"

fun starts_with :: "string \<Rightarrow> string \<Rightarrow> bool" where
  "starts_with [] s = True"
| "starts_with (c # cs) [] = False"
| "starts_with (c # cs) (d # ds) = (c = d \<and> starts_with cs ds)"

fun find_sub :: "string \<Rightarrow> string \<Rightarrow> string option" where
  "find_sub pat [] = (if pat = [] then Some [] else None)"
| "find_sub pat (c # cs) = (if starts_with pat (c # cs) then Some (c # cs) else find_sub pat cs)"

fun scan_value :: "string \<Rightarrow> string" where
  "scan_value [] = []"
| "scan_value (c # cs) =
     (if c = quote then takeWhile (\<lambda>d. d \<noteq> quote) cs
      else if c = CHR '' '' then scan_value cs
      else takeWhile (\<lambda>d. is_digit d \<or> d = CHR ''-'') (c # cs))"

definition get_field :: "string \<Rightarrow> string \<Rightarrow> string" where
  "get_field line key =
     (case find_sub ([quote] @ key @ [quote]) line of
        None \<Rightarrow> []
      | Some rest \<Rightarrow>
          (case dropWhile (\<lambda>c. c \<noteq> CHR '':'') rest of [] \<Rightarrow> [] | colon # value \<Rightarrow> scan_value value))"

definition get_number :: "string \<Rightarrow> string \<Rightarrow> u64 \<Rightarrow> u64 result" where
  "get_number line key dflt = (let s = get_field line key in if s \<noteq> [] then stoul s else Inr dflt)"

definition fapi_from_json_line :: "string \<Rightarrow> fapi_message result" where
  "fapi_from_json_line line =
     (let t = parse_type (get_field line ''type'') in
      and_then (require (t \<noteq> None) ''invalid FAPI type in JSON'') (\<lambda>_.
      and_then (get_number line ''version'' (ucast FAPI_MSG_VERSION)) (\<lambda>version.
      and_then (get_number line ''sfn'' 0) (\<lambda>sfn.
      and_then (get_number line ''slot'' 0) (\<lambda>slot.
      and_then (get_number line ''handle'' 0) (\<lambda>hdl.
      Inr (default_message\<lparr>fm_type := the t, fm_version := ucast version, fm_sfn := ucast sfn, fm_slot := ucast slot,
             fm_handle := ucast hdl, fm_json_meta := line\<rparr>)))))))"

fun show_nat :: "nat \<Rightarrow> string" where
  "show_nat n = (if n < 10 then [digits ! n] else show_nat (n div 10) @ [digits ! (n mod 10)])"

declare show_nat.simps [simp del]

definition quoted :: "string \<Rightarrow> string" where
  "quoted s = [quote] @ s @ [quote]"

definition fapi_to_json_line :: "fapi_message \<Rightarrow> string" where
  "fapi_to_json_line m =
     ''{'' @ quoted ''version'' @ '':'' @ show_nat (unat (fm_version m)) @ '','' @ quoted ''type'' @ '':'' @ quoted (type_name (fm_type m)) @
     '','' @ quoted ''sfn'' @ '':'' @ show_nat (unat (fm_sfn m)) @ '','' @ quoted ''slot'' @ '':'' @ show_nat (unat (fm_slot m)) @
     '','' @ quoted ''handle'' @ '':'' @ show_nat (unat (fm_handle m)) @ '','' @ quoted ''crc_ok'' @ '':'' @
     (if fm_crc_ok m then ''true'' else ''false'') @
     (if fm_error m \<noteq> [] then '','' @ quoted ''error'' @ '':'' @ quoted (fm_error m) else []) @ ''}''"

fun fapi_run_fixture_lines :: "string list \<Rightarrow> fapi_session \<Rightarrow> int \<times> fapi_session" where
  "fapi_run_fixture_lines [] s = (0, s)"
| "fapi_run_fixture_lines (line # lines) s =
     (case (case fapi_from_json_line line of
              Inl e \<Rightarrow> (1, s)
            | Inr m \<Rightarrow> (case handle s m of (s', out) \<Rightarrow> (if fm_type out = ERROR_IND then 1 else 0, s')))
      of (e, s') \<Rightarrow> case fapi_run_fixture_lines lines s' of (n, s'') \<Rightarrow> (e + n, s''))"

section \<open>Numbers\<close>

lemma is_digit_nth: "n < 10 \<Longrightarrow> is_digit (digits ! n)"
  by (auto simp: is_digit_def digits_def intro!: nth_mem [of n "''0123456789''", simplified])

lemma digit_val_nth: "n < 10 \<Longrightarrow> digit_val (digits ! n) = n"
  by (auto simp: digit_val_def digits_def less_Suc_eq numeral_eq_Suc)

lemma show_nat_digits: "list_all is_digit (show_nat n)"
  by (induction n rule: show_nat.induct) (subst show_nat.simps, simp add: is_digit_nth)

lemma show_nat_not_Nil: "show_nat n \<noteq> []"
  by (subst show_nat.simps) simp

lemma parse_show_nat: "parse_nat (show_nat n) = n"
proof (induction n rule: show_nat.induct)
  case (1 n)
  then show ?case
    by (subst show_nat.simps) (auto simp: parse_nat_def digit_val_nth)
qed

lemma stoul_show_nat:
  assumes "n \<le> 18446744073709551615"
  shows "stoul (show_nat n) = Inr (of_nat n)"
proof -
  obtain c cs where s: "show_nat n = c # cs" using show_nat_not_Nil by (cases "show_nat n") auto
  with show_nat_digits [of n] have d: "is_digit c" "list_all is_digit cs" by simp_all
  then have "\<not> is_space c" "c \<noteq> CHR ''-''" "c \<noteq> CHR ''+''"
    by (auto simp: is_digit_def digits_def is_space_def)
  moreover have "takeWhile is_digit (c # cs) = c # cs" using d by (simp add: list_all_iff takeWhile_eq_all_conv)
  ultimately show ?thesis
    using parse_show_nat [of n] assms unfolding s by (simp add: stoul_def)
qed

section \<open>Searching\<close>

lemma find_sub_skip:
  assumes "list_all (\<lambda>c. c \<noteq> p) xs"
  shows "find_sub (p # ps) (xs @ ys) = find_sub (p # ps) ys"
  using assms by (induction xs) auto

lemma digit_not_quote: "is_digit c \<Longrightarrow> c \<noteq> quote"
  by (auto simp: is_digit_def digits_def)

lemma find_sub_digits: "find_sub (quote # ps) (show_nat n @ ys) = find_sub (quote # ps) ys"
  using show_nat_digits [of n] by (intro find_sub_skip) (auto simp: list_all_iff dest: digit_not_quote)

lemma scan_number:
  assumes "\<not> is_digit c" "c \<noteq> CHR ''-''"
  shows "scan_value (show_nat n @ c # ys) = show_nat n"
proof -
  obtain d ds where s: "show_nat n = d # ds" using show_nat_not_Nil by (cases "show_nat n") auto
  with show_nat_digits [of n] have d: "is_digit d" "list_all is_digit ds" by simp_all
  then have "d \<noteq> quote" "d \<noteq> CHR '' ''" by (auto simp: is_digit_def digits_def)
  moreover have "takeWhile (\<lambda>d. is_digit d \<or> d = CHR ''-'') (d # ds @ c # ys) = d # ds"
    using d assms by (simp add: list_all_iff takeWhile_append2 takeWhile_tail)
  ultimately show ?thesis unfolding s by simp
qed

lemma type_name_chars: "list_all (\<lambda>c. c \<noteq> quote) (type_name t)"
  by (cases t) (simp_all add: type_name_def)

lemma parse_type_name: "parse_type (type_name t) = Some t"
  by (cases t) (simp_all add: type_name_def parse_type_def)

section \<open>Fields of a printed message\<close>

lemma get_field_at:
  assumes "find_sub ([quote] @ key @ [quote]) line = Some (quoted key @ CHR '':'' # rest)"
    and "list_all (\<lambda>c. c \<noteq> CHR '':'') key"
  shows "get_field line key = scan_value rest"
proof -
  have "dropWhile (\<lambda>c. c \<noteq> CHR '':'') (quoted key @ CHR '':'' # rest) = CHR '':'' # rest"
    using assms(2) by (simp add: quoted_def list_all_iff dropWhile_append1 dropWhile_append2)
  then show ?thesis by (simp only: get_field_def assms(1) option.case list.case)
qed

lemma scan_quoted: "list_all (\<lambda>c. c \<noteq> quote) s \<Longrightarrow> scan_value (quoted s @ rest) = s"
  by (simp add: quoted_def list_all_iff takeWhile_append2)

lemmas json_scan = fapi_to_json_line_def quoted_def find_sub_digits

definition json_tail :: "fapi_message \<Rightarrow> string" where
  "json_tail m = '','' @ quoted ''crc_ok'' @ '':'' @ (if fm_crc_ok m then ''true'' else ''false'') @
     (if fm_error m \<noteq> [] then '','' @ quoted ''error'' @ '':'' @ quoted (fm_error m) else []) @ ''}''"

lemma json_fields:
  "get_field (fapi_to_json_line m) ''version'' = show_nat (unat (fm_version m))"
  "get_field (fapi_to_json_line m) ''type'' = type_name (fm_type m)"
  "get_field (fapi_to_json_line m) ''sfn'' = show_nat (unat (fm_sfn m))"
  "get_field (fapi_to_json_line m) ''slot'' = show_nat (unat (fm_slot m))"
  "get_field (fapi_to_json_line m) ''handle'' = show_nat (unat (fm_handle m))"
proof -
  define h where "h = show_nat (unat (fm_handle m)) @ json_tail m"
  define l where "l = show_nat (unat (fm_slot m)) @ '','' @ quoted ''handle'' @ '':'' @ h"
  define f where "f = show_nat (unat (fm_sfn m)) @ '','' @ quoted ''slot'' @ '':'' @ l"
  define t where "t = quoted (type_name (fm_type m)) @ '','' @ quoted ''sfn'' @ '':'' @ f"
  define v where "v = show_nat (unat (fm_version m)) @ '','' @ quoted ''type'' @ '':'' @ t"
  have line: "fapi_to_json_line m = ''{'' @ quoted ''version'' @ '':'' @ v"
    by (simp add: fapi_to_json_line_def v_def t_def f_def l_def h_def json_tail_def)
  note d = find_sub_digits
  have t_skip: "find_sub (quote # c # cs) t = find_sub (quote # c # cs) (CHR '','' # quoted ''sfn'' @ '':'' @ f)"
    if "c \<in> {CHR ''s'', CHR ''h''}" for c cs
    using that unfolding t_def by (cases "fm_type m") (auto simp: type_name_def quoted_def)
  show "get_field (fapi_to_json_line m) ''version'' = show_nat (unat (fm_version m))"
    by (subst get_field_at [where rest = v]) (simp_all add: line quoted_def v_def scan_number is_digit_def digits_def)
  show "get_field (fapi_to_json_line m) ''type'' = type_name (fm_type m)"
    by (subst get_field_at [where rest = t])
      (simp_all add: line quoted_def v_def d, simp add: t_def scan_quoted [OF type_name_chars])
  show "get_field (fapi_to_json_line m) ''sfn'' = show_nat (unat (fm_sfn m))"
    by (subst get_field_at [where rest = f])
      (simp_all add: line quoted_def v_def d t_skip, simp add: f_def scan_number is_digit_def digits_def)
  show "get_field (fapi_to_json_line m) ''slot'' = show_nat (unat (fm_slot m))"
    by (subst get_field_at [where rest = l])
      (simp_all add: line quoted_def v_def d t_skip f_def, simp add: l_def scan_number is_digit_def digits_def)
  show "get_field (fapi_to_json_line m) ''handle'' = show_nat (unat (fm_handle m))"
    by (subst get_field_at [where rest = h])
      (simp_all add: line quoted_def v_def d t_skip f_def l_def, simp add: h_def json_tail_def scan_number is_digit_def digits_def)
qed

lemma ucast_u64_id: "LENGTH('b::len) \<le> 64 \<Longrightarrow> ucast (ucast (w :: 'b word) :: u64) = w"
  by (simp add: unsigned_ucast_eq take_bit_word_eq_self)

lemma get_number_printed:
  assumes "get_field line key = show_nat n" "n \<le> 18446744073709551615"
  shows "get_number line key d = Inr (of_nat n)"
  using assms by (simp add: get_number_def Let_def stoul_show_nat show_nat_not_Nil)

lemma parse_printed:
  "fapi_from_json_line (fapi_to_json_line m) =
     Inr (default_message\<lparr>fm_type := fm_type m, fm_version := fm_version m, fm_sfn := fm_sfn m, fm_slot := fm_slot m,
            fm_handle := fm_handle m, fm_json_meta := fapi_to_json_line m\<rparr>)"
proof -
  have le: "unat (w :: u32) \<le> 18446744073709551615" "unat (v :: u16) \<le> 18446744073709551615" for w v
  proof -
    have "unat w < 2 ^ LENGTH(32)" "unat v < 2 ^ LENGTH(16)" by (rule unsigned_less)+
    then show "unat w \<le> 18446744073709551615" "unat v \<le> 18446744073709551615" by simp_all
  qed
  show ?thesis
    by (simp add: fapi_from_json_line_def json_fields parse_type_name get_number_printed [OF json_fields(1) le(2)]
        get_number_printed [OF json_fields(3) le(1)] get_number_printed [OF json_fields(4) le(1)]
        get_number_printed [OF json_fields(5) le(1)] ucast_u64_id)
qed

lemma handle_parsed:
  assumes "fm_type m' = fm_type m" "fm_version m' = fm_version m"
  shows "fst (handle s m') = fst (handle s m)" "fm_type (snd (handle s m')) = fm_type (snd (handle s m))"
  using assms by (auto simp: handle_defs Let_def split: fapi_msg_type.splits)

section \<open>Properties\<close>

text \<open>C27: round trip of the JSON lines: parsing the line printed for a message gives back its version,
  type, frame, slot and handle, for every message and whatever its error text; the payload, the CRC
  flag and the error are not read back.\<close>

theorem fapi_json_roundtrip:
  "fapi_from_json_line (fapi_to_json_line m) =
     Inr (default_message\<lparr>fm_type := fm_type m, fm_version := fm_version m, fm_sfn := fm_sfn m, fm_slot := fm_slot m,
            fm_handle := fm_handle m, fm_json_meta := fapi_to_json_line m\<rparr>)"
  by (rule parse_printed)

text \<open>The fixture runner on the lines of a list of messages is the session run on the messages
  themselves: the same final session, and as many errors as replies of type \<open>ERROR_IND\<close>; a line of
  an unknown type counts as one error and leaves the session unchanged.\<close>

theorem fapi_fixture_runner:
  "fapi_run_fixture_lines (map fapi_to_json_line ms) s =
     (case handle_all s ms of (s', outs) \<Rightarrow> (int (length (filter (\<lambda>out. fm_type out = ERROR_IND) outs)), s')) \<and>
   (parse_type (get_field line ''type'') = None \<longrightarrow> fapi_run_fixture_lines [line] s = (1, s))"
proof (rule conjI)
  show "fapi_run_fixture_lines (map fapi_to_json_line ms) s =
     (case handle_all s ms of (s', outs) \<Rightarrow> (int (length (filter (\<lambda>out. fm_type out = ERROR_IND) outs)), s'))"
  proof (induction ms arbitrary: s)
    case (Cons m ms)
    let ?m = "default_message\<lparr>fm_type := fm_type m, fm_version := fm_version m, fm_sfn := fm_sfn m, fm_slot := fm_slot m,
            fm_handle := fm_handle m, fm_json_meta := fapi_to_json_line m\<rparr>"
    have "fm_type ?m = fm_type m" "fm_version ?m = fm_version m" by simp_all
    note h = handle_parsed [OF this, of s]
    obtain s1 out where 1: "handle s m = (s1, out)" by fastforce
    with h obtain out' where 2: "handle s ?m = (s1, out')" "fm_type out' = fm_type out" by (cases "handle s ?m") auto
    obtain s2 outs where 3: "handle_all s1 ms = (s2, outs)" by fastforce
    show ?case by (simp add: parse_printed Cons.IH 1 2 3)
  qed simp
qed (simp add: fapi_from_json_line_def)

theorem fapi_fixture_runner_witness: "fapi_run_fixture_lines [''{corrupt''] initial_session = (1, initial_session)"
  using fapi_fixture_runner [of "[]" initial_session "''{corrupt''"]
  by (simp add: get_field_def parse_type_def)

text \<open>The version check can be bypassed: the parser truncates the version to 16 bits, so a line that
  announces version 65537 is served as version 1.\<close>

theorem fapi_version_truncated:
  "\<exists>m. fapi_from_json_line (''{'' @ quoted ''version'' @ '':65537,'' @ quoted ''type'' @ '':'' @ quoted ''CONFIG_REQ'' @ ''}'') = Inr m \<and>
     fs_state (fst (handle initial_session m)) = Configured"
  by (simp add: fapi_from_json_line_def get_number_def get_field_def quoted_def parse_type_def stoul_def
      is_digit_def digits_def is_space_def parse_nat_def digit_val_def handle_defs initial_session_def default_message_def
      FAPI_MSG_VERSION_def)

end
