(* ===== verification/Scheduler.thy ===== *)
theory Scheduler
  imports CInt "HOL-Library.Multiset"
begin

text \<open>
  The MAC scheduler of \<open>include/nr_bb/scheduler.hpp\<close> and \<open>src/scheduler.cpp\<close>: filtering,
  ordering by metric (\<open>std::stable_sort\<close> is \<open>sort_key\<close>, which is stable), packing of the resource
  blocks and the replay hash. \<open>pack_step\<close> is the body of the packing loop. Metrics are exact reals;
  the conversion of the share to \<open>int\<close> is checked.
\<close>

section \<open>The code\<close>

record ue_state =
  ue_id :: u32
  ue_avg :: real
  ue_rate :: real
  ue_harq_active :: int
  ue_harq_max :: int
  ue_qos :: real
  ue_buffer :: real
  ue_connected :: bool
  ue_filtered :: bool
  ue_mcs :: int
  ue_layers :: int
  ue_cqi :: int

definition default_ue :: ue_state where
  "default_ue = \<lparr>ue_id = 0, ue_avg = 1, ue_rate = 1, ue_harq_active = 0, ue_harq_max = 16, ue_qos = 1, ue_buffer = 1000,
     ue_connected = True, ue_filtered = False, ue_mcs = 4, ue_layers = 1, ue_cqi = 4\<rparr>"

record prb_allocation =
  al_ue :: u32
  al_start :: int
  al_count :: int
  al_mcs :: int
  al_layers :: int
  al_metric :: real

record schedule_result =
  sch_allocations :: "prb_allocation list"
  sch_selected :: "u32 list"
  sch_filtered :: "u32 list"
  sch_hash :: u64

record scheduler_config =
  sc_n_prb :: int
  sc_max_ues :: int
  sc_max_harq :: int
  sc_min_buffer :: real
  sc_qos :: bool
  sc_seed :: u64

definition default_scheduler :: scheduler_config where
  "default_scheduler = \<lparr>sc_n_prb = 50, sc_max_ues = 4, sc_max_harq = 8, sc_min_buffer = 1, sc_qos = True, sc_seed = 1\<rparr>"

definition pf_metric :: "ue_state \<Rightarrow> real" where
  "pf_metric ue = ue_qos ue * (ue_rate ue / max (ue_avg ue) (1 / 1000000000))"

definition metric_at :: "ue_state \<Rightarrow> bool \<Rightarrow> int \<Rightarrow> real" where
  "metric_at ue enable_qos harq_left =
     (let m0 = pf_metric ue;
          m1 = m0 * (1 + 5 / 100 * of_int (ue_cqi ue));
          m2 = m1 * (1 + 2 / 100 * of_int (ue_layers ue));
          m3 = (if enable_qos then m2 * max (1 / 10) (ue_qos ue) else m2);
          m4 = m3 * (1 + min (ue_buffer ue) 1000000 / 1000000)
      in m4 * (1 + 1 / 10 * of_int (max 0 harq_left)))"

definition composite_metric :: "ue_state \<Rightarrow> bool \<Rightarrow> real result" where
  "composite_metric ue enable_qos =
     and_then (int_op (ue_harq_max ue - ue_harq_active ue)) (\<lambda>harq_left. Inr (metric_at ue enable_qos harq_left))"

text \<open>The value of the metric where the subtraction does not overflow. The sort and the sum of the scheduler call
  \<open>composite_metric\<close> on every user that passes the filter; \<open>schedule\<close> makes these calls first, and what follows
  uses their values.\<close>

definition metric :: "ue_state \<Rightarrow> bool \<Rightarrow> real" where
  "metric ue enable_qos = metric_at ue enable_qos (ue_harq_max ue - ue_harq_active ue)"

definition mix64 :: "u64 \<Rightarrow> u64" where
  "mix64 x0 =
     (let x1 = x0 XOR drop_bit 30 x0;
          x2 = x1 * 0xbf58476d1ce4e5b9;
          x3 = x2 XOR drop_bit 27 x2;
          x4 = x3 * 0x94d049bb133111eb
      in x4 XOR drop_bit 31 x4)"

definition passes :: "scheduler_config \<Rightarrow> ue_state \<Rightarrow> bool" where
  "passes cfg ue \<longleftrightarrow> ue_connected ue \<and> \<not> ue_filtered ue \<and> ue_buffer ue \<ge> sc_min_buffer cfg \<and>
     ue_harq_active ue < sc_max_harq cfg \<and> ue_harq_active ue < ue_harq_max ue"

definition ranked :: "scheduler_config \<Rightarrow> ue_state list \<Rightarrow> ue_state list" where
  "ranked cfg ues = sort_key (\<lambda>ue. - metric ue (sc_qos cfg)) (filter (passes cfg) ues)"

definition mcs_of :: "ue_state \<Rightarrow> int" where
  "mcs_of ue =
     (if ue_cqi ue \<ge> 10 then max (ue_mcs ue) 16
      else if ue_cqi ue \<ge> 7 then max (ue_mcs ue) 10
      else if ue_cqi ue \<le> 2 then min (ue_mcs ue) 2
      else ue_mcs ue)"

definition share :: "scheduler_config \<Rightarrow> real \<Rightarrow> real \<Rightarrow> int result" where
  "share cfg m sum_m = int_op \<lfloor>of_int (sc_n_prb cfg) * (m / sum_m)\<rfloor>"

fun pack :: "scheduler_config \<Rightarrow> real \<Rightarrow> ue_state list \<Rightarrow> int \<Rightarrow> int \<Rightarrow> prb_allocation list result" where
  "pack cfg sum_m [] cursor remaining = Inr []"
| "pack cfg sum_m (ue # ues) cursor remaining =
     (let m = metric ue (sc_qos cfg) in
      and_then (if ues = [] then Inr remaining else and_then (share cfg m sum_m) (\<lambda>k. Inr (max 1 k))) (\<lambda>n0.
      let n = (if n0 > remaining then remaining else n0);
          a = \<lparr>al_ue = ue_id ue, al_start = cursor, al_count = n, al_mcs = mcs_of ue, al_layers = ue_layers ue, al_metric = m\<rparr>
      in and_then (pack cfg sum_m ues (cursor + n) (remaining - n)) (\<lambda>as. Inr (a # as))))"

definition hash_step :: "u64 \<Rightarrow> prb_allocation \<Rightarrow> u64" where
  "hash_step h a = mix64 (h XOR push_bit 32 (ucast (al_ue a)) XOR of_int (al_start a) XOR
     push_bit 16 (of_int (al_count a)) XOR of_int (al_mcs a))"

definition schedule :: "scheduler_config \<Rightarrow> ue_state list \<Rightarrow> schedule_result result" where
  "schedule cfg ues =
     and_then (require (sc_n_prb cfg > 0) ''n_prb must be > 0'') (\<lambda>_.
     and_then (require (sc_max_ues cfg > 0) ''max_ues must be > 0'') (\<lambda>_.
     and_then (mapE (\<lambda>ue. composite_metric ue (sc_qos cfg)) (filter (passes cfg) ues)) (\<lambda>_.
     let filtered = map ue_id (filter (\<lambda>ue. \<not> passes cfg ue) ues);
         eligible = ranked cfg ues;
         n_sel = min (sc_max_ues cfg) (to_int32 (length eligible))
     in if n_sel = 0
        then Inr \<lparr>sch_allocations = [], sch_selected = [], sch_filtered = filtered,
                  sch_hash = mix64 (sc_seed cfg XOR of_int (sc_n_prb cfg))\<rparr>
        else let sel = take (nat n_sel) eligible;
                 sum_m = foldl (\<lambda>s ue. s + max (1 / 1000000000) (metric ue (sc_qos cfg))) 0 sel
             in and_then (pack cfg sum_m sel 0 (sc_n_prb cfg)) (\<lambda>as.
                  Inr \<lparr>sch_allocations = as, sch_selected = map ue_id sel, sch_filtered = filtered,
                       sch_hash = foldl hash_step (sc_seed cfg) as\<rparr>))))"

definition pf_schedule :: "int \<Rightarrow> ue_state list \<Rightarrow> int \<Rightarrow> schedule_result result" where
  "pf_schedule n_prb ues max_ues =
     schedule (default_scheduler\<lparr>sc_n_prb := n_prb, sc_max_ues := max_ues\<rparr>) ues"

section \<open>Packing\<close>

fun contiguous :: "int \<Rightarrow> prb_allocation list \<Rightarrow> bool" where
  "contiguous c [] = True"
| "contiguous c (a # as) = (al_start a = c \<and> 0 \<le> al_count a \<and> contiguous (c + al_count a) as)"

lemma pack_ok:
  assumes "pack cfg sum_m ues cursor remaining = Inr as" "0 \<le> remaining"
  shows "contiguous cursor as \<and> map al_ue as = map ue_id ues \<and> map al_mcs as = map mcs_of ues \<and>
    (ues \<noteq> [] \<longrightarrow> (\<Sum>a\<leftarrow>as. al_count a) = remaining)"
  using assms
proof (induction ues arbitrary: cursor remaining as)
  case (Cons ue ues)
  let ?m = "metric ue (sc_qos cfg)"
  from Cons.prems(1) obtain n0 as' where n0: "(if ues = [] then Inr remaining else and_then (share cfg ?m sum_m) (\<lambda>k. Inr (max 1 k))) = Inr n0"
    and as': "pack cfg sum_m ues (cursor + min n0 remaining) (remaining - min n0 remaining) = Inr as'"
    and as: "as = \<lparr>al_ue = ue_id ue, al_start = cursor, al_count = min n0 remaining, al_mcs = mcs_of ue,
      al_layers = ue_layers ue, al_metric = ?m\<rparr> # as'"
    by (auto simp: Let_def and_then_Inr_iff min_def split: if_split_asm)
  have n: "0 \<le> min n0 remaining" "ues = [] \<Longrightarrow> n0 = remaining"
    using n0 Cons.prems(2) by (auto simp: and_then_Inr_iff split: if_split_asm)
  have "0 \<le> remaining - min n0 remaining" by simp
  from Cons.IH [OF as' this] n as' show ?case by (cases "ues = []") (auto simp: as)
qed simp

lemma pack_total:
  assumes "\<And>ue. ue \<in> set ues \<Longrightarrow> \<exists>k. share cfg (metric ue (sc_qos cfg)) sum_m = Inr k"
  shows "\<exists>as. pack cfg sum_m ues cursor remaining = Inr as"
  using assms
proof (induction ues arbitrary: cursor remaining)
  case (Cons ue ues)
  obtain k where k: "share cfg (metric ue (sc_qos cfg)) sum_m = Inr k" using Cons.prems by auto
  define n where "n = (if ues = [] then remaining else max 1 k)"
  obtain as where "pack cfg sum_m ues (cursor + min n remaining) (remaining - min n remaining) = Inr as"
    using Cons by fastforce
  then show ?case by (auto simp: Let_def k n_def min_def split: if_splits)
qed simp

section \<open>The replay hash\<close>

lemma xorshift_inj:
  assumes "0 < k" "x XOR drop_bit k x = y XOR drop_bit k y"
  shows "x = (y :: u64)"
proof (rule bit_eqI)
  have b: "bit x i \<noteq> bit x (i + k) \<longleftrightarrow> bit y i \<noteq> bit y (i + k)" for i
    using arg_cong [OF assms(2), of "\<lambda>w. bit w i"] by (auto simp: bit_xor_iff bit_drop_bit_eq add.commute)
  have "bit x i = bit y i" for i
  proof (induction "64 - i" arbitrary: i rule: less_induct)
    case less
    show ?case
    proof (cases "i < 64")
      case True
      then have "64 - (i + k) < 64 - i" using assms(1) by simp
      from less [OF this] b [of i] show ?thesis by blast
    next
      case False
      then show ?thesis by (auto dest: bit_imp_le_length)
    qed
  qed
  then show "bit x n = bit y n" for n by simp
qed

lemma odd_mult_inj:
  assumes "c * d = 1" "x * c = y * c"
  shows "x = (y :: u64)"
proof -
  have "x * (c * d) = y * (c * d)" using assms(2) by (metis mult.assoc)
  then show ?thesis using assms(1) by simp
qed

lemma mix64_inj: "mix64 x = mix64 y \<Longrightarrow> x = y"
proof -
  have 1: "(0xbf58476d1ce4e5b9 :: u64) * 0x96de1b173f119089 = 1" by simp
  have 2: "(0x94d049bb133111eb :: u64) * 0x319642b2d24d8ec3 = 1" by simp
  show "mix64 x = mix64 y \<Longrightarrow> x = y"
    unfolding mix64_def Let_def
    by (drule xorshift_inj [rotated], simp, drule odd_mult_inj [OF 2], drule xorshift_inj [rotated], simp,
        drule odd_mult_inj [OF 1], drule xorshift_inj [rotated], simp, assumption)
qed

lemma mix64_eq_iff [simp]: "mix64 x = mix64 y \<longleftrightarrow> x = y"
  using mix64_inj by blast

lemma hash_step_inj: "hash_step h a = hash_step h' a \<Longrightarrow> h = h'"
  by (simp add: hash_step_def)

lemma hash_fold_inj: "foldl hash_step h as = foldl hash_step h' as \<Longrightarrow> h = h'"
  by (induction as arbitrary: h h') (auto dest: hash_step_inj)

section \<open>Selection\<close>

lemma mset_ranked: "mset (ranked cfg ues) = mset (filter (passes cfg) ues)"
  by (simp add: ranked_def)

lemma ranked_sorted:
  "i \<le> j \<Longrightarrow> j < length (ranked cfg ues) \<Longrightarrow>
   metric (ranked cfg ues ! j) (sc_qos cfg) \<le> metric (ranked cfg ues ! i) (sc_qos cfg)"
  using sorted_sort_key [of "\<lambda>ue. - metric ue (sc_qos cfg)" "filter (passes cfg) ues"]
  by (auto simp: ranked_def sorted_iff_nth_mono)

lemma schedule_InrE:
  assumes "schedule cfg ues = Inr r" "filter (passes cfg) ues \<noteq> []" "length ues < 2147483648"
  obtains as sum_m where
    "0 < sc_n_prb cfg" "0 < sc_max_ues cfg"
    "sum_m = foldl (\<lambda>s ue. s + max (1 / 1000000000) (metric ue (sc_qos cfg))) 0
       (take (nat (sc_max_ues cfg)) (ranked cfg ues))"
    "pack cfg sum_m (take (nat (sc_max_ues cfg)) (ranked cfg ues)) 0 (sc_n_prb cfg) = Inr as"
    "r = \<lparr>sch_allocations = as, sch_selected = map ue_id (take (nat (sc_max_ues cfg)) (ranked cfg ues)),
        sch_filtered = map ue_id (filter (\<lambda>ue. \<not> passes cfg ue) ues), sch_hash = foldl hash_step (sc_seed cfg) as\<rparr>"
proof -
  have len: "length (ranked cfg ues) = length (filter (passes cfg) ues)"
    by (metis mset_ranked mset_eq_length)
  then have l: "0 < length (ranked cfg ues)" "length (ranked cfg ues) < 2147483648"
    using assms(2,3) le_less_trans [OF length_filter_le [of "passes cfg" ues]] by simp_all
  then have t: "take (nat (min (sc_max_ues cfg) (to_int32 (length (ranked cfg ues))))) (ranked cfg ues) =
      take (nat (sc_max_ues cfg)) (ranked cfg ues)"
    by (simp add: min_def)
  show thesis
    using assms(1) l t that
    by (auto simp: schedule_def Let_def and_then_Inr_iff split: if_split_asm)
qed

section \<open>Properties\<close>

text \<open>C14: packing. Whenever a schedule is produced for at least one eligible user, the allocations are
  contiguous from block 0, overlap nowhere and together use exactly the \<open>n_prb\<close> resource blocks.\<close>

theorem schedule_packs:
  assumes "schedule cfg ues = Inr r" "filter (passes cfg) ues \<noteq> []" "length ues < 2147483648"
  shows "contiguous 0 (sch_allocations r) \<and> (\<Sum>a\<leftarrow>sch_allocations r. al_count a) = sc_n_prb cfg \<and>
    map al_ue (sch_allocations r) = sch_selected r \<and>
    length (sch_allocations r) = min (nat (sc_max_ues cfg)) (length (filter (passes cfg) ues))"
proof -
  from assms obtain as sum_m where s: "0 < sc_n_prb cfg" "0 < sc_max_ues cfg"
    and p: "pack cfg sum_m (take (nat (sc_max_ues cfg)) (ranked cfg ues)) 0 (sc_n_prb cfg) = Inr as"
    and r: "sch_allocations r = as" "sch_selected r = map ue_id (take (nat (sc_max_ues cfg)) (ranked cfg ues))"
    by (rule schedule_InrE) simp_all
  have len: "length (ranked cfg ues) = length (filter (passes cfg) ues)"
    by (metis mset_ranked mset_eq_length)
  then have "take (nat (sc_max_ues cfg)) (ranked cfg ues) \<noteq> []" using assms(2) s(2) by auto
  with pack_ok [OF p] s(1) r len show ?thesis by (metis length_map length_take min.commute less_imp_le)
qed

text \<open>C15: selection. The selected users are the best by the composite metric: ranked without increase,
  no eligible user left out has a larger metric than a selected one, users of equal metric keep
  their order, and the filtered list holds exactly the users that fail the guards.\<close>

theorem schedule_selects_best:
  assumes "schedule cfg ues = Inr r" "filter (passes cfg) ues \<noteq> []" "length ues < 2147483648"
  shows "\<exists>sel rest. sch_selected r = map ue_id sel \<and> mset (sel @ rest) = mset (filter (passes cfg) ues) \<and>
    length sel = min (nat (sc_max_ues cfg)) (length (filter (passes cfg) ues)) \<and>
    sorted (map (\<lambda>ue. - metric ue (sc_qos cfg)) (sel @ rest)) \<and>
    (\<forall>m. filter (\<lambda>ue. metric ue (sc_qos cfg) = m) (sel @ rest) =
         filter (\<lambda>ue. metric ue (sc_qos cfg) = m) (filter (passes cfg) ues)) \<and>
    sch_filtered r = map ue_id (filter (\<lambda>ue. \<not> passes cfg ue) ues)"
proof -
  let ?n = "nat (sc_max_ues cfg)"
  from assms have r: "sch_selected r = map ue_id (take ?n (ranked cfg ues))"
    "sch_filtered r = map ue_id (filter (\<lambda>ue. \<not> passes cfg ue) ues)"
    by (rule schedule_InrE; simp)+
  have split: "take ?n (ranked cfg ues) @ drop ?n (ranked cfg ues) = ranked cfg ues" by simp
  have len: "length (ranked cfg ues) = length (filter (passes cfg) ues)"
    by (metis mset_ranked mset_eq_length)
  have stable: "filter (\<lambda>ue. metric ue (sc_qos cfg) = m) (ranked cfg ues) =
      filter (\<lambda>ue. metric ue (sc_qos cfg) = m) (filter (passes cfg) ues)" for m
    using sort_key_stable [of "\<lambda>ue. - metric ue (sc_qos cfg)" "- m" "filter (passes cfg) ues"]
    by (simp add: ranked_def)
  have sorted: "sorted (map (\<lambda>ue. - metric ue (sc_qos cfg)) (ranked cfg ues))"
    by (simp add: ranked_def)
  show ?thesis
    by (rule exI [of _ "take ?n (ranked cfg ues)"], rule exI [of _ "drop ?n (ranked cfg ues)"], unfold split)
      (use r mset_ranked [of cfg ues] len stable sorted in \<open>simp add: min.commute\<close>)
qed

definition ue_ok :: "ue_state \<Rightarrow> bool" where
  "ue_ok ue \<longleftrightarrow> 0 \<le> ue_qos ue \<and> 0 \<le> ue_rate ue \<and> 0 \<le> ue_cqi ue \<and> 0 \<le> ue_layers ue \<and> 0 \<le> ue_buffer ue \<and>
     0 \<le> ue_harq_active ue \<and> ue_harq_max ue < 2147483648"

lemma metric_nonneg: "ue_ok ue \<Longrightarrow> 0 \<le> metric ue q"
  by (auto simp: ue_ok_def metric_def metric_at_def pf_metric_def Let_def max_def intro!: mult_nonneg_nonneg divide_nonneg_nonneg
      add_nonneg_nonneg)

lemma metrics_computed:
  assumes "list_all ue_ok ues"
  shows "mapE (\<lambda>ue. composite_metric ue q) (filter (passes cfg) ues) = Inr (map (\<lambda>ue. metric ue q) (filter (passes cfg) ues))"
proof (rule mapE_Inr)
  fix ue assume "ue \<in> set (filter (passes cfg) ues)"
  then have "int_ok (ue_harq_max ue - ue_harq_active ue)"
    using assms by (auto simp: list_all_iff ue_ok_def passes_def int_ok_def)
  then show "composite_metric ue q = Inr (metric ue q)" by (simp add: composite_metric_def metric_def)
qed

lemma metric_overflows:
  assumes "list_ex (\<lambda>ue. passes cfg ue \<and> \<not> int_ok (ue_harq_max ue - ue_harq_active ue)) ues"
  shows "mapE (\<lambda>ue. composite_metric ue q) (filter (passes cfg) ues) = Inl (Undefined ''signed integer overflow'')"
  by (rule mapE_Inl) (use assms in \<open>auto simp: composite_metric_def int_op_def list_ex_iff\<close>)

lemma sum_fold: "foldl (\<lambda>s ue. s + f ue) a xs = a + (\<Sum>ue\<leftarrow>xs. f ue)" for f :: "'a \<Rightarrow> real"
  by (induction xs arbitrary: a) (simp_all add: add.assoc)

lemma share_total:
  assumes "ue \<in> set sel" "\<And>ue. ue \<in> set sel \<Longrightarrow> ue_ok ue" "0 < sc_n_prb cfg" "sc_n_prb cfg < 2147483648"
  shows "\<exists>k. share cfg (metric ue q) (\<Sum>ue\<leftarrow>sel. max (1 / 1000000000) (metric ue q)) = Inr k"
proof -
  let ?m = "metric ue q" and ?f = "\<lambda>ue. max (1 / 1000000000) (metric ue q)"
  let ?S = "\<Sum>ue\<leftarrow>sel. ?f ue"
  have m: "0 \<le> ?m" using assms(1,2) metric_nonneg by blast
  have "?f ue \<le> ?S" using assms(1) by (intro member_le_sum_list) auto
  then have S: "?m \<le> ?S" "0 < ?S" by linarith+
  have r: "0 \<le> ?m / ?S" "?m / ?S \<le> 1" using m S by simp_all
  have "0 \<le> real_of_int (sc_n_prb cfg) * (?m / ?S)" "real_of_int (sc_n_prb cfg) * (?m / ?S) \<le> real_of_int (sc_n_prb cfg) * 1"
    using r assms(3) by (intro mult_nonneg_nonneg mult_left_mono; simp)+
  then have "0 \<le> \<lfloor>real_of_int (sc_n_prb cfg) * (?m / ?S)\<rfloor>" "\<lfloor>real_of_int (sc_n_prb cfg) * (?m / ?S)\<rfloor> \<le> sc_n_prb cfg"
    by (simp_all add: floor_le_iff)
  then have "int_ok \<lfloor>real_of_int (sc_n_prb cfg) * (?m / ?S)\<rfloor>" unfolding int_ok_def using assms(4) by linarith
  then show ?thesis unfolding share_def by (blast intro: int_op_ok)
qed

lemma schedule_succeeds:
  assumes "0 < sc_n_prb cfg" "sc_n_prb cfg < 2147483648" "0 < sc_max_ues cfg" "list_all ue_ok ues"
  shows "\<exists>r. schedule cfg ues = Inr r"
proof -
  have "set (ranked cfg ues) \<subseteq> set ues" by (auto simp: ranked_def)
  then have ok: "ue_ok ue" if "ue \<in> set (take n (ranked cfg ues))" for ue n
    using that assms(4) by (auto simp: list_all_iff dest: in_set_takeD)
  have "\<exists>as. pack cfg (\<Sum>ue\<leftarrow>take n (ranked cfg ues). max (1 / 1000000000) (metric ue (sc_qos cfg)))
      (take n (ranked cfg ues)) 0 (sc_n_prb cfg) = Inr as" for n
    by (intro pack_total share_total ok assms(1,2))
  then show ?thesis
    using assms(1,3) by (auto simp: schedule_def Let_def sum_fold and_then_Inr_iff metrics_computed [OF assms(4)])
qed

text \<open>C33: totality and errors. On users of non-negative weight, rate, channel quality, layer count and buffer whose
  HARQ counts are non-negative \<open>int\<close>s the scheduler returns a schedule, except for the two limits, which it checks in
  this order and reports with their messages: every share is a fraction of \<open>n_prb\<close>. The bound on the HARQ counts is
  needed: if for one user that passes the filter (a negative number of active processes passes) the difference
  of the two counts leaves the range of \<open>int\<close>, the run is undefined.\<close>

theorem schedule_total:
  assumes "list_all ue_ok ues" "sc_n_prb cfg < 2147483648"
    and "list_ex (\<lambda>ue. passes cfg ue \<and> \<not> int_ok (ue_harq_max ue - ue_harq_active ue)) bad"
  shows "(\<exists>r. schedule cfg ues =
      (if sc_n_prb cfg \<le> 0 then Inl (Error ''n_prb must be > 0'')
       else if sc_max_ues cfg \<le> 0 then Inl (Error ''max_ues must be > 0'') else Inr r)) \<and>
    schedule cfg bad =
      (if sc_n_prb cfg \<le> 0 then Inl (Error ''n_prb must be > 0'')
       else if sc_max_ues cfg \<le> 0 then Inl (Error ''max_ues must be > 0'') else Inl (Undefined ''signed integer overflow''))"
proof
  show "\<exists>r. schedule cfg ues = (if sc_n_prb cfg \<le> 0 then Inl (Error ''n_prb must be > 0'')
       else if sc_max_ues cfg \<le> 0 then Inl (Error ''max_ues must be > 0'') else Inr r)"
    using schedule_succeeds [OF _ assms(2) _ assms(1)] by (cases "0 < sc_n_prb cfg \<and> 0 < sc_max_ues cfg") (auto simp: schedule_def)
qed (auto simp: schedule_def metric_overflows [OF assms(3)])

theorem schedule_total_witness:
  "(\<exists>r. schedule default_scheduler [default_ue, default_ue\<lparr>ue_id := 7\<rparr>] = Inr r) \<and>
   schedule default_scheduler [default_ue, default_ue\<lparr>ue_harq_active := -1, ue_harq_max := 2147483647\<rparr>] =
     Inl (Undefined ''signed integer overflow'')"
  using schedule_total [of "[default_ue, default_ue\<lparr>ue_id := 7\<rparr>]" default_scheduler
      "[default_ue, default_ue\<lparr>ue_harq_active := -1, ue_harq_max := 2147483647\<rparr>]"]
  by (simp add: default_scheduler_def default_ue_def ue_ok_def passes_def int_ok_def)

text \<open>The replay hash separates seeds: two runs on the same users that differ only in the seed make
  the same allocations and have the same hash exactly when the seeds are equal.\<close>

theorem schedule_replay_hash:
  assumes "schedule (cfg\<lparr>sc_seed := a\<rparr>) ues = Inr r" "schedule (cfg\<lparr>sc_seed := b\<rparr>) ues = Inr r'"
  shows "sch_allocations r = sch_allocations r' \<and> (sch_hash r = sch_hash r' \<longleftrightarrow> a = b)"
proof -
  have pack: "pack (cfg\<lparr>sc_seed := s\<rparr>) = pack cfg" for s
  proof (intro ext)
    have sh: "share (cfg\<lparr>sc_seed := s\<rparr>) = share cfg" by (intro ext) (simp add: share_def)
    show "pack (cfg\<lparr>sc_seed := s\<rparr>) x us c rem = pack cfg x us c rem" for x us c rem
      by (induction us arbitrary: c rem) (simp_all add: Let_def sh cong: if_cong)
  qed
  have rank: "ranked (cfg\<lparr>sc_seed := s\<rparr>) ues = ranked cfg ues"
    "filter (\<lambda>ue. \<not> passes (cfg\<lparr>sc_seed := s\<rparr>) ue) ues = filter (\<lambda>ue. \<not> passes cfg ue) ues" for s
    by (simp_all add: ranked_def passes_def [abs_def])
  show ?thesis
    using assms by (auto simp: schedule_def Let_def pack rank and_then_Inr_iff dest: hash_fold_inj split: if_split_asm)
qed

lemma default_succeeds: "\<exists>r. schedule default_scheduler [default_ue] = Inr r"
  by (rule schedule_succeeds) (simp_all add: default_scheduler_def default_ue_def ue_ok_def)

theorem schedule_packs_witness:
  "\<exists>r. schedule default_scheduler [default_ue] = Inr r \<and> (\<Sum>a\<leftarrow>sch_allocations r. al_count a) = 50"
proof -
  have "passes default_scheduler default_ue" by (simp add: passes_def default_scheduler_def default_ue_def)
  then have f: "filter (passes default_scheduler) [default_ue] = [default_ue]" by simp
  obtain r where r: "schedule default_scheduler [default_ue] = Inr r" using default_succeeds by blast
  with schedule_packs [OF r] f show ?thesis by (simp add: default_scheduler_def)
qed

theorem schedule_selects_best_witness:
  "\<exists>r. schedule default_scheduler [default_ue] = Inr r \<and> sch_filtered r = []"
proof -
  have "passes default_scheduler default_ue" by (simp add: passes_def default_scheduler_def default_ue_def)
  then have f: "filter (passes default_scheduler) [default_ue] = [default_ue]"
    "filter (\<lambda>ue. \<not> passes default_scheduler ue) [default_ue] = []" by simp_all
  obtain r where r: "schedule default_scheduler [default_ue] = Inr r" using default_succeeds by blast
  with schedule_selects_best [OF r] f show ?thesis by auto
qed

theorem schedule_replay_hash_witness:
  "\<exists>r r'. schedule (default_scheduler\<lparr>sc_seed := 1\<rparr>) [] = Inr r \<and> schedule (default_scheduler\<lparr>sc_seed := 2\<rparr>) [] = Inr r' \<and>
     sch_hash r \<noteq> sch_hash r'"
proof -
  obtain r r' where r: "schedule (default_scheduler\<lparr>sc_seed := 1\<rparr>) [] = Inr r" "schedule (default_scheduler\<lparr>sc_seed := 2\<rparr>) [] = Inr r'"
    by (simp add: schedule_def ranked_def default_scheduler_def)
  with schedule_replay_hash [OF r] show ?thesis by auto
qed

lemma default_metric:
  "metric (default_ue\<lparr>ue_id := i, ue_rate := x\<rparr>) True = x * metric default_ue True"
  "metric default_ue True = 1990989 / 625000"
  by (simp_all add: metric_def metric_at_def pf_metric_def default_ue_def)

text \<open>A selected user can be left without resource blocks although there are more blocks than users:
  with the default configuration (50 blocks, at most 4 users) and one user of high rate the counts
  are 49, 1, 0 and 0.\<close>

theorem schedule_zero_blocks:
  "\<exists>r. schedule default_scheduler (default_ue\<lparr>ue_id := 1, ue_rate := 1000\<rparr> #
       map (\<lambda>i. default_ue\<lparr>ue_id := i, ue_rate := 1\<rparr>) [2, 3, 4]) = Inr r \<and>
     sch_selected r = [1, 2, 3, 4] \<and> map al_count (sch_allocations r) = [49, 1, 0, 0]"
proof -
  let ?U = "\<lambda>i x. default_ue\<lparr>ue_id := i, ue_rate := x\<rparr>"
  let ?ues = "?U 1 1000 # map (\<lambda>i. ?U i 1) [2, 3, 4]"
  have cfg: "sc_n_prb default_scheduler = 50" "sc_max_ues default_scheduler = 4" "sc_qos default_scheduler"
    by (simp_all add: default_scheduler_def)
  have pass: "passes default_scheduler (?U i x)" for i x
    by (simp add: passes_def default_scheduler_def default_ue_def)
  obtain K where K: "metric (?U i x) True = x * K" "1 / 1000000000 \<le> K" for i x
    using default_metric by (intro that [of "1990989 / 625000"]) simp_all
  have comp: "composite_metric (?U i x) True = Inr (x * K)" for i x
    using K(1) [of x i] by (simp add: composite_metric_def metric_def default_ue_def int_ok_def)
  have ranked: "ranked default_scheduler ?ues = ?ues"
    using K(2) by (simp add: ranked_def pass cfg K(1))
  have sum: "foldl (\<lambda>s ue. s + max (1 / 1000000000) (metric ue True)) 0 ?ues = 1003 * K"
    using K(2) by (simp add: K(1) max_def)
  have fl: "\<lfloor>50000 / 1003 :: real\<rfloor> = 49" "\<lfloor>50 / 1003 :: real\<rfloor> = 0" by (simp_all add: floor_eq_iff)
  have share: "share default_scheduler (1000 * K) (1003 * K) = Inr 49" "share default_scheduler K (1003 * K) = Inr 0"
    using K(2) fl by (simp_all add: share_def cfg int_ok_def)
  show ?thesis
    unfolding schedule_def ranked Let_def
    using sum by (simp add: cfg pass comp K(1) share Let_def del: foldl_Cons)
qed

end
