(* ===== verification/Deadline.thy ===== *)
theory Deadline
  imports CInt "HOL-Library.Multiset"
begin

text \<open>
  The slot deadline model of \<open>include/nr_bb/deadline.hpp\<close> and \<open>src/deadline.cpp\<close>: order
  statistics and miss ratio of a list of timings, on exact reals. The two constant strings of the
  report (\<open>timing_source\<close>, \<open>gpu_claim\<close>) carry no state; they are in the file that
  \<open>Reports\<close> writes.
\<close>

section \<open>The code\<close>

record numerology_config =
  nc_mu :: int
  nc_slot_us :: real

record deadline_report =
  dr_mu :: int
  dr_slot_us :: real
  dr_deadline_us :: real
  dr_median :: real
  dr_p90 :: real
  dr_p95 :: real
  dr_p99 :: real
  dr_max :: real
  dr_samples :: int
  dr_misses :: int
  dr_miss_ratio :: real

definition slot_duration_us_for_mu :: "int \<Rightarrow> real result" where
  "slot_duration_us_for_mu mu =
     and_then (require (mu \<ge> 0 \<and> mu \<le> 4) ''mu must be 0..4'') (\<lambda>_. Inr (1000 / of_int (push_bit (nat mu) 1)))"

definition pct :: "real list \<Rightarrow> real \<Rightarrow> real" where
  "pct us p = us ! nat \<lfloor>p * of_nat (length us - 1)\<rfloor>"

definition evaluate_deadlines :: "real list \<Rightarrow> numerology_config \<Rightarrow> real \<Rightarrow> deadline_report result" where
  "evaluate_deadlines sample_us cfg fraction =
     and_then (require (fraction > 0 \<and> fraction \<le> 1) ''deadline_fraction'') (\<lambda>_.
     and_then (if nc_slot_us cfg > 0 then Inr (nc_slot_us cfg) else slot_duration_us_for_mu (nc_mu cfg)) (\<lambda>slot.
     let deadline = slot * fraction;
         r = \<lparr>dr_mu = nc_mu cfg, dr_slot_us = slot, dr_deadline_us = deadline, dr_median = 0, dr_p90 = 0, dr_p95 = 0,
              dr_p99 = 0, dr_max = 0, dr_samples = to_int32 (length sample_us), dr_misses = 0, dr_miss_ratio = 0\<rparr>
     in if sample_us = [] then Inr r
        else let us = sort sample_us;
                 misses = foldl (\<lambda>n v. if v > deadline then n + 1 else n) 0 us
             in Inr (r\<lparr>dr_median := pct us (50 / 100), dr_p90 := pct us (90 / 100), dr_p95 := pct us (95 / 100),
                       dr_p99 := pct us (99 / 100), dr_max := last us, dr_misses := misses,
                       dr_miss_ratio := of_int misses / of_nat (length us)\<rparr>)))"

section \<open>Lemmas\<close>

lemma pct_index:
  assumes "us \<noteq> []" "0 \<le> p" "p \<le> 1"
  shows "nat \<lfloor>p * of_nat (length us - 1)\<rfloor> \<le> length us - 1"
proof -
  have "p * of_nat (length us - 1) \<le> 1 * of_nat (length us - 1)"
    using assms(3) by (intro mult_right_mono) simp_all
  then show ?thesis by (simp add: floor_le_iff nat_le_iff)
qed

lemma pct_mono:
  assumes "sorted us" "us \<noteq> []" "0 \<le> p" "p \<le> q" "q \<le> 1"
  shows "pct us p \<le> pct us q" "pct us q \<le> last us" "pct us p \<in> set us"
proof -
  define f where "f x = nat \<lfloor>x * of_nat (length us - 1)\<rfloor>" for x :: real
  have pct: "pct us x = us ! f x" for x by (simp only: pct_def f_def)
  have "f p \<le> f q" unfolding f_def
    using assms(4) by (intro nat_mono floor_mono mult_right_mono) simp_all
  moreover have le: "f x \<le> length us - 1" if "0 \<le> x" "x \<le> 1" for x
    unfolding f_def by (rule pct_index [OF assms(2) that])
  have "f q \<le> length us - 1" using assms(3-5) by (intro le) simp_all
  moreover have "length us - 1 < length us" using assms(2) by (cases us) simp_all
  ultimately have "f p \<le> f q" "f q \<le> length us - 1" "f p < length us" "f q < length us" "length us - 1 < length us"
    by linarith+
  then show "pct us p \<le> pct us q" "pct us q \<le> last us" "pct us p \<in> set us"
    using assms(1,2) by (auto simp: pct last_conv_nth intro!: sorted_nth_mono)
qed

lemma count_misses: "foldl (\<lambda>n v. if v > d then n + 1 else n) k us = k + int (length (filter (\<lambda>v. v > d) us))" for k :: int
  by (induction us arbitrary: k) simp_all

lemma evaluate_eq:
  assumes "evaluate_deadlines samples cfg fraction = Inr r" "samples \<noteq> []"
  shows "dr_median r = pct (sort samples) (50 / 100) \<and> dr_p90 r = pct (sort samples) (90 / 100) \<and>
    dr_p95 r = pct (sort samples) (95 / 100) \<and> dr_p99 r = pct (sort samples) (99 / 100) \<and> dr_max r = last (sort samples) \<and>
    dr_misses r = int (length (filter (\<lambda>v. v > dr_deadline_us r) samples)) \<and>
    dr_miss_ratio r = dr_misses r / length samples \<and> dr_deadline_us r = dr_slot_us r * fraction \<and> 0 < dr_slot_us r"
proof -
  have "length (filter (\<lambda>v. v > d) (sort samples)) = length (filter (\<lambda>v. v > d) samples)" for d
    by (metis mset_sort mset_filter size_mset)
  then show ?thesis
    using assms by (auto simp: evaluate_deadlines_def slot_duration_us_for_mu_def Let_def and_then_Inr_iff count_misses split: if_splits)
qed

text \<open>The rank of a sample: at most \<open>k\<close> samples are smaller, and more than \<open>k\<close> are not larger. It does not depend
  on the order of the samples.\<close>

definition has_rank :: "real list \<Rightarrow> real \<Rightarrow> nat \<Rightarrow> bool" where
  "has_rank xs v k \<longleftrightarrow> length (filter (\<lambda>x. x < v) xs) \<le> k \<and> k < length (filter (\<lambda>x. x \<le> v) xs)"

lemma has_rank_sort [simp]: "has_rank (sort xs) v k = has_rank xs v k"
proof -
  have "length (filter P (sort xs)) = length (filter P xs)" for P by (metis mset_sort mset_filter size_mset)
  then show ?thesis by (simp add: has_rank_def)
qed

lemma has_rank_nth:
  assumes "sorted us" "k < length us"
  shows "has_rank us (us ! k) k"
proof -
  have "length (filter (\<lambda>x. x < us ! k) us) = card {i. i < length us \<and> us ! i < us ! k}" by (rule length_filter_conv_card)
  also have "\<dots> \<le> card {..<k}"
    using sorted_nth_mono [OF assms(1), of k] by (intro card_mono) (auto simp: not_less [symmetric] intro: ccontr)
  finally have "length (filter (\<lambda>x. x < us ! k) us) \<le> k" by simp
  moreover have "card {..k} \<le> card {i. i < length us \<and> us ! i \<le> us ! k}"
    using sorted_nth_mono [OF assms(1) _ assms(2)] assms(2) by (intro card_mono) auto
  then have "k < length (filter (\<lambda>x. x \<le> us ! k) us)" by (simp add: length_filter_conv_card)
  ultimately show ?thesis by (simp add: has_rank_def)
qed

definition pct_rank :: "nat \<Rightarrow> real \<Rightarrow> nat" where
  "pct_rank n p = nat \<lfloor>p * of_nat (n - 1)\<rfloor>"

lemma pct_has_rank:
  assumes "samples \<noteq> []" "0 \<le> p" "p \<le> 1"
  shows "has_rank samples (pct (sort samples) p) (pct_rank (length samples) p)"
proof -
  let ?us = "sort samples"
  have us: "?us \<noteq> []" using assms(1) by (metis length_0_conv length_sort)
  have "length ?us - 1 < length ?us" using assms(1) by (simp add: diff_less)
  then have "pct_rank (length samples) p < length ?us" using pct_index [OF us assms(2,3)] unfolding pct_rank_def length_sort by linarith
  from has_rank_nth [OF sorted_sort this] show ?thesis by (simp add: pct_def pct_rank_def)
qed

section \<open>Properties\<close>

text \<open>C37: the deadline report. It fails exactly on a fraction outside \<open>(0, 1]\<close> and on a numerology outside 0 to 4 that no
  explicit slot length replaces. Otherwise the deadline is the fraction of that slot length or of \<open>1000 / 2 ^ mu\<close> microseconds; each percentile
  is a sample whose rank among the samples is the integer part of its share of \<open>n - 1\<close>, and the maximum the one of rank \<open>n - 1\<close>; the
  misses are the samples later than the deadline, the ratio is their share, and it is zero iff the maximum meets the deadline.\<close>

theorem evaluate_deadlines_ok:
  assumes "samples \<noteq> []"
  shows "\<exists>r. evaluate_deadlines samples cfg fraction =
      (if fraction \<le> 0 \<or> 1 < fraction then Inl (Error ''deadline_fraction'')
       else if nc_slot_us cfg \<le> 0 \<and> (nc_mu cfg < 0 \<or> 4 < nc_mu cfg) then Inl (Error ''mu must be 0..4'') else Inr r) \<and>
    dr_slot_us r = (if 0 < nc_slot_us cfg then nc_slot_us cfg else 1000 / 2 ^ nat (nc_mu cfg)) \<and>
    dr_deadline_us r = fraction * dr_slot_us r \<and>
    {dr_median r, dr_p90 r, dr_p95 r, dr_p99 r, dr_max r} \<subseteq> set samples \<and>
    has_rank samples (dr_median r) (pct_rank (length samples) (50 / 100)) \<and>
    has_rank samples (dr_p90 r) (pct_rank (length samples) (90 / 100)) \<and>
    has_rank samples (dr_p95 r) (pct_rank (length samples) (95 / 100)) \<and>
    has_rank samples (dr_p99 r) (pct_rank (length samples) (99 / 100)) \<and>
    has_rank samples (dr_max r) (length samples - 1) \<and>
    dr_misses r = int (length (filter (\<lambda>v. dr_deadline_us r < v) samples)) \<and>
    dr_miss_ratio r = dr_misses r / length samples \<and> (dr_miss_ratio r = 0 \<longleftrightarrow> dr_max r \<le> dr_deadline_us r)"
proof -
  let ?us = "sort samples" and ?slot = "if 0 < nc_slot_us cfg then nc_slot_us cfg else 1000 / 2 ^ nat (nc_mu cfg)"
  define k where "k = length (filter (\<lambda>v. ?slot * fraction < v) samples)"
  define r where "r = \<lparr>dr_mu = nc_mu cfg, dr_slot_us = ?slot, dr_deadline_us = ?slot * fraction, dr_median = pct ?us (50 / 100),
    dr_p90 = pct ?us (90 / 100), dr_p95 = pct ?us (95 / 100), dr_p99 = pct ?us (99 / 100), dr_max = last ?us,
    dr_samples = to_int32 (length samples), dr_misses = int k, dr_miss_ratio = k / length samples\<rparr>"
  have us: "sorted ?us" "?us \<noteq> []" "set ?us = set samples" using assms by (auto simp flip: set_empty)
  have "length (filter (\<lambda>v. v > d) ?us) = length (filter (\<lambda>v. v > d) samples)" for d
    by (metis mset_sort mset_filter size_mset)
  then have eval: "evaluate_deadlines samples cfg fraction =
      (if fraction \<le> 0 \<or> 1 < fraction then Inl (Error ''deadline_fraction'')
       else if nc_slot_us cfg \<le> 0 \<and> (nc_mu cfg < 0 \<or> 4 < nc_mu cfg) then Inl (Error ''mu must be 0..4'') else Inr r)"
    using assms by (auto simp: evaluate_deadlines_def slot_duration_us_for_mu_def r_def k_def Let_def count_misses push_bit_eq_mult)
  have mx: "last ?us = ?us ! (length samples - 1)" using us(2) by (simp add: last_conv_nth)
  then have rank: "has_rank samples (last ?us) (length samples - 1)"
    using has_rank_nth [OF us(1), of "length samples - 1"] assms by simp
  have le: "v \<le> last ?us" if v: "v \<in> set samples" for v
  proof -
    from v obtain i where "i < length ?us" "?us ! i = v" unfolding us(3) [symmetric] in_set_conv_nth by blast
    then show ?thesis unfolding mx using sorted_nth_mono [OF us(1), of i "length samples - 1"] by simp
  qed
  have "last ?us \<in> set samples" using us by (metis last_in_set)
  then have "k = 0 \<longleftrightarrow> last ?us \<le> ?slot * fraction" using le by (force simp: k_def filter_empty_conv not_less)
  moreover have "{pct ?us (50 / 100), pct ?us (90 / 100), pct ?us (95 / 100), pct ?us (99 / 100), last ?us} \<subseteq> set samples"
    using pct_mono(3) [OF us(1,2), of _ 1] \<open>last ?us \<in> set samples\<close> us(3) by simp
  ultimately show ?thesis
    by (intro exI [of _ r], rule_tac conjI [OF eval]) (use assms rank in \<open>simp add: r_def k_def pct_has_rank mult.commute\<close>)
qed

theorem evaluate_deadlines_ok_witness:
  "\<exists>r. evaluate_deadlines [300, 1200, 500] \<lparr>nc_mu = 0, nc_slot_us = 0\<rparr> 1 = Inr r \<and> dr_deadline_us r = 1000 \<and> dr_misses r = 1 \<and>
    has_rank [300, 1200, 500] (dr_median r) 1"
proof -
  have ne: "[300, 1200, 500] \<noteq> ([] :: real list)" and rank: "pct_rank (Suc (Suc (Suc 0))) (1 / 2) = Suc 0" by (simp_all add: pct_rank_def)
  show ?thesis
  proof (rule exE [OF evaluate_deadlines_ok [OF ne, of "\<lparr>nc_mu = 0, nc_slot_us = 0\<rparr>" 1]], goal_cases)
    case (1 r)
    then have "evaluate_deadlines [300, 1200, 500] \<lparr>nc_mu = 0, nc_slot_us = 0\<rparr> 1 = Inr r" "dr_deadline_us r = 1000"
      "dr_misses r = 1" "has_rank [300, 1200, 500] (dr_median r) 1" by (simp_all add: rank)
    then show ?case by blast
  qed
qed

end
