(* ===== verification/LayerMapping.thy ===== *)
theory LayerMapping
  imports Prelude
begin

text \<open>
  \<open>include/nr_bb/layer_mapping.hpp\<close> and \<open>src/layer_mapping.cpp\<close>: round-robin mapping of
  symbols to 1, 2 or 4 layers and its inverse. The symbols are complex numbers in the code; the
  functions only move them, so the model leaves their type open.
\<close>

section \<open>The code\<close>

definition layer_map :: "'a list \<Rightarrow> int \<Rightarrow> 'a list list result" where
  "layer_map symbols n_layers =
     and_then (require (n_layers = 1 \<or> n_layers = 2 \<or> n_layers = 4) ''n_layers must be 1,2,4'')
       (\<lambda>_. and_then (require (length symbols mod nat n_layers = 0)
                        ''symbol count not divisible by layers'')
       (\<lambda>_. let n_sym = length symbols div nat n_layers in
            Inr (map (\<lambda>l. map (\<lambda>t. symbols ! (t * nat n_layers + l)) [0..<n_sym])
                     [0..<nat n_layers])))"

definition layer_demap :: "'a list list \<Rightarrow> 'a list result" where
  "layer_demap layers =
     and_then (require (layers \<noteq> []) ''no layers'')
       (\<lambda>_. let n_sym = length (layers ! 0) in
            and_then (require (\<forall>L\<in>set layers. length L = n_sym) ''layer length mismatch'')
              (\<lambda>_. Inr (concat (map (\<lambda>t. map (\<lambda>L. L ! t) layers) [0..<n_sym]))))"

section \<open>Lemmas\<close>

lemma length_concat_rows: "(\<And>t. t < T \<Longrightarrow> length (f t) = n) \<Longrightarrow> length (concat (map f [0..<T])) = T * n"
  by (induction T) simp_all

lemma nth_concat_rows:
  "(\<And>t. t < T \<Longrightarrow> length (f t) = n) \<Longrightarrow> t < T \<Longrightarrow> l < n \<Longrightarrow>
   concat (map f [0..<T]) ! (t * n + l) = f t ! l"
proof (induction T)
  case (Suc T)
  have len: "length (concat (map f [0..<T])) = T * n"
    using Suc.prems(1) by (intro length_concat_rows) simp
  show ?case
  proof (cases "t = T")
    case True
    with len show ?thesis by (simp add: nth_append)
  next
    case False
    with Suc.prems have t: "Suc t \<le> T" by simp
    have "t * n + l < Suc t * n" using Suc.prems(3) by simp
    also have "\<dots> \<le> T * n" using t by (rule mult_le_mono1)
    finally have "t * n + l < T * n" .
    with Suc t len show ?thesis by (simp add: nth_append)
  qed
qed simp

lemma layer_map_ok:
  assumes "n = 1 \<or> n = 2 \<or> n = 4" "length symbols = T * nat n"
  shows "layer_map symbols n =
    Inr (map (\<lambda>l. map (\<lambda>t. symbols ! (t * nat n + l)) [0..<T]) [0..<nat n])"
  using assms by (auto simp: layer_map_def)

lemma layer_demap_ok:
  assumes "layers \<noteq> []" "\<And>L. L \<in> set layers \<Longrightarrow> length L = T"
  shows "layer_demap layers = Inr (concat (map (\<lambda>t. map (\<lambda>L. L ! t) layers) [0..<T]))"
  using assms by (auto simp: layer_demap_def Let_def)

lemma layer_map_Inr:
  assumes "layer_map symbols n = Inr layers"
  shows "n = 1 \<or> n = 2 \<or> n = 4" "length symbols = (length symbols div nat n) * nat n"
    "layers = map (\<lambda>l. map (\<lambda>t. symbols ! (t * nat n + l)) [0..<length symbols div nat n]) [0..<nat n]"
  using assms by (auto simp: layer_map_def Let_def split: if_splits)

section \<open>Properties\<close>

text \<open>Demapping undoes mapping: whenever \<open>layer_map\<close> succeeds, \<open>layer_demap\<close> of its layers is
  the original symbol sequence; the layers number \<open>n_layers\<close> and all have the same length.\<close>

theorem layer_demap_map:
  assumes "layer_map symbols n = Inr layers"
  shows "layer_demap layers = Inr symbols \<and> length layers = nat n \<and>
    (\<forall>L\<in>set layers. length L * nat n = length symbols)"
proof -
  note m = layer_map_Inr [OF assms]
  define T where "T = length symbols div nat n"
  have T: "length symbols = T * nat n" and ls: "layers = map (\<lambda>l. map (\<lambda>t. symbols ! (t * nat n + l)) [0..<T]) [0..<nat n]"
    using m(2,3) by (simp_all add: T_def)
  have pos: "0 < nat n" using m(1) by auto
  have "layer_demap layers = Inr (concat (map (\<lambda>t. map (\<lambda>L. L ! t) layers) [0..<T]))"
    by (rule layer_demap_ok) (use pos ls in auto)
  moreover have "concat (map (\<lambda>t. map (\<lambda>L. L ! t) layers) [0..<T]) = symbols" (is "concat ?xs = _")
  proof (rule nth_equalityI)
    show l: "length (concat ?xs) = length symbols"
      using T ls by (subst length_concat_rows [where n = "nat n"]) simp_all
    fix i assume "i < length (concat ?xs)"
    with l T have i: "i < T * nat n" by simp
    with pos have i': "i div nat n < T" "i mod nat n < nat n" by (simp_all add: less_mult_imp_div_less)
    then have "concat ?xs ! (i div nat n * nat n + i mod nat n) = symbols ! (i div nat n * nat n + i mod nat n)"
      using ls by (subst nth_concat_rows) simp_all
    then show "concat ?xs ! i = symbols ! i" by simp
  qed
  ultimately show ?thesis using ls T by auto
qed

theorem layer_demap_map_witness:
  "layer_demap [[1, 3, 5], [2, 4, 6 :: nat]] = Inr [1, 2, 3, 4, 5, 6]"
  using layer_demap_map [of "[1, 2, 3, 4, 5, 6 :: nat]" 2 "[[1, 3, 5], [2, 4, 6]]"]
  by (simp add: layer_map_def upt_rec)

text \<open>Mapping undoes demapping: for 1, 2 or 4 layers of one common length, \<open>layer_demap\<close> succeeds
  and \<open>layer_map\<close> of its result with that number of layers gives the layers back.\<close>

theorem layer_map_demap:
  assumes "length layers \<in> {1, 2, 4}" "\<And>L. L \<in> set layers \<Longrightarrow> length L = T"
  shows "\<exists>symbols. layer_demap layers = Inr symbols \<and>
    layer_map symbols (int (length layers)) = Inr layers"
proof -
  let ?n = "length layers" and ?xs = "map (\<lambda>t. map (\<lambda>L. L ! t) layers) [0..<T]"
  have d: "layer_demap layers = Inr (concat ?xs)"
    by (rule layer_demap_ok) (use assms in auto)
  have "length (concat ?xs) = T * ?n"
    by (rule length_concat_rows) simp
  then have "layer_map (concat ?xs) (int ?n) =
      Inr (map (\<lambda>l. map (\<lambda>t. concat ?xs ! (t * nat (int ?n) + l)) [0..<T]) [0..<nat (int ?n)])"
    using assms(1) by (intro layer_map_ok) auto
  also have "map (\<lambda>l. map (\<lambda>t. concat ?xs ! (t * nat (int ?n) + l)) [0..<T]) [0..<nat (int ?n)] = layers"
    by (rule nth_equalityI; (rule nth_equalityI)?) (use assms(2) in \<open>simp_all add: nth_concat_rows\<close>)
  finally show ?thesis using d by auto
qed

theorem layer_map_demap_witness:
  "\<exists>symbols. layer_demap [[1, 2], [3, 4 :: nat]] = Inr symbols \<and>
     layer_map symbols (int (length [[1, 2], [3, 4 :: nat]])) = Inr [[1, 2], [3, 4]]"
  by (rule layer_map_demap [where T = 2]) auto

end
