(* ===== verification/ChannelEstimation.thy ===== *)
theory ChannelEstimation
  imports CInt
begin

text \<open>
  \<open>include/nr_bb/channel_estimation.hpp\<close> and \<open>src/channel_estimation.cpp\<close>: least-squares estimates
  on the pilots, interpolation over time and frequency, and the one-tap equalisers. The binary search
  for the neighbouring pilots is \<open>pilot_search\<close>. A quotient by zero, which the code can only reach in
  the MMSE equaliser, is the value \<open>None\<close> (a NaN in C++).
\<close>

section \<open>The code\<close>

definition tone_quotient :: "string \<Rightarrow> complex \<Rightarrow> complex \<Rightarrow> complex result" where
  "tone_quotient msg y h =
     and_then (require ((cmod h)\<^sup>2 > 1 / 10 ^ 12) msg) (\<lambda>_. Inr (y / h))"

definition ls_channel_estimate :: "complexvec \<Rightarrow> complexvec \<Rightarrow> complexvec result" where
  "ls_channel_estimate rx_dmrs tx_dmrs =
     and_then (require (length rx_dmrs = length tx_dmrs) ''DMRS size mismatch'') (\<lambda>_.
     mapE (\<lambda>i. tone_quotient ''zero DMRS pilot'' (rx_dmrs ! i) (tx_dmrs ! i)) [0..<length rx_dmrs])"

definition hold_interpolate :: "complexvec \<Rightarrow> int \<Rightarrow> complexvec list result" where
  "hold_interpolate h_sc n_symb =
     and_then (require (n_symb > 0) ''n_symb must be > 0'') (\<lambda>_. Inr (replicate (nat n_symb) h_sc))"

function pilot_search :: "int list \<Rightarrow> int \<Rightarrow> nat \<Rightarrow> nat \<Rightarrow> nat \<times> nat" where
  "pilot_search pilots sc lo hi =
     (if hi - lo > 1
      then let mid = (lo + hi) div 2
           in if pilots ! mid \<le> sc then pilot_search pilots sc mid hi else pilot_search pilots sc lo mid
      else (lo, hi))"
  by pat_completeness auto
termination by (relation "measure (\<lambda>(_, _, lo, hi). hi - lo)") auto

declare pilot_search.simps [simp del]

definition interpolate_tone :: "complexvec \<Rightarrow> int list \<Rightarrow> int \<Rightarrow> complex" where
  "interpolate_tone h_pilots pilots sc =
     (if sc \<le> hd pilots then hd h_pilots
      else if sc \<ge> last pilots then last h_pilots
      else case pilot_search pilots sc 0 (length pilots - 1) of (lo, hi) \<Rightarrow>
        let x0 = real_of_int (pilots ! lo); x1 = real_of_int (pilots ! hi);
            t = (real_of_int sc - x0) / max (1 / 10 ^ 12) (x1 - x0)
        in h_pilots ! lo * complex_of_real (1 - t) + h_pilots ! hi * complex_of_real t)"

definition interpolate_frequency :: "complexvec \<Rightarrow> int list \<Rightarrow> int \<Rightarrow> complexvec result" where
  "interpolate_frequency h_pilots pilots n_sc =
     and_then (require (length h_pilots = length pilots) ''pilot size mismatch'') (\<lambda>_.
     and_then (require (pilots \<noteq> []) ''no pilots'') (\<lambda>_.
     and_then (require (n_sc > 0) ''n_sc'') (\<lambda>_.
     Inr (map (\<lambda>sc. interpolate_tone h_pilots pilots (int sc)) [0..<nat n_sc]))))"

definition equalize_zf_tones :: "complexvec \<Rightarrow> complexvec \<Rightarrow> complexvec result" where
  "equalize_zf_tones y H =
     and_then (require (length y = length H) ''ZF size mismatch'') (\<lambda>_.
     mapE (\<lambda>i. tone_quotient ''ZF zero channel'' (y ! i) (H ! i)) [0..<length y])"

definition mmse_tone :: "real \<Rightarrow> complex \<Rightarrow> complex \<Rightarrow> complex option" where
  "mmse_tone noise_var y h =
     (let denom = (cmod h)\<^sup>2 + noise_var in if denom = 0 then None else Some (y * cnj h / complex_of_real denom))"

definition equalize_mmse_tones :: "complexvec \<Rightarrow> complexvec \<Rightarrow> real \<Rightarrow> complex option list result" where
  "equalize_mmse_tones y H noise_var =
     and_then (require (length y = length H) ''MMSE size mismatch'') (\<lambda>_.
     and_then (require (noise_var \<ge> 0) ''noise_var'') (\<lambda>_.
     Inr (map (\<lambda>i. mmse_tone noise_var (y ! i) (H ! i)) [0..<length y])))"

section \<open>Lemmas\<close>

definition strong :: "complexvec \<Rightarrow> bool" where
  "strong H \<longleftrightarrow> list_all (\<lambda>h. (cmod h)\<^sup>2 > 1 / 10 ^ 12) H"

lemma quotients_Inr:
  assumes "strong H" "length y = length H"
  shows "mapE (\<lambda>i. tone_quotient msg (y ! i) (H ! i)) [0..<length H] = Inr (map2 (/) y H)"
proof -
  have "mapE (\<lambda>i. tone_quotient msg (y ! i) (H ! i)) [0..<length H] = Inr (map (\<lambda>i. y ! i / H ! i) [0..<length H])"
    using assms by (intro mapE_Inr) (simp add: tone_quotient_def strong_def list_all_length)
  also have "map (\<lambda>i. y ! i / H ! i) [0..<length H] = map2 (/) y H"
    using assms(2) by (intro nth_equalityI) simp_all
  finally show ?thesis .
qed

lemma ls_channel_estimate_Inr:
  "strong tx \<Longrightarrow> length rx = length tx \<Longrightarrow> ls_channel_estimate rx tx = Inr (map2 (/) rx tx)"
  by (simp add: ls_channel_estimate_def quotients_Inr)

lemma equalize_zf_tones_Inr: "strong H \<Longrightarrow> length y = length H \<Longrightarrow> equalize_zf_tones y H = Inr (map2 (/) y H)"
  by (simp add: equalize_zf_tones_def quotients_Inr)

lemma strong_nonzero: "strong H \<Longrightarrow> i < length H \<Longrightarrow> H ! i \<noteq> 0"
  by (auto simp: strong_def list_all_length)

text \<open>The search ends on neighbouring pilots around the subcarrier.\<close>

lemma pilot_search_brackets:
  assumes "lo < hi" "hi < length pilots" "pilots ! lo \<le> sc" "sc < pilots ! hi"
  shows "\<exists>i. pilot_search pilots sc lo hi = (i, Suc i) \<and> Suc i < length pilots \<and> pilots ! i \<le> sc \<and> sc < pilots ! Suc i"
  using assms
proof (induction pilots sc lo hi rule: pilot_search.induct)
  case (1 pilots sc lo hi)
  show ?case
  proof (cases "hi - lo > 1")
    case True
    then show ?thesis
      using "1.IH" [OF True refl] "1.prems" by (subst pilot_search.simps) (auto simp: Let_def)
  next
    case False
    then have "hi = Suc lo" using "1.prems"(1) by simp
    with False "1.prems" show ?thesis by (subst pilot_search.simps) simp
  qed
qed

lemma pilots_le:
  assumes "sorted_wrt (<) pilots" "j \<le> k" "k < length pilots"
  shows "pilots ! j \<le> (pilots ! k :: int)"
  using assms sorted_wrt_nth_less [OF assms(1), of j k] by (cases "j = k") auto

lemma pilot_interval_unique:
  assumes "sorted_wrt (<) pilots" "Suc i < length pilots" "Suc j < length pilots"
    and "pilots ! i \<le> (sc :: int)" "sc < pilots ! Suc i" "pilots ! j \<le> sc" "sc < pilots ! Suc j"
  shows "i = j"
proof (rule ccontr)
  assume "i \<noteq> j"
  then have "Suc i \<le> j \<or> Suc j \<le> i" by linarith
  then show False using pilots_le [OF assms(1), of "Suc i" j] pilots_le [OF assms(1), of "Suc j" i] assms(2-7) by auto
qed

lemma interpolate_inside:
  assumes "pilot_search pilots sc 0 (length pilots - 1) = (i, Suc i)" "hd pilots < sc" "sc < last pilots" "pilots ! i < pilots ! Suc i"
    and "pilots \<noteq> []" "h \<noteq> []"
  shows "interpolate_tone h pilots sc =
    h ! i + (h ! Suc i - h ! i) * (of_int (sc - pilots ! i) / of_int (pilots ! Suc i - pilots ! i))"
proof -
  define t where "t = (real_of_int sc - real_of_int (pilots ! i)) / (real_of_int (pilots ! Suc i) - real_of_int (pilots ! i))"
  have "1 \<le> real_of_int (pilots ! Suc i) - real_of_int (pilots ! i)" using assms(4) by simp
  then have "max (1 / 10 ^ 12) (real_of_int (pilots ! Suc i) - real_of_int (pilots ! i)) =
      real_of_int (pilots ! Suc i) - real_of_int (pilots ! i)" by (simp add: max_def)
  then have "interpolate_tone h pilots sc = h ! i * complex_of_real (1 - t) + h ! Suc i * complex_of_real t"
    using assms(1-3,5,6) by (simp add: interpolate_tone_def Let_def t_def)
  also have "\<dots> = h ! i + (h ! Suc i - h ! i) * complex_of_real t" by (simp add: algebra_simps)
  also have "complex_of_real t = of_int (sc - pilots ! i) / of_int (pilots ! Suc i - pilots ! i)" by (simp add: t_def)
  finally show ?thesis .
qed

lemma interpolate_between:
  assumes "length h = length pilots" "sorted_wrt (<) pilots" "Suc i < length pilots" "pilots ! i \<le> sc" "sc < pilots ! Suc i"
  shows "interpolate_tone h pilots sc =
    h ! i + (h ! Suc i - h ! i) * (of_int (sc - pilots ! i) / of_int (pilots ! Suc i - pilots ! i))"
proof -
  have inc: "pilots ! j < pilots ! k" if "j < k" "k < length pilots" for j k
    using assms(2) that by (simp add: sorted_wrt_iff_nth_less)
  have ne: "pilots \<noteq> []" "h \<noteq> []" using assms(1,3) by auto
  have first: "hd pilots = pilots ! 0" "hd h = h ! 0" and end': "last pilots = pilots ! (length pilots - 1)"
    using ne by (simp_all add: hd_conv_nth last_conv_nth)
  have "pilots ! Suc i \<le> last pilots"
    unfolding end' using assms(3) by (intro pilots_le [OF assms(2)]) simp_all
  then have high: "sc < last pilots" using assms(5) by simp
  show ?thesis
  proof (cases "sc \<le> hd pilots")
    case True
    then have "i = 0" using inc [of 0 i] assms(3,4) first(1) by (cases i) auto
    then show ?thesis using True assms(4) first by (simp add: interpolate_tone_def)
  next
    case False
    have "0 < length pilots - 1" "length pilots - 1 < length pilots" "pilots ! 0 \<le> sc" "sc < pilots ! (length pilots - 1)"
      using assms(3) False high first(1) end' by simp_all
    from pilot_search_brackets [OF this] obtain j where j: "pilot_search pilots sc 0 (length pilots - 1) = (j, Suc j)" "Suc j < length pilots"
      "pilots ! j \<le> sc" "sc < pilots ! Suc j" by blast
    have "j = i" by (rule pilot_interval_unique [OF assms(2) j(2) assms(3) j(3,4) assms(4,5)])
    with j(1) show ?thesis using False high inc [of i "Suc i"] assms(3) ne by (intro interpolate_inside) simp_all
  qed
qed

section \<open>Properties\<close>

text \<open>C31: frequency interpolation: on strictly increasing pilots it never fails for a positive width, holds
  the first and the last pilot value outside the pilots, and between two neighbouring pilots it is the
  straight line through their values, so that the value at a pilot is the pilot's own.\<close>

theorem interpolate_frequency_linear:
  assumes "length h = length pilots" "pilots \<noteq> []" "sorted_wrt (<) pilots" "0 < n_sc"
  shows "\<exists>H. interpolate_frequency h pilots n_sc = Inr H \<and> length H = nat n_sc \<and>
    (\<forall>sc<nat n_sc.
      (int sc \<le> pilots ! 0 \<longrightarrow> H ! sc = h ! 0) \<and>
      (pilots ! (length pilots - 1) \<le> int sc \<and> pilots ! 0 < int sc \<longrightarrow> H ! sc = h ! (length pilots - 1)) \<and>
      (\<forall>i. Suc i < length pilots \<and> pilots ! i \<le> int sc \<and> int sc < pilots ! Suc i \<longrightarrow>
        H ! sc = h ! i + (h ! Suc i - h ! i) * (of_int (int sc - pilots ! i) / of_int (pilots ! Suc i - pilots ! i))))"
proof -
  let ?H = "map (\<lambda>sc. interpolate_tone h pilots (int sc)) [0..<nat n_sc]"
  have "interpolate_frequency h pilots n_sc = Inr ?H" using assms by (simp add: interpolate_frequency_def)
  moreover have "h \<noteq> []" using assms(1,2) by auto
  then have "interpolate_tone h pilots sc = h ! 0" if "sc \<le> pilots ! 0" for sc
    using that assms(2) by (simp add: interpolate_tone_def hd_conv_nth)
  moreover have "interpolate_tone h pilots sc = h ! (length pilots - 1)"
    if "pilots ! (length pilots - 1) \<le> sc" "pilots ! 0 < sc" for sc
    using that assms(1,2) \<open>h \<noteq> []\<close> by (simp add: interpolate_tone_def hd_conv_nth last_conv_nth)
  moreover have "?H ! sc = h ! i + (h ! Suc i - h ! i) * (of_int (int sc - pilots ! i) / of_int (pilots ! Suc i - pilots ! i))"
    if "sc < nat n_sc" "Suc i < length pilots" "pilots ! i \<le> int sc" "int sc < pilots ! Suc i" for sc i
    using interpolate_between [OF assms(1,3) that(2-4)] that(1) by simp
  ultimately show ?thesis by (intro exI [of _ ?H]) (simp del: of_int_diff of_int_of_nat_eq)
qed

theorem interpolate_frequency_linear_witness:
  "\<exists>H. interpolate_frequency [1, 3] [0, 2] 4 = Inr H \<and> H ! 0 = 1 \<and> H ! 1 = 2 \<and> H ! 3 = 3"
proof -
  obtain H where "interpolate_frequency [1, 3] [0, 2] 4 = Inr H"
    and H: "\<And>sc. sc < 4 \<Longrightarrow> (int sc \<le> 0 \<longrightarrow> H ! sc = 1) \<and> (2 \<le> int sc \<and> 0 < int sc \<longrightarrow> H ! sc = 3)"
    "\<And>sc i. sc < 4 \<Longrightarrow> Suc i < 2 \<and> [0, 2] ! i \<le> int sc \<and> int sc < [0, 2] ! Suc i \<Longrightarrow>
       H ! sc = [1, 3] ! i + ([1, 3] ! Suc i - [1, 3] ! i) * (of_int (int sc - [0, 2] ! i) / of_int ([0, 2] ! Suc i - [0, 2] ! i))"
    using interpolate_frequency_linear [of "[1, 3]" "[0, 2]" 4] by auto
  moreover have "H ! 0 = 1" "H ! 3 = 3" using H(1) [of 0] H(1) [of 3] by simp_all
  moreover have "H ! 1 = 2" using H(2) [of 1 0] by simp
  ultimately show ?thesis by blast
qed

text \<open>Pilot-based reception: if every pilot and every channel gain is above the threshold of the code,
  the least-squares estimate of a received pilot block is the channel, and zero forcing with it gives
  back any data block sent over the same channel.\<close>

theorem ls_zf_recovers:
  assumes "strong pilots" "strong H" "length H = length pilots" "length xs = length pilots"
  shows "ls_channel_estimate (map2 (*) H pilots) pilots = Inr H \<and> equalize_zf_tones (map2 (*) H xs) H = Inr xs"
proof -
  have "map2 (/) (map2 (*) H pilots) pilots = H"
    using strong_nonzero [OF assms(1)] assms(3) by (intro nth_equalityI) simp_all
  moreover have "map2 (/) (map2 (*) H xs) H = xs"
    using strong_nonzero [OF assms(2)] assms(3,4) by (intro nth_equalityI) simp_all
  ultimately show ?thesis using assms by (simp add: ls_channel_estimate_Inr equalize_zf_tones_Inr)
qed

theorem ls_zf_recovers_witness:
  "ls_channel_estimate (map2 (*) [2, \<i>] [1, \<i>]) [1, \<i>] = Inr [2, \<i>] \<and> equalize_zf_tones (map2 (*) [2, \<i>] [5, 0]) [2, \<i>] = Inr [5, 0]"
  by (rule ls_zf_recovers) (simp_all add: strong_def)

text \<open>The MMSE equaliser: with no noise it is zero forcing wherever the channel is not zero, and it
  always shrinks the zero-forcing value by the factor \<open>|h|^2 / (|h|^2 + noise_var)\<close>; the only NaN is
  a zero channel without noise.\<close>

theorem mmse_shrinks_zf:
  assumes "length y = length H" "0 \<le> noise_var"
  shows "\<exists>xs. equalize_mmse_tones y H noise_var = Inr xs \<and> length xs = length y \<and>
    (\<forall>i<length y. xs ! i = (if H ! i = 0 \<and> noise_var = 0 then None
      else if H ! i = 0 then Some 0
      else Some (complex_of_real ((cmod (H ! i))\<^sup>2 / ((cmod (H ! i))\<^sup>2 + noise_var)) * (y ! i / H ! i))))"
proof -
  have "mmse_tone noise_var z h = (if h = 0 \<and> noise_var = 0 then None
      else if h = 0 then Some 0
      else Some (complex_of_real ((cmod h)\<^sup>2 / ((cmod h)\<^sup>2 + noise_var)) * (z / h)))" for z h
  proof (cases "h = 0")
    case False
    then have "(cmod h)\<^sup>2 + noise_var \<noteq> 0" using assms(2) by (smt (verit) zero_less_power2 norm_eq_zero)
    moreover have "cnj h = complex_of_real ((cmod h)\<^sup>2) / h" using False by (simp only: complex_norm_square) simp
    ultimately show ?thesis using False by (simp add: mmse_tone_def Let_def mult.commute)
  qed (simp add: mmse_tone_def)
  then show ?thesis using assms by (simp add: equalize_mmse_tones_def)
qed

theorem mmse_shrinks_zf_witness: "\<exists>xs. equalize_mmse_tones [4] [2] 4 = Inr xs \<and> xs ! 0 = Some 1"
  using mmse_shrinks_zf [of "[4]" "[2]" 4] by auto

end
