(* ===== verification/Dmrs.thy ===== *)
theory Dmrs
  imports Scrambling ChannelEstimation
begin

text \<open>
  \<open>include/nr_bb/dmrs.hpp\<close> and \<open>src/dmrs.cpp\<close>: the pilot sequence of one OFDM symbol, QPSK points
  taken from the Gold sequence, and the slot grid that carries it. The loop fills the sequence and the
  pilot row of the grid together (\<open>dmrs_step\<close>); an index expression that leaves \<open>int\<close> is the
  branch \<open>Undefined\<close>.
\<close>

section \<open>The code\<close>

record dmrs_config =
  dm_n_sc :: int
  dm_n_symb :: int
  dm_symb :: int
  dm_c_init :: u32

definition default_dmrs :: dmrs_config where
  "default_dmrs = \<lparr>dm_n_sc = 12, dm_n_symb = 14, dm_symb = 2, dm_c_init = 1\<rparr>"

record dmrs_grid =
  dg_grid :: "complexvec list"
  dg_sequence :: complexvec

definition dmrs_point :: "bitvec \<Rightarrow> nat \<Rightarrow> complex" where
  "dmrs_point bits k =
     (let s = 1 / sqrt 2;
          re = (if bits ! (2 * k) = 0 then 1 else - 1);
          im = (if bits ! (2 * k + 1) = 0 then 1 else - 1)
      in Complex (s * re) (s * im))"

definition dmrs_step :: "nat \<Rightarrow> bitvec \<Rightarrow> dmrs_grid \<Rightarrow> nat \<Rightarrow> dmrs_grid" where
  "dmrs_step symb bits g k =
     (let sq = (dg_sequence g)[k := dmrs_point bits k]
      in g\<lparr>dg_sequence := sq, dg_grid := (dg_grid g)[symb := (dg_grid g ! symb)[k := sq ! k]]\<rparr>)"

definition generate_dmrs :: "dmrs_config \<Rightarrow> dmrs_grid result" where
  "generate_dmrs cfg =
     and_then (require (dm_n_sc cfg > 0 \<and> dm_n_symb cfg > 0) ''invalid DMRS dimensions'') (\<lambda>_.
     and_then (require (dm_symb cfg \<ge> 0 \<and> dm_symb cfg < dm_n_symb cfg) ''dmrs_symb out of range'') (\<lambda>_.
     and_then (int_op (2 * (dm_n_sc cfg - 1) + 1)) (\<lambda>_.
     let n = nat (dm_n_sc cfg); bits = gold_sequence (n * 2) (dm_c_init cfg)
     in Inr (foldl (dmrs_step (nat (dm_symb cfg)) bits)
          \<lparr>dg_grid = replicate (nat (dm_n_symb cfg)) (replicate n 0), dg_sequence = replicate n 0\<rparr> [0..<n]))))"

section \<open>Lemmas\<close>

lemma dmrs_loop:
  assumes "symb < length grid" "length (grid ! symb) = n" "k \<le> n"
  shows "foldl (dmrs_step symb bits) \<lparr>dg_grid = grid, dg_sequence = replicate n 0\<rparr> [0..<k] =
    \<lparr>dg_grid = grid[symb := map (dmrs_point bits) [0..<k] @ drop k (grid ! symb)],
     dg_sequence = map (dmrs_point bits) [0..<k] @ replicate (n - k) 0\<rparr>"
  using assms(3)
proof (induction k)
  case (Suc k)
  have upd: "(us @ x # vs)[length us := y] = us @ y # vs" for us vs and x y :: complex by simp
  have "replicate (n - k) (0::complex) = 0 # replicate (n - Suc k) 0" using Suc.prems by (simp add: Suc_diff_Suc flip: replicate_Suc)
  moreover have "drop k (grid ! symb) = grid ! symb ! k # drop (Suc k) (grid ! symb)"
    using Suc.prems assms(2) by (simp add: Cons_nth_drop_Suc)
  ultimately show ?case
    using Suc assms(1) upd [of "map (dmrs_point bits) [0..<k]" _ _ "dmrs_point bits k"]
    by (simp add: dmrs_step_def Let_def nth_append)
qed (use assms in simp)

definition pilot_row :: "dmrs_config \<Rightarrow> complexvec" where
  "pilot_row cfg = map (dmrs_point (gold_sequence (nat (dm_n_sc cfg) * 2) (dm_c_init cfg))) [0..<nat (dm_n_sc cfg)]"

definition dmrs_ok :: "dmrs_config \<Rightarrow> bool" where
  "dmrs_ok cfg \<longleftrightarrow> 0 < dm_n_sc cfg \<and> dm_n_sc cfg \<le> 1073741824 \<and> 0 \<le> dm_symb cfg \<and> dm_symb cfg < dm_n_symb cfg"

lemma generate_dmrs_Inr:
  assumes "dmrs_ok cfg"
  shows "generate_dmrs cfg =
    Inr \<lparr>dg_grid = (replicate (nat (dm_n_symb cfg)) (replicate (nat (dm_n_sc cfg)) 0))[nat (dm_symb cfg) := pilot_row cfg],
         dg_sequence = pilot_row cfg\<rparr>"
proof -
  have "int_ok (2 * (dm_n_sc cfg - 1) + 1)" using assms by (simp add: dmrs_ok_def int_ok_def)
  then show ?thesis
    using assms dmrs_loop [of "nat (dm_symb cfg)" "replicate (nat (dm_n_symb cfg)) (replicate (nat (dm_n_sc cfg)) 0)"]
    by (simp add: generate_dmrs_def dmrs_ok_def Let_def pilot_row_def)
qed

lemma cmod_dmrs_point: "(cmod (dmrs_point bits k))\<^sup>2 = 1"
  by (simp add: dmrs_point_def Let_def cmod_power2 power_divide)

lemma strong_pilot_row: "strong (pilot_row cfg)"
  by (simp add: strong_def pilot_row_def list_all_length cmod_dmrs_point)

section \<open>Properties\<close>

text \<open>The pilot grid: generation succeeds exactly on positive dimensions with the pilot symbol inside
  the slot (for widths whose bit index fits an \<open>int\<close>); the pilot row is the QPSK image of the Gold
  sequence of TS 38.211, two bits per subcarrier, every other row is zero, and channel estimation over
  any channel succeeds with these pilots and returns the channel.\<close>

theorem generate_dmrs_ok:
  assumes "dm_n_sc cfg \<le> 1073741824"
  shows "if dmrs_ok cfg
    then \<exists>g. generate_dmrs cfg = Inr g \<and> length (dg_grid g) = nat (dm_n_symb cfg) \<and>
      (\<forall>l<nat (dm_n_symb cfg). dg_grid g ! l =
         (if l = nat (dm_symb cfg) then dg_sequence g else replicate (nat (dm_n_sc cfg)) 0)) \<and>
      dg_sequence g = map (\<lambda>k. Complex
         ((if x1_seq (2 * k + 1600) = x2_seq (dm_c_init cfg) (2 * k + 1600) then 1 else - 1) / sqrt 2)
         ((if x1_seq (2 * k + 1601) = x2_seq (dm_c_init cfg) (2 * k + 1601) then 1 else - 1) / sqrt 2)) [0..<nat (dm_n_sc cfg)] \<and>
      (\<forall>H. length H = nat (dm_n_sc cfg) \<longrightarrow> ls_channel_estimate (map2 (*) H (dg_sequence g)) (dg_sequence g) = Inr H)
    else \<exists>msg. generate_dmrs cfg = Inl (Error msg)"
proof (cases "dmrs_ok cfg")
  case True
  have row: "pilot_row cfg = map (\<lambda>k. Complex
         ((if x1_seq (2 * k + 1600) = x2_seq (dm_c_init cfg) (2 * k + 1600) then 1 else - 1) / sqrt 2)
         ((if x1_seq (2 * k + 1601) = x2_seq (dm_c_init cfg) (2 * k + 1601) then 1 else - 1) / sqrt 2)) [0..<nat (dm_n_sc cfg)]"
    unfolding pilot_row_def
    by (rule map_cong) (simp_all add: dmrs_point_def Let_def gold_sequence_eq xor_eq_0_iff add.commute)
  have "ls_channel_estimate (map2 (*) H (pilot_row cfg)) (pilot_row cfg) = Inr H" if "length H = nat (dm_n_sc cfg)" for H
  proof -
    have "length (pilot_row cfg) = nat (dm_n_sc cfg)" by (simp add: pilot_row_def)
    moreover from this that have "map2 (/) (map2 (*) H (pilot_row cfg)) (pilot_row cfg) = H"
      using strong_nonzero [OF strong_pilot_row] by (intro nth_equalityI) simp_all
    ultimately show ?thesis using that by (simp add: ls_channel_estimate_Inr strong_pilot_row)
  qed
  then show ?thesis using True row by (simp add: generate_dmrs_Inr)
next
  case False
  then show ?thesis using assms by (auto simp: generate_dmrs_def dmrs_ok_def)
qed

theorem generate_dmrs_ok_witness:
  "\<exists>g. generate_dmrs default_dmrs = Inr g \<and> length (dg_grid g) = 14 \<and>
    ls_channel_estimate (map2 (*) (replicate 12 2) (dg_sequence g)) (dg_sequence g) = Inr (replicate 12 2)"
proof -
  have "dmrs_ok default_dmrs" "nat (dm_n_sc default_dmrs) = 12" "nat (dm_n_symb default_dmrs) = 14"
    by (simp_all add: dmrs_ok_def default_dmrs_def)
  with generate_dmrs_ok [of default_dmrs] obtain g where "generate_dmrs default_dmrs = Inr g" "length (dg_grid g) = 14"
    "\<And>H. length H = 12 \<Longrightarrow> ls_channel_estimate (map2 (*) H (dg_sequence g)) (dg_sequence g) = Inr H"
    by (auto simp: default_dmrs_def)
  then show ?thesis by auto
qed

end
