(* ===== verification/Channel.thy ===== *)
theory Channel
  imports CInt
begin

text \<open>
  \<open>include/nr_bb/channel.hpp\<close> and \<open>src/channel.cpp\<close>: the scalar channel with carrier offset, integer
  timing offset and noise, and the flat MIMO channel. The values that
  \<open>std::normal_distribution\<close> produces from \<open>std::mt19937\<close> are implementation-defined, so they are
  the parameter \<open>gauss\<close>: \<open>gauss seed sigma k\<close> is the \<open>k\<close>-th value drawn after seeding with \<open>seed\<close>
  from the distribution of mean zero and deviation \<open>sigma\<close>. Nothing is assumed of it. A sample rate
  of zero, which gives NaN samples, is a branch \<open>Undefined\<close>.
\<close>

section \<open>The code\<close>

type_synonym noise_source = "u32 \<Rightarrow> real \<Rightarrow> nat \<Rightarrow> real"

record channel_config =
  ch_snr_db :: real
  ch_cfo :: real
  ch_rate :: real
  ch_timing :: int
  ch_seed :: u32

definition default_channel :: channel_config where
  "default_channel = \<lparr>ch_snr_db = 20, ch_cfo = 0, ch_rate = 1000000, ch_timing = 0, ch_seed = 1\<rparr>"

record mimo_config = channel_config +
  ch_n_tx :: int
  ch_n_rx :: int
  ch_H :: complexvec

definition awgn_sigma :: "real \<Rightarrow> real" where
  "awgn_sigma snr_db = (let snr = 10 powr (snr_db / 10) in 1 / sqrt (2 * snr))"

definition delay_signal :: "complexvec \<Rightarrow> int \<Rightarrow> complexvec result" where
  "delay_signal tx timing =
     (if timing \<ge> 0 then Inr (replicate (nat timing) 0 @ tx)
      else and_then (int_op (- timing)) (\<lambda>d.
           and_then (require (nat d < length tx) ''timing offset drops entire signal'') (\<lambda>_. Inr (drop (nat d) tx))))"

definition rotation :: "real \<Rightarrow> complex" where
  "rotation ang = Complex (cos ang) (sin ang)"

definition apply_siso_channel :: "noise_source \<Rightarrow> complexvec \<Rightarrow> channel_config \<Rightarrow> complexvec result" where
  "apply_siso_channel gauss tx cfg =
     (let g = gauss (ch_seed cfg) (awgn_sigma (ch_snr_db cfg)) in
      and_then (delay_signal tx (ch_timing cfg)) (\<lambda>delayed.
      if ch_rate cfg = 0 \<and> delayed \<noteq> [] then Inl (Undefined ''time is not a number'')
      else Inr (map (\<lambda>n. let t = real n / ch_rate cfg; ang = 2 * pi * ch_cfo cfg * t
                         in delayed ! n * rotation ang + Complex (g (2 * n)) (g (2 * n + 1))) [0..<length delayed])))"

definition mimo_sample :: "(nat \<Rightarrow> real) \<Rightarrow> complexvec list \<Rightarrow> mimo_config \<Rightarrow> nat \<Rightarrow> nat \<Rightarrow> complex" where
  "mimo_sample g tx cfg r t =
     (let sum = foldl (\<lambda>s c. s + ch_H cfg ! (r * nat (ch_n_tx cfg) + c) * tx ! c ! t) 0 [0..<nat (ch_n_tx cfg)];
          ang = 2 * pi * ch_cfo cfg * real t / ch_rate cfg;
          k = 2 * (t * nat (ch_n_rx cfg) + r)
      in sum * rotation ang + Complex (g k) (g (k + 1)))"

definition apply_mimo_channel :: "noise_source \<Rightarrow> complexvec list \<Rightarrow> mimo_config \<Rightarrow> complexvec list result" where
  "apply_mimo_channel gauss tx cfg =
     and_then (require (to_int32 (length tx) = ch_n_tx cfg) ''tx layer count mismatch'') (\<lambda>_.
     and_then (int_op (ch_n_rx cfg * ch_n_tx cfg)) (\<lambda>rxtx.
     and_then (require (to_int32 (length (ch_H cfg)) = rxtx) ''H size mismatch'') (\<lambda>_.
     and_then (require (tx \<noteq> []) ''empty tx'') (\<lambda>_.
     let T = length (tx ! 0) in
     and_then (mapE (\<lambda>L. require (length L = T) ''tx length mismatch'') tx) (\<lambda>_.
     let g = gauss (ch_seed cfg) (awgn_sigma (ch_snr_db cfg)) in
     if ch_rate cfg = 0 \<and> 0 < T \<and> 0 < ch_n_rx cfg then Inl (Undefined ''time is not a number'')
     else Inr (map (\<lambda>r. map (\<lambda>t. mimo_sample g tx cfg r t) [0..<T]) [0..<nat (ch_n_rx cfg)]))))))"

section \<open>Lemmas\<close>

lemma rotation_0 [simp]: "rotation 0 = 1"
  by (simp add: rotation_def complex_eq_iff)

lemma awgn_sigma_pos: "0 < awgn_sigma snr_db"
  by (simp add: awgn_sigma_def Let_def)

lemma mapE_require:
  "mapE (\<lambda>x. require (P x) msg) xs = (if list_all P xs then Inr (map (\<lambda>_. ()) xs) else Inl (Error msg))"
  by (induction xs) auto

text \<open>Without carrier offset the channel is a delay and the draws, two per sample.\<close>

definition noise_samples :: "(nat \<Rightarrow> real) \<Rightarrow> nat \<Rightarrow> complexvec" where
  "noise_samples g len = map (\<lambda>n. Complex (g (2 * n)) (g (2 * n + 1))) [0..<len]"

lemma length_noise_samples [simp]: "length (noise_samples g len) = len"
  by (simp add: noise_samples_def)

text \<open>The first \<open>n\<close> draws stay within \<open>b\<close>.\<close>

definition draws_within :: "(nat \<Rightarrow> real) \<Rightarrow> nat \<Rightarrow> real \<Rightarrow> bool" where
  "draws_within g n b \<longleftrightarrow> list_all (\<lambda>k. \<bar>g k\<bar> \<le> b) [0..<n]"

lemma noise_samples_bound:
  assumes "draws_within g (2 * len) b" "n < len"
  shows "cmod (noise_samples g len ! n) \<le> sqrt 2 * b"
proof -
  have b: "\<bar>g (2 * n)\<bar> \<le> b" "\<bar>g (2 * n + 1)\<bar> \<le> b" using assms by (simp_all add: draws_within_def list_all_iff)
  then have "0 \<le> b" by linarith
  have "cmod (Complex (g (2 * n)) (g (2 * n + 1))) = sqrt ((g (2 * n))\<^sup>2 + (g (2 * n + 1))\<^sup>2)" by (simp add: complex_norm)
  also have "\<dots> \<le> sqrt (2 * b\<^sup>2)"
    using b power_mono [OF b(1), of 2] power_mono [OF b(2), of 2] by (intro real_sqrt_le_mono) simp
  also have "\<dots> = sqrt 2 * b" using \<open>0 \<le> b\<close> by (simp add: real_sqrt_mult)
  finally show ?thesis using assms(2) by (simp add: noise_samples_def)
qed

lemma siso_delay_noise:
  assumes "ch_cfo cfg = 0" "ch_rate cfg \<noteq> 0" "0 \<le> ch_timing cfg"
  shows "apply_siso_channel gauss tx cfg = Inr (map2 (+) (replicate (nat (ch_timing cfg)) 0 @ tx)
    (noise_samples (gauss (ch_seed cfg) (awgn_sigma (ch_snr_db cfg))) (nat (ch_timing cfg) + length tx)))"
  using assms by (simp add: apply_siso_channel_def delay_signal_def Let_def) (intro nth_equalityI, simp_all add: noise_samples_def)

lemma foldl_sum: "foldl (\<lambda>s c. s + f c) a [0..<n] = a + (\<Sum>c<n. f c)" for f :: "nat \<Rightarrow> complex"
  by (induction n) (simp_all add: add.assoc)

definition mimo_ok :: "mimo_config \<Rightarrow> complexvec list \<Rightarrow> bool" where
  "mimo_ok cfg tx \<longleftrightarrow> tx \<noteq> [] \<and> length tx < 46341 \<and> ch_n_tx cfg = int (length tx) \<and> 0 \<le> ch_n_rx cfg \<and> ch_n_rx cfg < 46341 \<and>
     length (ch_H cfg) = nat (ch_n_rx cfg) * length tx \<and> list_all (\<lambda>L. length L = length (tx ! 0)) tx \<and> ch_rate cfg \<noteq> 0"

lemma apply_mimo_channel_Inr:
  assumes "mimo_ok cfg tx"
  shows "apply_mimo_channel gauss tx cfg =
    Inr (map (\<lambda>r. map (\<lambda>t. mimo_sample (gauss (ch_seed cfg) (awgn_sigma (ch_snr_db cfg))) tx cfg r t) [0..<length (tx ! 0)])
      [0..<nat (ch_n_rx cfg)])"
proof -
  have n: "0 \<le> ch_n_rx cfg" "ch_n_rx cfg \<le> 46340" "int (length tx) \<le> 46340" using assms by (simp_all add: mimo_ok_def)
  have "ch_n_rx cfg * int (length tx) \<le> 46340 * 46340" using n by (intro mult_mono) simp_all
  moreover have "0 \<le> ch_n_rx cfg * int (length tx)" using n by simp
  moreover have "ch_n_tx cfg = int (length tx)" using assms by (simp add: mimo_ok_def)
  ultimately have ok: "int_ok (ch_n_rx cfg * ch_n_tx cfg)" by (simp add: int_ok_def)
  have "int (length (ch_H cfg)) = ch_n_rx cfg * ch_n_tx cfg" using assms by (simp add: mimo_ok_def)
  moreover from this ok have "to_int32 (length (ch_H cfg)) = int (length (ch_H cfg))" by (simp add: int_ok_def)
  moreover have "to_int32 (length tx) = int (length tx)" using n by simp
  ultimately show ?thesis
    using assms ok by (simp add: apply_mimo_channel_def mapE_require mimo_ok_def Let_def)
qed

end
