(* ===== verification/Matrix.thy ===== *)
theory Matrix
  imports Prelude
begin

text \<open>
  The small dense matrices of \<open>src/equalizer.cpp\<close>, stored row by row in one vector: product,
  conjugate transpose, scaled identity, matrix times vector and Gauss-Jordan inversion with partial
  pivoting on the augmented matrix. A row operation is described by the two matrices that undo each
  other (\<open>row_equiv\<close>), from which both the left and the right inverse law of \<open>mat_inv\<close> follow.
\<close>

section \<open>The code\<close>

definition mat_mul :: "complexvec \<Rightarrow> nat \<Rightarrow> nat \<Rightarrow> complexvec \<Rightarrow> nat \<Rightarrow> nat \<Rightarrow> complexvec result" where
  "mat_mul A ar ac B br bc =
     and_then (require (ac = br) ''matmul shape'') (\<lambda>_.
     Inr (foldl (\<lambda>C i. foldl (\<lambda>C k. foldl (\<lambda>C j.
       C[i * bc + j := C ! (i * bc + j) + A ! (i * ac + k) * B ! (k * bc + j)]) C [0..<bc]) C [0..<ac])
       (replicate (ar * bc) 0) [0..<ar]))"

definition mat_herm :: "complexvec \<Rightarrow> nat \<Rightarrow> nat \<Rightarrow> complexvec" where
  "mat_herm A r c = concat (map (\<lambda>j. map (\<lambda>i. cnj (A ! (i * c + j))) [0..<r]) [0..<c])"

definition mat_eye :: "nat \<Rightarrow> complex \<Rightarrow> complexvec" where
  "mat_eye n scale = foldl (\<lambda>I i. I[i * n + i := scale]) (replicate (n * n) 0) [0..<n]"

definition augment :: "complexvec \<Rightarrow> nat \<Rightarrow> complexvec" where
  "augment A n =
     concat (map (\<lambda>i. map (\<lambda>j. if j < n then A ! (i * n + j) else if j = n + i then 1 else 0) [0..<2 * n]) [0..<n])"

definition pivot_step :: "complexvec \<Rightarrow> nat \<Rightarrow> nat \<Rightarrow> nat \<times> real \<Rightarrow> nat \<Rightarrow> nat \<times> real" where
  "pivot_step aug n c st r =
     (case st of (piv, best) \<Rightarrow> let v = cmod (aug ! (r * (2 * n) + c)) in if v > best then (r, v) else (piv, best))"

definition inv_pivot :: "complexvec \<Rightarrow> nat \<Rightarrow> nat \<Rightarrow> nat \<times> real" where
  "inv_pivot aug n c = foldl (pivot_step aug n c) (c, cmod (aug ! (c * (2 * n) + c))) [c + 1..<n]"

definition inv_swap :: "nat \<Rightarrow> nat \<Rightarrow> nat \<Rightarrow> complexvec \<Rightarrow> complexvec" where
  "inv_swap n c piv aug = foldl (\<lambda>a j. swap_at (c * (2 * n) + j) (piv * (2 * n) + j) a) aug [0..<2 * n]"

definition inv_scale :: "nat \<Rightarrow> nat \<Rightarrow> complexvec \<Rightarrow> complexvec" where
  "inv_scale n c aug =
     (let diag = aug ! (c * (2 * n) + c)
      in foldl (\<lambda>a j. a[c * (2 * n) + j := a ! (c * (2 * n) + j) / diag]) aug [0..<2 * n])"

definition inv_elim_row :: "nat \<Rightarrow> nat \<Rightarrow> complexvec \<Rightarrow> nat \<Rightarrow> complexvec" where
  "inv_elim_row n c aug r =
     (if r = c then aug
      else let f = aug ! (r * (2 * n) + c)
           in foldl (\<lambda>a j. a[r * (2 * n) + j := a ! (r * (2 * n) + j) - f * a ! (c * (2 * n) + j)]) aug [0..<2 * n])"

definition inv_col :: "nat \<Rightarrow> complexvec \<Rightarrow> nat \<Rightarrow> complexvec result" where
  "inv_col n aug c =
     (case inv_pivot aug n c of (piv, best) \<Rightarrow>
        and_then (require (best > 1 / 10 ^ 14) ''singular matrix in equalizer'') (\<lambda>_.
        Inr (foldl (inv_elim_row n c) (inv_scale n c (if piv \<noteq> c then inv_swap n c piv aug else aug)) [0..<n])))"

fun inv_cols :: "nat \<Rightarrow> complexvec \<Rightarrow> nat list \<Rightarrow> complexvec result" where
  "inv_cols n aug [] = Inr aug"
| "inv_cols n aug (c # cs) = and_then (inv_col n aug c) (\<lambda>a. inv_cols n a cs)"

definition mat_inv :: "complexvec \<Rightarrow> nat \<Rightarrow> complexvec result" where
  "mat_inv A n =
     and_then (inv_cols n (augment A n) [0..<n]) (\<lambda>aug.
     Inr (concat (map (\<lambda>i. map (\<lambda>j. aug ! (i * (2 * n) + n + j)) [0..<n]) [0..<n])))"

definition mat_vec :: "complexvec \<Rightarrow> nat \<Rightarrow> nat \<Rightarrow> complexvec \<Rightarrow> complexvec result" where
  "mat_vec A r c x =
     and_then (require (length x = c) ''mat_vec'') (\<lambda>_.
     Inr (foldl (\<lambda>y i. foldl (\<lambda>y j. y[i := y ! i + A ! (i * c + j) * x ! j]) y [0..<c]) (replicate r 0) [0..<r]))"

section \<open>Accumulating loops\<close>

text \<open>\<open>adds F f\<close>: the loop \<open>F\<close> adds \<open>f x\<close> to entry \<open>x\<close>.\<close>

definition adds :: "(complexvec \<Rightarrow> complexvec) \<Rightarrow> (nat \<Rightarrow> complex) \<Rightarrow> bool" where
  "adds F f \<longleftrightarrow> (\<forall>C. length (F C) = length C \<and> (\<forall>x<length C. F C ! x = C ! x + f x))"

lemma adds_update: "adds (\<lambda>C. C[p := C ! p + v]) (\<lambda>x. if x = p then v else 0)"
  by (simp add: adds_def nth_list_update)

lemma adds_fold:
  assumes "\<And>i. adds (F i) (f i)"
  shows "adds (\<lambda>C. foldl (\<lambda>C i. F i C) C [0..<n]) (\<lambda>x. \<Sum>i<n. f i x)"
proof (induction n)
  case (Suc n)
  then show ?case using assms [of n] by (simp add: adds_def add.assoc)
qed (simp add: adds_def)

text \<open>A matrix as a function of its indices, and the product in those terms.\<close>

abbreviation entry :: "complexvec \<Rightarrow> nat \<Rightarrow> nat \<Rightarrow> nat \<Rightarrow> complex" where
  "entry A c i j \<equiv> A ! (i * c + j)"

lemma mat_mul_ok:
  "\<exists>C. mat_mul A ar ac B ac bc = Inr C \<and> length C = ar * bc \<and>
    (\<forall>i<ar. \<forall>j<bc. entry C bc i j = (\<Sum>k<ac. entry A ac i k * entry B bc k j))"
proof -
  let ?F = "\<lambda>C. foldl (\<lambda>C i. foldl (\<lambda>C k. foldl (\<lambda>C j.
       C[i * bc + j := C ! (i * bc + j) + A ! (i * ac + k) * B ! (k * bc + j)]) C [0..<bc]) C [0..<ac]) C [0..<ar]"
  have "adds ?F (\<lambda>x. \<Sum>i<ar. \<Sum>k<ac. \<Sum>j<bc. if x = i * bc + j then A ! (i * ac + k) * B ! (k * bc + j) else 0)"
    by (intro adds_fold adds_update)
  then have F: "length (?F C) = length C" "x < length C \<Longrightarrow> ?F C ! x = C ! x +
      (\<Sum>i<ar. \<Sum>k<ac. \<Sum>j<bc. if x = i * bc + j then A ! (i * ac + k) * B ! (k * bc + j) else 0)" for C x
    by (simp_all add: adds_def)
  have "entry (?F (replicate (ar * bc) 0)) bc i j = (\<Sum>k<ac. entry A ac i k * entry B bc k j)" if "i < ar" "j < bc" for i j
  proof -
    have "(\<Sum>j'<bc. if i * bc + j = i' * bc + j' then A ! (i' * ac + k) * B ! (k * bc + j') else 0) =
        (if i = i' then A ! (i * ac + k) * B ! (k * bc + j) else 0)" for i' k
    proof -
      have "(\<Sum>j'<bc. if i * bc + j = i' * bc + j' then A ! (i' * ac + k) * B ! (k * bc + j') else 0) =
          (\<Sum>j'<bc. if j' = j then (if i = i' then A ! (i * ac + k) * B ! (k * bc + j) else 0) else 0)"
        using grid_index_inj [OF that(2), of _ i i'] by (intro sum.cong) auto
      then show ?thesis using that(2) by simp
    qed
    then have "(\<Sum>i'<ar. \<Sum>k<ac. \<Sum>j'<bc. if i * bc + j = i' * bc + j' then A ! (i' * ac + k) * B ! (k * bc + j') else 0) =
        (\<Sum>i'<ar. if i' = i then (\<Sum>k<ac. A ! (i * ac + k) * B ! (k * bc + j)) else 0)"
      by (intro sum.cong) auto
    then show ?thesis
      using that F(2) [of "i * bc + j" "replicate (ar * bc) 0"] grid_index_less [OF that] by simp
  qed
  then show ?thesis using F(1) by (simp add: mat_mul_def)
qed

lemma mat_vec_ok:
  assumes "length x = c"
  shows "\<exists>y. mat_vec A r c x = Inr y \<and> length y = r \<and> (\<forall>i<r. y ! i = (\<Sum>j<c. entry A c i j * x ! j))"
proof -
  let ?F = "\<lambda>y. foldl (\<lambda>y i. foldl (\<lambda>y j. y[i := y ! i + A ! (i * c + j) * x ! j]) y [0..<c]) y [0..<r]"
  have "adds ?F (\<lambda>p. \<Sum>i<r. \<Sum>j<c. if p = i then A ! (i * c + j) * x ! j else 0)"
    by (intro adds_fold adds_update)
  then have F: "length (?F y) = length y" "p < length y \<Longrightarrow> ?F y ! p = y ! p +
      (\<Sum>i<r. \<Sum>j<c. if p = i then A ! (i * c + j) * x ! j else 0)" for y p by (simp_all add: adds_def)
  have "(\<Sum>i<r. \<Sum>j<c. if p = i then A ! (i * c + j) * x ! j else 0) = (\<Sum>j<c. A ! (p * c + j) * x ! j)" if "p < r" for p
  proof -
    have "(\<Sum>i<r. \<Sum>j<c. if p = i then A ! (i * c + j) * x ! j else 0) =
        (\<Sum>i<r. if i = p then (\<Sum>j<c. A ! (p * c + j) * x ! j) else 0)" by (intro sum.cong) auto
    then show ?thesis using that by simp
  qed
  then show ?thesis using assms F(1) [of "replicate r 0"] F(2) [where y = "replicate r 0"] by (simp add: mat_vec_def)
qed

lemma mat_herm_entry: "i < r \<Longrightarrow> j < c \<Longrightarrow> entry (mat_herm A r c) r j i = cnj (entry A c i j)"
  by (simp add: mat_herm_def nth_grid)

lemma length_mat_herm [simp]: "length (mat_herm A r c) = c * r"
  by (simp add: mat_herm_def)

lemma mat_eye_entry:
  assumes "i < n" "j < n"
  shows "entry (mat_eye n s) n i j = (if i = j then s else 0)"
proof -
  let ?F = "\<lambda>k. foldl (\<lambda>I i. I[i * n + i := s]) (replicate (n * n) 0) [0..<k]"
  have "length (?F k) = n * n \<and> (\<forall>i<n. \<forall>j<n. ?F k ! (i * n + j) = (if i = j \<and> i < k then s else 0))" if "k \<le> n" for k
    using that
  proof (induction k)
    case (Suc k)
    have "?F (Suc k) ! (i * n + j) = (if i = j \<and> i < Suc k then s else 0)" if "i < n" "j < n" for i j
    proof -
      have "k * n + k = i * n + j \<longleftrightarrow> k = i \<and> k = j" using grid_index_inj [of k n j k i] that Suc.prems by simp
      then show ?thesis using Suc that grid_index_less [OF that] by (auto simp: nth_list_update)
    qed
    then show ?case using Suc by simp
  qed (use grid_index_less in simp)
  then show ?thesis using assms by (simp add: mat_eye_def)
qed

section \<open>Loops over one row\<close>

lemma in_row: "j < w \<Longrightarrow> r * w \<le> i * w + j \<and> i * w + j < r * w + w \<longleftrightarrow> i = r" for i :: nat
proof -
  assume j: "j < w"
  have "i * w + j < r * w" if "i < r" using grid_index_less [OF that j] .
  moreover have "r * w + w \<le> i * w + j" if "r < i"
  proof -
    have "Suc r * w \<le> i * w" using that by (intro mult_le_mono1) simp
    then show ?thesis by simp
  qed
  ultimately show ?thesis using j by (cases i r rule: linorder_cases) auto
qed

lemma row_loop:
  fixes a :: complexvec
  assumes "b + w \<le> length a" "d + w \<le> length a" "b + w \<le> d \<or> d + w \<le> b \<or> (\<forall>u v v'. h u v = h u v')" "J \<le> w"
  defines "loop k \<equiv> foldl (\<lambda>a j. a[b + j := h (a ! (b + j)) (a ! (d + j))]) a [0..<k]"
  shows "length (loop J) = length a"
    and "x < length a \<Longrightarrow> loop J ! x = (if b \<le> x \<and> x < b + J then h (a ! x) (a ! (d + (x - b))) else a ! x)"
proof -
  have "length (loop J) = length a \<and> (\<forall>x<length a. loop J ! x = (if b \<le> x \<and> x < b + J then h (a ! x) (a ! (d + (x - b))) else a ! x))"
    using assms(4)
  proof (induction J)
    case (Suc J)
    have step: "loop (Suc J) = (loop J)[b + J := h (loop J ! (b + J)) (loop J ! (d + J))]" by (simp add: loop_def)
    have pb: "loop J ! (b + J) = a ! (b + J)" using Suc assms(1) by simp
    have "h u (loop J ! (d + J)) = h u (a ! (d + J))" for u
    proof (cases "\<forall>u v v'. h u v = h u v'")
      case False
      then have "\<not> (b \<le> d + J \<and> d + J < b + J)" using assms(3) Suc.prems by auto
      then show ?thesis using Suc assms(2) by auto
    qed blast
    then show ?case using Suc pb assms(1) by (auto simp: step nth_list_update less_Suc_eq)
  qed (auto simp: loop_def)
  then show "length (loop J) = length a"
    and "x < length a \<Longrightarrow> loop J ! x = (if b \<le> x \<and> x < b + J then h (a ! x) (a ! (d + (x - b))) else a ! x)" by simp_all
qed

lemma swap_loop:
  fixes a :: complexvec
  assumes "b + w \<le> length a" "d + w \<le> length a" "b + w \<le> d \<or> d + w \<le> b" "J \<le> w"
  defines "loop k \<equiv> foldl (\<lambda>a j. swap_at (b + j) (d + j) a) a [0..<k]"
  shows "length (loop J) = length a"
    and "x < length a \<Longrightarrow> loop J ! x =
      (if b \<le> x \<and> x < b + J then a ! (d + (x - b)) else if d \<le> x \<and> x < d + J then a ! (b + (x - d)) else a ! x)"
proof -
  have "length (loop J) = length a \<and> (\<forall>x<length a. loop J ! x =
      (if b \<le> x \<and> x < b + J then a ! (d + (x - b)) else if d \<le> x \<and> x < d + J then a ! (b + (x - d)) else a ! x))"
    using assms(4)
  proof (induction J)
    case (Suc J)
    have step: "loop (Suc J) = swap_at (b + J) (d + J) (loop J)" by (simp add: loop_def)
    have i: "b + J < length (loop J)" "d + J < length (loop J)" "J < w" using Suc assms(1,2) by simp_all
    have p: "loop J ! (b + J) = a ! (b + J)" "loop J ! (d + J) = a ! (d + J)" using Suc assms(1-3) by auto
    have "loop (Suc J) ! x =
        (if b \<le> x \<and> x < b + Suc J then a ! (d + (x - b)) else if d \<le> x \<and> x < d + Suc J then a ! (b + (x - d)) else a ! x)"
      if x: "x < length a" for x
    proof -
      consider "x = d + J" | "x = b + J" "x \<noteq> d + J" | "x \<noteq> b + J" "x \<noteq> d + J" by blast
      then show ?thesis
        using x Suc i p assms(3) nth_swap_at [OF i(1,2), of x] by cases (auto simp: step less_Suc_eq)
    qed
    then show ?case using Suc by (simp add: step)
  qed (auto simp: loop_def)
  then show "length (loop J) = length a"
    and "x < length a \<Longrightarrow> loop J ! x =
      (if b \<le> x \<and> x < b + J then a ! (d + (x - b)) else if d \<le> x \<and> x < d + J then a ! (b + (x - d)) else a ! x)" by simp_all
qed

lemma row_fits: "r < n \<Longrightarrow> length a = n * w \<Longrightarrow> r * w + w \<le> length a"
proof -
  assume "r < n" "length a = n * w"
  moreover from \<open>r < n\<close> have "Suc r * w \<le> n * w" by (intro mult_le_mono1) simp
  ultimately show ?thesis by simp
qed

lemma rows_apart: "r \<noteq> s \<Longrightarrow> r * w + w \<le> s * w \<or> s * w + w \<le> r * (w::nat)"
proof -
  assume "r \<noteq> s"
  then have "Suc r \<le> s \<or> Suc s \<le> r" by linarith
  then have "Suc r * w \<le> s * w \<or> Suc s * w \<le> r * w" using mult_le_mono1 by blast
  then show ?thesis by (simp add: add.commute)
qed

text \<open>The three row operations in terms of the entries.\<close>

lemma inv_swap_entry:
  assumes "length a = n * (2 * n)" "c < n" "p < n" "c \<noteq> p"
  shows "length (inv_swap n c p a) = n * (2 * n)"
    and "i < n \<Longrightarrow> j < 2 * n \<Longrightarrow> entry (inv_swap n c p a) (2 * n) i j =
      entry a (2 * n) (if i = c then p else if i = p then c else i) j"
proof -
  note loop = swap_loop [OF row_fits [OF assms(2,1)] row_fits [OF assms(3,1)] rows_apart [OF assms(4)] order_refl]
  show "length (inv_swap n c p a) = n * (2 * n)" using loop(1) assms(1) by (simp add: inv_swap_def)
  show "entry (inv_swap n c p a) (2 * n) i j = entry a (2 * n) (if i = c then p else if i = p then c else i) j"
    if "i < n" "j < 2 * n"
    using loop(2) [of "i * (2 * n) + j"] in_row [OF that(2), of c i] in_row [OF that(2), of p i] grid_index_less [OF that]
      assms(1) by (auto simp: inv_swap_def)
qed

lemma inv_scale_entry:
  assumes "length a = n * (2 * n)" "c < n"
  shows "length (inv_scale n c a) = n * (2 * n)"
    and "i < n \<Longrightarrow> j < 2 * n \<Longrightarrow> entry (inv_scale n c a) (2 * n) i j =
      (if i = c then entry a (2 * n) c j / entry a (2 * n) c c else entry a (2 * n) i j)"
proof -
  note loop = row_loop [OF row_fits [OF assms(2,1)] row_fits [OF assms(2,1)] _ order_refl,
      where h = "\<lambda>u v. u / entry a (2 * n) c c"]
  show "length (inv_scale n c a) = n * (2 * n)" using loop(1) assms(1) by (simp add: inv_scale_def Let_def)
  show "entry (inv_scale n c a) (2 * n) i j =
      (if i = c then entry a (2 * n) c j / entry a (2 * n) c c else entry a (2 * n) i j)" if "i < n" "j < 2 * n"
    using loop(2) [of "i * (2 * n) + j"] in_row [OF that(2), of c i] grid_index_less [OF that] assms(1)
    by (auto simp: inv_scale_def Let_def)
qed

lemma inv_elim_row_entry:
  assumes "length a = n * (2 * n)" "c < n" "r < n"
  shows "length (inv_elim_row n c a r) = n * (2 * n)"
    and "i < n \<Longrightarrow> j < 2 * n \<Longrightarrow> entry (inv_elim_row n c a r) (2 * n) i j =
      (if i = r \<and> r \<noteq> c then entry a (2 * n) i j - entry a (2 * n) i c * entry a (2 * n) c j else entry a (2 * n) i j)"
proof -
  have apart: "r * (2 * n) + 2 * n \<le> c * (2 * n) \<or> c * (2 * n) + 2 * n \<le> r * (2 * n) \<or>
      (\<forall>u v v'. u - entry a (2 * n) r c * v = u - entry a (2 * n) r c * v')" if "r \<noteq> c"
    using rows_apart [OF that, of "2 * n"] by blast
  note loop = row_loop [OF row_fits [OF assms(3,1)] row_fits [OF assms(2,1)] apart order_refl]
  show "length (inv_elim_row n c a r) = n * (2 * n)"
    using loop(1) assms(1) by (cases "r = c") (simp_all add: inv_elim_row_def Let_def)
  show "entry (inv_elim_row n c a r) (2 * n) i j =
      (if i = r \<and> r \<noteq> c then entry a (2 * n) i j - entry a (2 * n) i c * entry a (2 * n) c j else entry a (2 * n) i j)"
    if "i < n" "j < 2 * n"
  proof (cases "r = c")
    case False
    then show ?thesis
      using loop(2) [OF False, of "i * (2 * n) + j"] in_row [OF that(2), of r i] grid_index_less [OF that] assms(1)
      by (auto simp: inv_elim_row_def Let_def)
  qed (simp add: inv_elim_row_def)
qed

lemma inv_elim_entry:
  assumes "length a = n * (2 * n)" "c < n" "R \<le> n"
  shows "length (foldl (inv_elim_row n c) a [0..<R]) = n * (2 * n) \<and> (\<forall>i<n. \<forall>j<2 * n.
    entry (foldl (inv_elim_row n c) a [0..<R]) (2 * n) i j =
      (if i < R \<and> i \<noteq> c then entry a (2 * n) i j - entry a (2 * n) i c * entry a (2 * n) c j else entry a (2 * n) i j))"
  using assms(3)
proof (induction R)
  case (Suc R)
  let ?b = "foldl (inv_elim_row n c) a [0..<R]"
  have b: "length ?b = n * (2 * n)" "\<And>i j. i < n \<Longrightarrow> j < 2 * n \<Longrightarrow> entry ?b (2 * n) i j =
      (if i < R \<and> i \<noteq> c then entry a (2 * n) i j - entry a (2 * n) i c * entry a (2 * n) c j else entry a (2 * n) i j)"
    using Suc by simp_all
  have R: "R < n" "c < 2 * n" using Suc.prems assms(2) by simp_all
  have "entry (inv_elim_row n c ?b R) (2 * n) i j =
      (if i < Suc R \<and> i \<noteq> c then entry a (2 * n) i j - entry a (2 * n) i c * entry a (2 * n) c j else entry a (2 * n) i j)"
    if "i < n" "j < 2 * n" for i j
    using inv_elim_row_entry(2) [OF b(1) assms(2) R(1) that] b(2) [OF that] b(2) [OF that(1) R(2)] b(2) [OF assms(2) that(2)]
    by (cases "i = R"; cases "i = c"; simp)
  then show ?case using inv_elim_row_entry(1) [OF b(1) assms(2) R(1)] by simp
qed (use assms in simp)

section \<open>Row equivalence\<close>

definition mixes :: "nat \<Rightarrow> complexvec \<Rightarrow> (nat \<Rightarrow> nat \<Rightarrow> complex) \<Rightarrow> complexvec \<Rightarrow> bool" where
  "mixes n a E b \<longleftrightarrow> (\<forall>i<n. \<forall>j<2 * n. entry b (2 * n) i j = (\<Sum>k<n. E i k * entry a (2 * n) k j))"

definition row_equiv :: "nat \<Rightarrow> complexvec \<Rightarrow> complexvec \<Rightarrow> bool" where
  "row_equiv n a b \<longleftrightarrow> (\<exists>E. mixes n a E b) \<and> (\<exists>E. mixes n b E a)"

lemma mixes_trans:
  assumes "mixes n a E b" "mixes n b D c"
  shows "mixes n a (\<lambda>i k. \<Sum>l<n. D i l * E l k) c"
  unfolding mixes_def
proof (intro allI impI)
  fix i j assume i: "i < n" "j < 2 * n"
  have "entry c (2 * n) i j = (\<Sum>l<n. D i l * (\<Sum>k<n. E l k * entry a (2 * n) k j))"
    using assms i by (simp add: mixes_def)
  also have "\<dots> = (\<Sum>k<n. (\<Sum>l<n. D i l * E l k) * entry a (2 * n) k j)"
    by (simp add: sum_distrib_left sum_distrib_right mult.assoc) (rule sum.swap)
  finally show "entry c (2 * n) i j = (\<Sum>k<n. (\<Sum>l<n. D i l * E l k) * entry a (2 * n) k j)" .
qed

lemma row_equiv_trans: "row_equiv n a b \<Longrightarrow> row_equiv n b c \<Longrightarrow> row_equiv n a c"
  unfolding row_equiv_def by (blast intro: mixes_trans)

lemma row_equivI:
  assumes "\<And>i j. i < n \<Longrightarrow> j < 2 * n \<Longrightarrow> entry b (2 * n) i j = u i * entry a (2 * n) (p i) j + v i * entry a (2 * n) c j"
    and "\<And>i j. i < n \<Longrightarrow> j < 2 * n \<Longrightarrow> entry a (2 * n) i j = u' i * entry b (2 * n) (p' i) j + v' i * entry b (2 * n) c j"
    and "\<And>i. i < n \<Longrightarrow> p i < n" "\<And>i. i < n \<Longrightarrow> p' i < n" "c < n"
  shows "row_equiv n a b"
proof -
  have key: "u * entry m (2 * n) p j + v * entry m (2 * n) c j =
      (\<Sum>k<n. ((if k = p then u else 0) + (if k = c then v else 0)) * entry m (2 * n) k j)" if "p < n" for u v m p j
  proof -
    have "(\<Sum>k<n. ((if k = p then u else 0) + (if k = c then v else 0)) * entry m (2 * n) k j) =
        (\<Sum>k<n. (if k = p then u * entry m (2 * n) p j else 0) + (if k = c then v * entry m (2 * n) c j else 0))"
      by (rule sum.cong) (auto simp: distrib_right)
    then show ?thesis using that assms(5) by (simp add: sum.distrib)
  qed
  have "mixes n a (\<lambda>i k. (if k = p i then u i else 0) + (if k = c then v i else 0)) b"
    unfolding mixes_def using trans [OF assms(1) key] assms(3) by blast
  moreover have "mixes n b (\<lambda>i k. (if k = p' i then u' i else 0) + (if k = c then v' i else 0)) a"
    unfolding mixes_def using trans [OF assms(2) key] assms(4) by blast
  ultimately show ?thesis unfolding row_equiv_def by blast
qed

text \<open>The first \<open>c\<close> columns are unit vectors.\<close>

definition unit_cols :: "nat \<Rightarrow> nat \<Rightarrow> complexvec \<Rightarrow> bool" where
  "unit_cols n c a \<longleftrightarrow> length a = n * (2 * n) \<and> (\<forall>i<n. \<forall>j<c. entry a (2 * n) i j = (if i = j then 1 else 0))"

lemma inv_pivot_ok:
  assumes "c < n" "inv_pivot aug n c = (piv, best)"
  shows "c \<le> piv \<and> piv < n \<and> best = cmod (entry aug (2 * n) piv c)"
proof -
  have "c \<le> fst st \<and> fst st < n \<and> snd st = cmod (entry aug (2 * n) (fst st) c)"
    if "st = foldl (pivot_step aug n c) (c, cmod (entry aug (2 * n) c c)) [c + 1..<R]" "R \<le> n" for st R
    using that
  proof (induction R arbitrary: st)
    case (Suc R)
    show ?case
    proof (cases "c < R")
      case True
      then have "st = pivot_step aug n c (foldl (pivot_step aug n c) (c, cmod (entry aug (2 * n) c c)) [c + 1..<R]) R"
        using Suc.prems by simp
      then show ?thesis using Suc.IH [OF refl] Suc.prems True by (auto simp: pivot_step_def Let_def split: prod.splits if_splits)
    qed (use Suc.prems assms(1) in simp)
  qed (use assms(1) in simp)
  from this [OF refl order_refl] assms show ?thesis by (simp add: inv_pivot_def)
qed

text \<open>One column of the elimination in terms of the entries: rows \<open>c\<close> and \<open>piv\<close> are exchanged
  (\<open>s\<close>), row \<open>c\<close> is divided by its diagonal entry (\<open>t\<close>), and its multiples are subtracted from the others.\<close>

abbreviation exchange :: "nat \<Rightarrow> nat \<Rightarrow> nat \<Rightarrow> nat" where
  "exchange c p i \<equiv> (if i = c then p else if i = p then c else i)"

lemma inv_col_InrE:
  assumes len: "length a = n * (2 * n)" and c: "c < n" and col: "inv_col n a c = Inr b"
  obtains piv s t where "c \<le> piv" "piv < n" "length b = n * (2 * n)" "entry s (2 * n) c c \<noteq> 0"
    "\<And>i j. i < n \<Longrightarrow> j < 2 * n \<Longrightarrow> entry s (2 * n) i j = entry a (2 * n) (exchange c piv i) j"
    "\<And>i j. i < n \<Longrightarrow> j < 2 * n \<Longrightarrow>
      entry t (2 * n) i j = (if i = c then entry s (2 * n) c j / entry s (2 * n) c c else entry s (2 * n) i j)"
    "\<And>i j. i < n \<Longrightarrow> j < 2 * n \<Longrightarrow>
      entry b (2 * n) i j = (if i \<noteq> c then entry t (2 * n) i j - entry t (2 * n) i c * entry t (2 * n) c j else entry t (2 * n) i j)"
proof -
  obtain piv best where pv: "inv_pivot a n c = (piv, best)" by fastforce
  from inv_pivot_ok [OF c pv] have piv: "c \<le> piv" "piv < n" "best = cmod (entry a (2 * n) piv c)" by simp_all
  define s where "s = (if piv \<noteq> c then inv_swap n c piv a else a)"
  define t where "t = inv_scale n c s"
  from col have best: "best > 1 / 10 ^ 14" and b: "b = foldl (inv_elim_row n c) t [0..<n]"
    by (simp_all add: inv_col_def pv s_def t_def split: if_splits)
  have sw: "entry s (2 * n) i j = entry a (2 * n) (exchange c piv i) j" if "i < n" "j < 2 * n" for i j
    using inv_swap_entry [OF len c piv(2)] that len by (auto simp: s_def)
  have lens: "length s = n * (2 * n)" using inv_swap_entry(1) [OF len c piv(2)] len by (auto simp: s_def)
  note sc = inv_scale_entry [OF lens c, folded t_def]
  note el = inv_elim_entry [OF sc(1) c order_refl, folded b]
  have "entry s (2 * n) c c \<noteq> 0" using sw [OF c, of c] c best piv(3) by auto
  then show thesis using that [of piv s t] piv(1,2) sw sc(2) el by simp
qed

lemma inv_col_ok:
  assumes "unit_cols n c a" "c < n" "inv_col n a c = Inr b"
  shows "unit_cols n (Suc c) b \<and> row_equiv n a b"
proof -
  have len: "length a = n * (2 * n)" and uc: "\<And>i j. i < n \<Longrightarrow> j < c \<Longrightarrow> entry a (2 * n) i j = (if i = j then 1 else 0)"
    using assms(1) by (simp_all add: unit_cols_def)
  obtain piv s t where piv: "c \<le> piv" "piv < n" and lb: "length b = n * (2 * n)" and d: "entry s (2 * n) c c \<noteq> 0"
    and sw: "\<And>i j. i < n \<Longrightarrow> j < 2 * n \<Longrightarrow> entry s (2 * n) i j = entry a (2 * n) (exchange c piv i) j"
    and te: "\<And>i j. i < n \<Longrightarrow> j < 2 * n \<Longrightarrow>
      entry t (2 * n) i j = (if i = c then entry s (2 * n) c j / entry s (2 * n) c c else entry s (2 * n) i j)"
    and be: "\<And>i j. i < n \<Longrightarrow> j < 2 * n \<Longrightarrow>
      entry b (2 * n) i j = (if i \<noteq> c then entry t (2 * n) i j - entry t (2 * n) i c * entry t (2 * n) c j else entry t (2 * n) i j)"
    by (rule inv_col_InrE [OF len assms(2,3)]) (rule that)
  let ?d = "entry s (2 * n) c c"
  define \<sigma> where "\<sigma> = exchange c piv"
  have sw: "entry s (2 * n) i j = entry a (2 * n) (\<sigma> i) j" if "i < n" "j < 2 * n" for i j using sw that by (simp add: \<sigma>_def)
  have \<sigma>: "\<sigma> i < n" "\<sigma> (\<sigma> i) = i" if "i < n" for i using that assms(2) piv(2) by (auto simp: \<sigma>_def)
  have c2: "c < 2 * n" using assms(2) by simp
  have r1: "row_equiv n a s"
    by (rule row_equivI [where u = "\<lambda>_. 1" and v = "\<lambda>_. 0" and p = \<sigma> and u' = "\<lambda>_. 1" and v' = "\<lambda>_. 0" and p' = \<sigma> and c = c])
      (simp_all add: sw \<sigma> assms(2))
  have r2: "row_equiv n s t"
    by (rule row_equivI [where u = "\<lambda>i. if i = c then 1 / ?d else 1" and v = "\<lambda>_. 0" and p = "\<lambda>i. i"
          and u' = "\<lambda>i. if i = c then ?d else 1" and v' = "\<lambda>_. 0" and p' = "\<lambda>i. i" and c = c])
      (use d in \<open>simp_all add: te assms(2)\<close>)
  have r3: "row_equiv n t b"
    by (rule row_equivI [where u = "\<lambda>i. 1" and v = "\<lambda>i. if i = c then 0 else - entry t (2 * n) i c" and p = "\<lambda>i. i"
          and u' = "\<lambda>i. 1" and v' = "\<lambda>i. if i = c then 0 else entry t (2 * n) i c" and p' = "\<lambda>i. i" and c = c])
      (use c2 in \<open>simp_all add: be assms(2)\<close>)
  have su: "entry s (2 * n) i j = (if i = j then 1 else 0)" if "i < n" "j < c" for i j
    using sw [of i j] uc [OF \<sigma>(1) [OF that(1)] that(2)] that assms(2) piv(1) by (auto simp: \<sigma>_def)
  have tu: "entry t (2 * n) i j = (if i = j then 1 else 0)" if "i < n" "j < c" for i j
    using te [of i j] su [OF that] su [OF assms(2) that(2)] that assms(2) d by auto
  have tc: "entry t (2 * n) c c = 1" using te [OF assms(2) c2] d by simp
  have "entry b (2 * n) i j = (if i = j then 1 else 0)" if "i < n" "j < Suc c" for i j
  proof (cases "j = c")
    case True
    then show ?thesis using be [OF that(1) c2] tc by simp
  next
    case False
    then have "j < c" "j < 2 * n" using that assms(2) by simp_all
    then show ?thesis using be [OF that(1), of j] tu [OF that(1)] tu [OF assms(2)] by auto
  qed
  then show ?thesis using lb row_equiv_trans [OF row_equiv_trans [OF r1 r2] r3] by (simp add: unit_cols_def)
qed

lemma inv_cols_ok:
  assumes "unit_cols n c a" "row_equiv n a0 a" "c + m = n" "inv_cols n a [c..<n] = Inr b"
  shows "unit_cols n n b \<and> row_equiv n a0 b"
  using assms
proof (induction m arbitrary: c a)
  case (Suc m)
  then have c: "c < n" by simp
  with Suc.prems(4) obtain a' where a': "inv_col n a c = Inr a'" "inv_cols n a' [Suc c..<n] = Inr b"
    by (auto simp: upt_conv_Cons and_then_Inr_iff)
  from inv_col_ok [OF Suc.prems(1) c a'(1)] have "unit_cols n (Suc c) a'" "row_equiv n a0 a'"
    using row_equiv_trans Suc.prems(2) by blast+
  from Suc.IH [OF this _ a'(2)] Suc.prems(3) show ?case by simp
qed auto

text \<open>A matrix that \<open>mat_inv\<close> returns is a left and a right inverse.\<close>

lemma sum_unit:
  fixes j n :: nat
  assumes "j < n"
  shows "(\<Sum>k<n. f k * (if k = j then 1 else 0)) = (f j :: complex)" "(\<Sum>k<n. f k * (if j = k then 1 else 0)) = f j"
  using assms by (simp_all add: if_distrib [of "\<lambda>x. _ * x"] cong: if_cong)

lemma augment_entry:
  assumes "i < n" "j < 2 * n"
  shows "entry (augment A n) (2 * n) i j = (if j < n then entry A n i j else if j = n + i then 1 else 0)"
  using assms by (simp add: augment_def nth_grid)

text \<open>The elimination of the augmented matrix leaves the unit matrix on the left and the result on the right.\<close>

lemma mat_inv_reduced:
  assumes "mat_inv A n = Inr B"
  obtains b E D where "mixes n (augment A n) E b" "mixes n b D (augment A n)"
    "\<And>i j. i < n \<Longrightarrow> j < n \<Longrightarrow> entry b (2 * n) i j = (if i = j then 1 else 0)"
    "\<And>i j. i < n \<Longrightarrow> j < n \<Longrightarrow> entry b (2 * n) i (n + j) = entry B n i j" "length B = n * n"
proof -
  from assms obtain b where b: "inv_cols n (augment A n) [0..<n] = Inr b"
    and B: "B = concat (map (\<lambda>i. map (\<lambda>j. b ! (i * (2 * n) + n + j)) [0..<n]) [0..<n])"
    by (auto simp: mat_inv_def and_then_Inr_iff)
  have "unit_cols n 0 (augment A n)" by (simp add: unit_cols_def augment_def)
  moreover have "mixes n (augment A n) (\<lambda>i k. if k = i then 1 else 0) (augment A n)"
    by (auto simp: mixes_def if_distrib [of "\<lambda>x. x * _"] cong: if_cong)
  then have "row_equiv n (augment A n) (augment A n)" unfolding row_equiv_def by blast
  ultimately have fin: "unit_cols n n b" "row_equiv n (augment A n) b" using inv_cols_ok [of n 0 _ _ n] b by simp_all
  then obtain E D where "mixes n (augment A n) E b" "mixes n b D (augment A n)" by (auto simp: row_equiv_def)
  moreover have "entry b (2 * n) i (n + j) = entry B n i j" if "i < n" "j < n" for i j
    using that by (simp add: B nth_grid add.assoc)
  ultimately show thesis using fin(1) by (intro that [of E b D]) (simp_all add: unit_cols_def B)
qed

lemma mat_inv_ok:
  assumes "mat_inv A n = Inr B"
  shows "length B = n * n"
    and "i < n \<Longrightarrow> j < n \<Longrightarrow> (\<Sum>k<n. entry B n i k * entry A n k j) = (if i = j then 1 else 0)"
    and "i < n \<Longrightarrow> j < n \<Longrightarrow> (\<Sum>k<n. entry A n i k * entry B n k j) = (if i = j then 1 else 0)"
proof -
  obtain b E D where E: "mixes n (augment A n) E b" and D: "mixes n b D (augment A n)"
    and bl: "\<And>i j. i < n \<Longrightarrow> j < n \<Longrightarrow> entry b (2 * n) i j = (if i = j then 1 else 0)"
    and br: "\<And>i j. i < n \<Longrightarrow> j < n \<Longrightarrow> entry b (2 * n) i (n + j) = entry B n i j" and len: "length B = n * n"
    using mat_inv_reduced [OF assms] by metis
  show "length B = n * n" by (rule len)
  have EB: "E i j = entry B n i j" if "i < n" "j < n" for i j
  proof -
    have "entry b (2 * n) i (n + j) = (\<Sum>k<n. E i k * entry (augment A n) (2 * n) k (n + j))"
      using E that by (simp add: mixes_def)
    also have "\<dots> = (\<Sum>k<n. E i k * (if j = k then 1 else 0))" using that by (intro sum.cong) (simp_all add: augment_entry)
    finally show ?thesis using sum_unit(2) that br by simp
  qed
  show "(\<Sum>k<n. entry B n i k * entry A n k j) = (if i = j then 1 else 0)" if "i < n" "j < n"
  proof -
    have "entry b (2 * n) i j = (\<Sum>k<n. E i k * entry (augment A n) (2 * n) k j)" using E that by (simp add: mixes_def)
    also have "\<dots> = (\<Sum>k<n. entry B n i k * entry A n k j)" using that by (intro sum.cong) (simp_all add: augment_entry EB)
    finally show ?thesis using bl that by simp
  qed
  have DA: "D i j = entry A n i j" if "i < n" "j < n" for i j
  proof -
    have "entry (augment A n) (2 * n) i j = (\<Sum>k<n. D i k * entry b (2 * n) k j)" using D that by (simp add: mixes_def)
    also have "\<dots> = (\<Sum>k<n. D i k * (if k = j then 1 else 0))" using that by (intro sum.cong) (simp_all add: bl)
    finally show ?thesis using sum_unit(1) that augment_entry [of i n j A] by simp
  qed
  show "(\<Sum>k<n. entry A n i k * entry B n k j) = (if i = j then 1 else 0)" if "i < n" "j < n"
  proof -
    have "entry (augment A n) (2 * n) i (n + j) = (\<Sum>k<n. D i k * entry b (2 * n) k (n + j))" using D that by (simp add: mixes_def)
    also have "\<dots> = (\<Sum>k<n. entry A n i k * entry B n k j)" using that by (intro sum.cong) (simp_all add: br DA)
    finally show ?thesis using augment_entry [of i n "n + j" A] that by auto
  qed
qed

end
