(* ===== verification/Pivoting.thy ===== *)
theory Pivoting
  imports Matrix
begin

text \<open>
  The inversion of theory \<open>Matrix\<close> gives up when a pivot is not above \<open>10 ^ -14\<close>. This theory shows that it cannot
  happen to a matrix that stretches every vector by a fixed factor above that threshold: partial
  pivoting only exchanges rows among those not yet used, so on the vectors that the finished rows
  annihilate the energy of the product never changes (\<open>stiff\<close> is kept by every column), and the next pivot is
  at least a fixed fraction of the factor. Theory \<open>Equalizer\<close> shows that the matrices it inverts have this
  property, by the regularisation or by the channel.
\<close>

section \<open>Energy\<close>

definition row_val :: "nat \<Rightarrow> complexvec \<Rightarrow> (nat \<Rightarrow> complex) \<Rightarrow> nat \<Rightarrow> complex" where
  "row_val n a x r = (\<Sum>j<n. entry a (2 * n) r j * x j)"

definition energy :: "nat \<Rightarrow> (nat \<Rightarrow> complex) \<Rightarrow> real" where
  "energy n x = (\<Sum>i<n. (cmod (x i))\<^sup>2)"

definition stiff :: "nat \<Rightarrow> nat \<Rightarrow> real \<Rightarrow> complexvec \<Rightarrow> bool" where
  "stiff n c m a \<longleftrightarrow> (\<forall>x. (\<forall>r<c. row_val n a x r = 0) \<longrightarrow> m\<^sup>2 * energy n x \<le> energy n (row_val n a x))"

lemma energy_nonneg: "0 \<le> energy n x"
  by (simp add: energy_def sum_nonneg)

lemma energy_component: "i < n \<Longrightarrow> (cmod (x i))\<^sup>2 \<le> energy n x"
  unfolding energy_def by (rule member_le_sum) simp_all

lemma energy_exchange:
  assumes "c < n" "p < n"
  shows "energy n (\<lambda>i. f (exchange c p i)) = energy n f"
proof -
  have "bij_betw (exchange c p) {..<n} {..<n}"
    by (rule bij_betw_byWitness [where f' = "exchange c p"]) (use assms in auto)
  then show ?thesis unfolding energy_def by (rule sum.reindex_bij_betw [of "exchange c p" _ _ "\<lambda>i. (cmod (f i))\<^sup>2"])
qed

lemma stiff_step:
  assumes len: "length a = n * (2 * n)" and c: "c < n" and col: "inv_col n a c = Inr b" and st: "stiff n c m a"
  shows "stiff n (Suc c) m b"
  unfolding stiff_def
proof (intro allI impI)
  fix x assume zero: "\<forall>r<Suc c. row_val n b x r = 0"
  obtain p s t where p: "c \<le> p" "p < n" and d: "entry s (2 * n) c c \<noteq> 0"
    and s: "\<And>i j. i < n \<Longrightarrow> j < 2 * n \<Longrightarrow> entry s (2 * n) i j = entry a (2 * n) (exchange c p i) j"
    and t: "\<And>i j. i < n \<Longrightarrow> j < 2 * n \<Longrightarrow>
      entry t (2 * n) i j = (if i = c then entry s (2 * n) c j / entry s (2 * n) c c else entry s (2 * n) i j)"
    and b: "\<And>i j. i < n \<Longrightarrow> j < 2 * n \<Longrightarrow>
      entry b (2 * n) i j = (if i \<noteq> c then entry t (2 * n) i j - entry t (2 * n) i c * entry t (2 * n) c j else entry t (2 * n) i j)"
    by (rule inv_col_InrE [OF len c col]) (rule that)
  have rs: "row_val n s x i = row_val n a x (exchange c p i)" if "i < n" for i
    unfolding row_val_def by (rule sum.cong) (simp_all add: s [OF that])
  have rt: "row_val n t x i = (if i = c then row_val n s x c / entry s (2 * n) c c else row_val n s x i)" if "i < n" for i
    by (simp add: row_val_def t [OF that] sum_divide_distrib)
  have rb: "row_val n b x i = (if i = c then row_val n t x c else row_val n t x i - entry t (2 * n) i c * row_val n t x c)" if "i < n" for i
    by (simp add: row_val_def b [OF that] left_diff_distrib sum_subtractf sum_distrib_left mult.assoc)
  have "row_val n t x c = 0" using zero rb [OF c] by simp
  moreover from this have "row_val n s x c = 0" using rt [OF c] d by simp
  ultimately have bs: "row_val n b x i = row_val n s x i" if "i < n" for i using rb [OF that] rt [OF that] by auto
  have "row_val n a x r = 0" if r: "r < c" for r
  proof -
    have "row_val n a x r = row_val n s x r" using rs [of r] r p c by simp
    then show ?thesis using bs [of r] zero r c by simp
  qed
  then have "m\<^sup>2 * energy n x \<le> energy n (row_val n a x)" using st by (simp add: stiff_def)
  also have "\<dots> = energy n (\<lambda>i. row_val n a x (exchange c p i))" by (rule energy_exchange [OF c p(2), symmetric])
  also have "\<dots> = energy n (row_val n b x)" unfolding energy_def by (rule sum.cong) (simp_all add: rs bs)
  finally show "m\<^sup>2 * energy n x \<le> energy n (row_val n b x)" .
qed

section \<open>The pivot\<close>

lemma inv_pivot_max:
  assumes "c \<le> r" "r < n" "inv_pivot a n c = (piv, best)"
  shows "cmod (entry a (2 * n) r c) \<le> best"
proof -
  let ?st = "\<lambda>R. foldl (pivot_step a n c) (c, cmod (entry a (2 * n) c c)) [c + 1..<R]"
  have mono: "snd st \<le> snd (pivot_step a n c st i)" "cmod (entry a (2 * n) i c) \<le> snd (pivot_step a n c st i)" for st i
    by (auto simp: pivot_step_def Let_def split: prod.splits)
  have "cmod (entry a (2 * n) r c) \<le> snd (?st R)" if "r < R" for R
    using that
  proof (induction R)
    case (Suc R)
    show ?case
    proof (cases "c + 1 \<le> R")
      case True
      then have "?st (Suc R) = pivot_step a n c (?st R) R" by simp
      then show ?thesis using Suc mono(1) [of "?st R" R] mono(2) [of R "?st R"] by (cases "r = R") (auto intro: order_trans)
    next
      case False
      then have "r = c" using Suc.prems assms(1) by simp
      then show ?thesis using False by simp
    qed
  qed simp
  from this [OF assms(2)] show ?thesis using assms(3) by (simp add: inv_pivot_def)
qed

lemma inv_col_total:
  assumes uc: "unit_cols n c a" and c: "c < n" and st: "stiff n c m a" and m: "real n * (1 / 10 ^ 14)\<^sup>2 < m\<^sup>2"
  shows "\<exists>b. inv_col n a c = Inr b"
proof (rule ccontr)
  assume fail: "\<nexists>b. inv_col n a c = Inr b"
  obtain piv best where pv: "inv_pivot a n c = (piv, best)" by fastforce
  have best: "\<not> best > 1 / 10 ^ 14" using fail by (auto simp: inv_col_def pv split: if_splits)
  have small: "cmod (entry a (2 * n) r c) \<le> 1 / 10 ^ 14" if "c \<le> r" "r < n" for r
    using inv_pivot_max [OF that pv] best by linarith
  define x where "x j = (if j < c then - entry a (2 * n) j c else if j = c then 1 else 0)" for j
  have row: "row_val n a x r = (if r < c then 0 else entry a (2 * n) r c)" if r: "r < n" for r
  proof -
    have "row_val n a x r = (\<Sum>j<n. (if j = r \<and> r < c then x r else 0) + (if j = c then entry a (2 * n) r c else 0))"
      unfolding row_val_def
    proof (rule sum.cong)
      fix j assume "j \<in> {..<n}"
      consider "j < c" | "j = c" | "c < j" by linarith
      then show "entry a (2 * n) r j * x j = (if j = r \<and> r < c then x r else 0) + (if j = c then entry a (2 * n) r c else 0)"
      proof cases
        case 1
        then have "entry a (2 * n) r j = (if r = j then 1 else 0)" using uc r by (simp add: unit_cols_def)
        then show ?thesis using 1 by simp
      qed (auto simp: x_def)
    qed simp
    then show ?thesis using r c by (cases "r < c") (simp_all add: sum.distrib x_def)
  qed
  have "m\<^sup>2 * 1 \<le> m\<^sup>2 * energy n x" using energy_component [OF c, of x] by (intro mult_left_mono) (simp_all add: x_def)
  also have "\<dots> \<le> energy n (row_val n a x)" using st row c by (simp add: stiff_def)
  also have "\<dots> \<le> (\<Sum>i<n. (1 / 10 ^ 14)\<^sup>2)"
    unfolding energy_def using row small by (intro sum_mono power_mono) auto
  finally show False using m by simp
qed

lemma mat_inv_total:
  assumes "\<And>x. m\<^sup>2 * energy n x \<le> energy n (\<lambda>i. \<Sum>j<n. entry A n i j * x j)" "real n * (1 / 10 ^ 14)\<^sup>2 < m\<^sup>2"
  shows "\<exists>B. mat_inv A n = Inr B"
proof -
  have "\<exists>b. inv_cols n a [c..<n] = Inr b" if "unit_cols n c a" "stiff n c m a" "c + k = n" for a c k
    using that
  proof (induction k arbitrary: a c)
    case (Suc k)
    then have c: "c < n" by simp
    from inv_col_total [OF Suc.prems(1) c Suc.prems(2) assms(2)] obtain b where b: "inv_col n a c = Inr b" ..
    have "unit_cols n (Suc c) b" "stiff n (Suc c) m b"
      using inv_col_ok [OF Suc.prems(1) c b] stiff_step [OF _ c b Suc.prems(2)] Suc.prems(1) by (simp_all add: unit_cols_def)
    from Suc.IH [OF this] Suc.prems(3) b c show ?case by (simp add: upt_conv_Cons)
  qed simp
  moreover have "unit_cols n 0 (augment A n)" by (simp add: unit_cols_def augment_def)
  moreover have "row_val n (augment A n) x r = (\<Sum>j<n. entry A n r j * x j)" if "r < n" for x r
    unfolding row_val_def by (rule sum.cong) (use that in \<open>simp_all add: augment_def nth_grid\<close>)
  then have "energy n (row_val n (augment A n) x) = energy n (\<lambda>i. \<Sum>j<n. entry A n i j * x j)" for x
    unfolding energy_def by (intro sum.cong) simp_all
  then have "stiff n 0 m (augment A n)" using assms(1) by (simp add: stiff_def)
  ultimately obtain b where "inv_cols n (augment A n) [0..<n] = Inr b" by (metis add_0)
  then show ?thesis by (simp add: mat_inv_def)
qed

end
