(* ===== verification/Equalizer.thy ===== *)
theory Equalizer
  imports Pivoting CInt
begin

text \<open>
  \<open>include/nr_bb/equalizer.hpp\<close> and \<open>src/equalizer.cpp\<close>: the linear MIMO equalisers (zero forcing,
  MMSE and regularised zero forcing) for one sample and for a stream, over the matrices of theory
  \<open>Matrix\<close>. The specification is the system of normal equations: the code solves it, and its result is
  the only solution. A read past the end of a shorter receive stream is the branch \<open>Undefined\<close>; a
  vector length made from a negative \<open>int\<close> is a \<open>std::length_error\<close>.
\<close>

section \<open>The code\<close>

record equalizer_config =
  eq_type :: equalizer_type
  eq_noise_var :: real
  eq_delta :: real

definition default_equalizer :: equalizer_config where
  "default_equalizer = \<lparr>eq_type = MMSE, eq_noise_var = 1 / 100, eq_delta = 1 / 100\<rparr>"

definition reg_of :: "equalizer_config \<Rightarrow> real" where
  "reg_of cfg = (case eq_type cfg of ZF \<Rightarrow> 0 | MMSE \<Rightarrow> eq_noise_var cfg | RZF \<Rightarrow> eq_delta cfg)"

definition equalize_sample :: "complexvec \<Rightarrow> complexvec \<Rightarrow> int \<Rightarrow> int \<Rightarrow> equalizer_config \<Rightarrow> complexvec result" where
  "equalize_sample y H n_rx n_tx cfg =
     and_then (require (to_int32 (length y) = n_rx) ''y size'') (\<lambda>_.
     and_then (int_op (n_rx * n_tx)) (\<lambda>rxtx.
     and_then (require (to_int32 (length H) = rxtx) ''H size'') (\<lambda>_.
     and_then (require (n_tx \<ge> 1 \<and> n_tx \<le> 4 \<and> n_rx \<ge> 1 \<and> n_rx \<le> 4) ''MIMO size 1..4'') (\<lambda>_.
     let r = nat n_rx; t = nat n_tx; Hh = mat_herm H r t in
     and_then (mat_mul Hh t r H r t) (\<lambda>gram.
     let reg = reg_of cfg;
         gram' = (if reg \<noteq> 0 then let I = mat_eye t (complex_of_real reg) in map (\<lambda>i. gram ! i + I ! i) [0..<length gram] else gram)
     in and_then (mat_inv gram' t) (\<lambda>inverse.
        and_then (mat_mul inverse t t Hh t r) (\<lambda>W. mat_vec W t r y)))))))"

definition sample_at :: "complexvec list \<Rightarrow> nat \<Rightarrow> complexvec result" where
  "sample_at y_rx t = mapE (\<lambda>L. if t < length L then Inr (L ! t) else Inl (Undefined ''read past the end'')) y_rx"

definition equalize_stream :: "complexvec list \<Rightarrow> complexvec \<Rightarrow> int \<Rightarrow> equalizer_config \<Rightarrow> complexvec list result" where
  "equalize_stream y_rx H n_tx cfg =
     and_then (require (y_rx \<noteq> []) ''empty rx'') (\<lambda>_.
     if n_tx < 0 then Inl Length_error
     else let T = length (y_rx ! 0) in
       and_then (mapE (\<lambda>t. and_then (sample_at y_rx t) (\<lambda>y. equalize_sample y H (to_int32 (length y_rx)) n_tx cfg)) [0..<T]) (\<lambda>xs.
       Inr (map (\<lambda>c. map (\<lambda>t. xs ! t ! c) [0..<T]) [0..<nat n_tx])))"

section \<open>The normal equations\<close>

definition gram_of :: "complexvec \<Rightarrow> nat \<Rightarrow> nat \<Rightarrow> real \<Rightarrow> nat \<Rightarrow> nat \<Rightarrow> complex" where
  "gram_of H r t reg i j = (\<Sum>k<r. cnj (entry H t k i) * entry H t k j) + (if i = j then complex_of_real reg else 0)"

definition matched :: "complexvec \<Rightarrow> nat \<Rightarrow> nat \<Rightarrow> complexvec \<Rightarrow> nat \<Rightarrow> complex" where
  "matched H r t y i = (\<Sum>k<r. cnj (entry H t k i) * y ! k)"

definition solves :: "complexvec \<Rightarrow> nat \<Rightarrow> nat \<Rightarrow> real \<Rightarrow> complexvec \<Rightarrow> complexvec \<Rightarrow> bool" where
  "solves H r t reg y x \<longleftrightarrow> length x = t \<and> (\<forall>i<t. (\<Sum>j<t. gram_of H r t reg i j * x ! j) = matched H r t y i)"

lemma equalize_sample_InrE:
  assumes "equalize_sample y H n_rx n_tx cfg = Inr x"
  obtains r t G B where "n_rx = int r" "n_tx = int t" "1 \<le> r" "r \<le> 4" "1 \<le> t" "t \<le> 4" "length x = t"
    "mat_inv G t = Inr B" "\<forall>i<t. \<forall>j<t. entry G t i j = gram_of H r t (reg_of cfg) i j"
    "\<forall>i<t. x ! i = (\<Sum>j<t. entry B t i j * matched H r t y j)"
proof -
  let ?r = "nat n_rx" and ?t = "nat n_tx" and ?reg = "reg_of cfg"
  let ?Hh = "mat_herm H ?r ?t"
  let ?reg' = "\<lambda>gram. if ?reg \<noteq> 0 then let I = mat_eye ?t (complex_of_real ?reg) in map (\<lambda>i. gram ! i + I ! i) [0..<length gram] else gram"
  obtain C where C: "mat_mul ?Hh ?t ?r H ?r ?t = Inr C" "length C = ?t * ?t"
    and Ce: "\<And>i j. i < ?t \<Longrightarrow> j < ?t \<Longrightarrow> entry C ?t i j = (\<Sum>k<?r. entry ?Hh ?r i k * entry H ?t k j)"
    using mat_mul_ok [of ?Hh ?t ?r H ?t] by blast
  from assms have dim: "1 \<le> n_rx" "n_rx \<le> 4" "1 \<le> n_tx" "n_tx \<le> 4"
    and "and_then (mat_inv (?reg' C) ?t) (\<lambda>B. and_then (mat_mul B ?t ?t ?Hh ?t ?r) (\<lambda>W. mat_vec W ?t ?r y)) = Inr x"
    and y: "to_int32 (length y) = n_rx"
    by (auto simp: equalize_sample_def Let_def C(1) and_then_Inr_iff split: if_splits)
  then obtain B where B: "mat_inv (?reg' C) ?t = Inr B"
    and rest: "and_then (mat_mul B ?t ?t ?Hh ?t ?r) (\<lambda>W. mat_vec W ?t ?r y) = Inr x" by (auto simp: and_then_Inr_iff)
  obtain W where W: "mat_mul B ?t ?t ?Hh ?t ?r = Inr W"
    and We: "\<And>i j. i < ?t \<Longrightarrow> j < ?r \<Longrightarrow> entry W ?r i j = (\<Sum>k<?t. entry B ?t i k * entry ?Hh ?r k j)"
    using mat_mul_ok [of B ?t ?t ?Hh ?r] by blast
  from rest W have mv: "mat_vec W ?t ?r y = Inr x" by simp
  then have ly: "length y = ?r" by (auto simp: mat_vec_def split: if_splits)
  from mat_vec_ok [OF ly, of W ?t] mv have x: "length x = ?t" "\<And>i. i < ?t \<Longrightarrow> x ! i = (\<Sum>j<?r. entry W ?r i j * y ! j)" by auto
  have herm: "entry ?Hh ?r i k = cnj (entry H ?t k i)" if "k < ?r" "i < ?t" for i k using that by (simp add: mat_herm_entry)
  have G: "entry (?reg' C) ?t i j = gram_of H ?r ?t ?reg i j" if "i < ?t" "j < ?t" for i j
    using Ce [OF that] herm that grid_index_less [OF that] mat_eye_entry [OF that, of "complex_of_real ?reg"] C(2)
    by (cases "i = j") (auto simp: gram_of_def Let_def)
  have "x ! i = (\<Sum>j<?t. entry B ?t i j * matched H ?r ?t y j)" if i: "i < ?t" for i
  proof -
    have "x ! i = (\<Sum>j<?r. \<Sum>k<?t. entry B ?t i k * (cnj (entry H ?t j k) * y ! j))"
      using x(2) [OF i] We [OF i] herm by (simp add: sum_distrib_right mult.assoc)
    also have "\<dots> = (\<Sum>k<?t. entry B ?t i k * matched H ?r ?t y k)"
      by (subst sum.swap) (simp add: matched_def sum_distrib_left)
    finally show ?thesis .
  qed
  with that [of ?r ?t "?reg' C" B] dim B G x(1) show ?thesis by simp
qed

lemma equalize_sample_solves:
  assumes "equalize_sample y H n_rx n_tx cfg = Inr x"
  shows "solves H (nat n_rx) (nat n_tx) (reg_of cfg) y x"
    and "solves H (nat n_rx) (nat n_tx) (reg_of cfg) y z \<Longrightarrow> z = x"
proof -
  from assms obtain r t G B where rt: "n_rx = int r" "n_tx = int t" and "1 \<le> r" "r \<le> 4" "1 \<le> t" "t \<le> 4" and lx: "length x = t" and B: "mat_inv G t = Inr B"
    and Gx: "\<forall>i<t. \<forall>j<t. entry G t i j = gram_of H r t (reg_of cfg) i j"
      "\<forall>i<t. x ! i = (\<Sum>j<t. entry B t i j * matched H r t y j)" by (rule equalize_sample_InrE)
  have G: "entry G t i j = gram_of H r t (reg_of cfg) i j" if "i < t" "j < t" for i j using Gx(1) that by blast
  have x: "x ! i = (\<Sum>j<t. entry B t i j * matched H r t y j)" if "i < t" for i using Gx(2) that by blast
  have delta: "(\<Sum>j<t. (if i = j then 1 else 0) * f j) = f i" if "i < t" for i and f :: "nat \<Rightarrow> complex"
    using that by (simp add: if_distrib [of "\<lambda>x. x * _"] cong: if_cong)
  have "(\<Sum>j<t. gram_of H r t (reg_of cfg) i j * x ! j) = matched H r t y i" if i: "i < t" for i
  proof -
    have "(\<Sum>j<t. gram_of H r t (reg_of cfg) i j * x ! j) = (\<Sum>j<t. \<Sum>k<t. entry G t i j * entry B t j k * matched H r t y k)"
      using i by (intro sum.cong) (simp_all add: x G sum_distrib_left mult.assoc)
    also have "\<dots> = (\<Sum>k<t. (\<Sum>j<t. entry G t i j * entry B t j k) * matched H r t y k)"
      by (subst sum.swap) (simp add: sum_distrib_right)
    also have "\<dots> = (\<Sum>k<t. (if i = k then 1 else 0) * matched H r t y k)"
      using i by (intro sum.cong) (simp_all add: mat_inv_ok(3) [OF B])
    finally show ?thesis using delta [OF i] by simp
  qed
  then show "solves H (nat n_rx) (nat n_tx) (reg_of cfg) y x" using rt lx by (simp add: solves_def)
  show "z = x" if "solves H (nat n_rx) (nat n_tx) (reg_of cfg) y z"
  proof (rule nth_equalityI)
    from that rt have z: "length z = t" "\<And>i. i < t \<Longrightarrow> (\<Sum>j<t. gram_of H r t (reg_of cfg) i j * z ! j) = matched H r t y i"
      by (simp_all add: solves_def)
    then show "length z = length x" using lx by simp
    fix i assume "i < length z"
    then have i: "i < t" using z(1) by simp
    have "x ! i = (\<Sum>j<t. \<Sum>k<t. entry B t i j * entry G t j k * z ! k)"
      unfolding x [OF i] by (intro sum.cong) (simp_all add: z(2) [symmetric] G sum_distrib_left mult.assoc)
    also have "\<dots> = (\<Sum>k<t. (\<Sum>j<t. entry B t i j * entry G t j k) * z ! k)"
      by (subst sum.swap) (simp add: sum_distrib_right)
    also have "\<dots> = (\<Sum>k<t. (if i = k then 1 else 0) * z ! k)"
      using i by (intro sum.cong) (simp_all add: mat_inv_ok(2) [OF B])
    finally show "z ! i = x ! i" using delta [OF i] by simp
  qed
qed

text \<open>Without regularisation the sent vector solves the equations of its own reception.\<close>

lemma sent_solves:
  assumes "length s = t" "length y = r" "\<And>k. k < r \<Longrightarrow> y ! k = (\<Sum>j<t. entry H t k j * s ! j)"
  shows "solves H r t 0 y s"
proof -
  have "(\<Sum>j<t. gram_of H r t 0 i j * s ! j) = matched H r t y i" for i
  proof -
    have "(\<Sum>j<t. gram_of H r t 0 i j * s ! j) = (\<Sum>j<t. \<Sum>k<r. cnj (entry H t k i) * (entry H t k j * s ! j))"
      by (simp add: gram_of_def sum_distrib_right mult.assoc cong: if_cong)
    also have "\<dots> = (\<Sum>k<r. cnj (entry H t k i) * y ! k)"
      by (subst sum.swap) (simp add: assms(3) sum_distrib_left)
    finally show ?thesis by (simp add: matched_def)
  qed
  then show ?thesis using assms(1) by (simp add: solves_def)
qed

section \<open>Totality\<close>

text \<open>What the channel makes of a vector of layers, and the quadratic form of the Gram matrix.\<close>

definition through :: "complexvec \<Rightarrow> nat \<Rightarrow> (nat \<Rightarrow> complex) \<Rightarrow> nat \<Rightarrow> complex" where
  "through H t x k = (\<Sum>j<t. entry H t k j * x j)"

lemma energy_complex: "complex_of_real (energy n x) = (\<Sum>i<n. cnj (x i) * x i)"
  unfolding energy_def of_real_sum by (rule sum.cong) (simp_all only: complex_norm_square mult.commute)

lemma gram_form:
  "(\<Sum>i<t. cnj (x i) * (\<Sum>j<t. gram_of H r t reg i j * x j)) = complex_of_real (energy r (through H t x) + reg * energy t x)"
proof -
  let ?z = "through H t x"
  have g: "(\<Sum>j<t. gram_of H r t reg i j * x j) = (\<Sum>k<r. cnj (entry H t k i) * ?z k) + complex_of_real reg * x i" if "i < t" for i
  proof -
    have "(\<Sum>j<t. gram_of H r t reg i j * x j) =
        (\<Sum>j<t. \<Sum>k<r. cnj (entry H t k i) * (entry H t k j * x j)) + (\<Sum>j<t. if i = j then complex_of_real reg * x j else 0)"
      by (simp add: gram_of_def distrib_right sum.distrib sum_distrib_right mult.assoc if_distrib [of "\<lambda>c. c * _"] cong: if_cong)
    also have "(\<Sum>j<t. \<Sum>k<r. cnj (entry H t k i) * (entry H t k j * x j)) = (\<Sum>k<r. cnj (entry H t k i) * ?z k)"
      unfolding through_def by (subst sum.swap) (simp add: sum_distrib_left)
    finally show ?thesis using that by simp
  qed
  have "(\<Sum>i<t. cnj (x i) * (\<Sum>j<t. gram_of H r t reg i j * x j)) =
      (\<Sum>i<t. cnj (x i) * ((\<Sum>k<r. cnj (entry H t k i) * ?z k) + complex_of_real reg * x i))"
    by (rule sum.cong) (simp_all only: g lessThan_iff)
  also have "\<dots> = (\<Sum>i<t. \<Sum>k<r. cnj (entry H t k i * x i) * ?z k) + (\<Sum>i<t. complex_of_real reg * (cnj (x i) * x i))"
    by (simp add: distrib_left sum.distrib sum_distrib_left mult_ac)
  also have "(\<Sum>i<t. \<Sum>k<r. cnj (entry H t k i * x i) * ?z k) = (\<Sum>k<r. cnj (?z k) * ?z k)"
    by (subst sum.swap) (simp add: through_def sum_distrib_right)
  finally show ?thesis by (simp only: of_real_add of_real_mult energy_complex sum_distrib_left)
qed

lemma gram_stretches:
  assumes "\<And>x. m * energy t x \<le> energy r (through H t x)" "0 \<le> m + reg"
  shows "(m + reg)\<^sup>2 * energy t x \<le> energy t (\<lambda>i. \<Sum>j<t. gram_of H r t reg i j * x j)"
proof -
  let ?g = "\<lambda>i. \<Sum>j<t. gram_of H r t reg i j * x j" and ?s = "m + reg"
  have sq: "2 * ?s * Re (cnj u * v) - ?s\<^sup>2 * (cmod u)\<^sup>2 \<le> (cmod v)\<^sup>2" for u v
  proof -
    have "0 \<le> (cmod (v - complex_of_real ?s * u))\<^sup>2" by simp
    then show ?thesis by (simp only: cmod_power2) (simp add: power2_eq_square algebra_simps)
  qed
  have "Re (\<Sum>i<t. cnj (x i) * ?g i) = energy r (through H t x) + reg * energy t x" by (simp only: gram_form Re_complex_of_real)
  then have re: "?s * energy t x \<le> Re (\<Sum>i<t. cnj (x i) * ?g i)" using assms(1) [of x] by (simp add: distrib_right)
  have "?s\<^sup>2 * energy t x = 2 * ?s * (?s * energy t x) - ?s\<^sup>2 * energy t x" by (simp add: power2_eq_square)
  also have "\<dots> \<le> 2 * ?s * Re (\<Sum>i<t. cnj (x i) * ?g i) - ?s\<^sup>2 * energy t x"
    using re assms(2) by (intro diff_right_mono mult_left_mono) simp_all
  also have "\<dots> = (\<Sum>i<t. 2 * ?s * Re (cnj (x i) * ?g i) - ?s\<^sup>2 * (cmod (x i))\<^sup>2)"
    by (simp only: energy_def Re_sum sum_subtractf sum_distrib_left)
  also have "\<dots> \<le> energy t ?g" unfolding energy_def by (rule sum_mono) (rule sq)
  finally show ?thesis .
qed

lemma equalize_sample_succeeds:
  assumes "length y = r" "length H = r * t" "1 \<le> t" "t \<le> 4" "1 \<le> r" "r \<le> 4"
    and "\<And>x. m * energy t x \<le> energy r (through H t x)" "2 / 10 ^ 14 < m + reg_of cfg"
  shows "\<exists>x. equalize_sample y H (int r) (int t) cfg = Inr x"
proof -
  let ?Hh = "mat_herm H r t" and ?reg = "reg_of cfg"
  obtain C where C: "mat_mul ?Hh t r H r t = Inr C" "length C = t * t"
    and Ce: "\<And>i j. i < t \<Longrightarrow> j < t \<Longrightarrow> entry C t i j = (\<Sum>k<r. entry ?Hh r i k * entry H t k j)"
    using mat_mul_ok [of ?Hh t r H t] by blast
  define G where "G = (if ?reg \<noteq> 0 then let I = mat_eye t (complex_of_real ?reg) in map (\<lambda>i. C ! i + I ! i) [0..<length C] else C)"
  have "entry G t i j = gram_of H r t ?reg i j" if "i < t" "j < t" for i j
  proof -
    note ij = grid_index_less [OF that]
    have "entry C t i j = (\<Sum>k<r. cnj (entry H t k i) * entry H t k j)"
      unfolding Ce [OF that] using that by (simp add: mat_herm_entry)
    then show ?thesis using ij C(2) mat_eye_entry [OF that, of "complex_of_real ?reg"]
      by (cases "i = j") (auto simp: G_def gram_of_def Let_def)
  qed
  then have "energy t (\<lambda>i. \<Sum>j<t. entry G t i j * x j) = energy t (\<lambda>i. \<Sum>j<t. gram_of H r t ?reg i j * x j)" for x
    unfolding energy_def by (intro sum.cong) simp_all
  moreover have s: "0 \<le> m + ?reg" using assms(8) by simp
  ultimately have stretch: "(m + ?reg)\<^sup>2 * energy t x \<le> energy t (\<lambda>i. \<Sum>j<t. entry G t i j * x j)" for x
    using gram_stretches [OF assms(7) s] by simp
  have "(2 / 10 ^ 14)\<^sup>2 < (m + ?reg)\<^sup>2" using assms(8) by (intro power_strict_mono) simp_all
  moreover have "real t * (1 / 10 ^ 14)\<^sup>2 \<le> 4 * (1 / 10 ^ 14)\<^sup>2" using assms(4) by (intro mult_right_mono) simp_all
  ultimately have "real t * (1 / 10 ^ 14)\<^sup>2 < (m + ?reg)\<^sup>2" by (simp add: power_divide)
  from mat_inv_total [OF stretch this] obtain B where B: "mat_inv G t = Inr B" ..
  obtain W where W: "mat_mul B t t ?Hh t r = Inr W" using mat_mul_ok [of B t t ?Hh r] by blast
  obtain x where x: "mat_vec W t r y = Inr x" using mat_vec_ok [OF assms(1)] by blast
  have "r * t \<le> 4 * 4" using assms(4,6) by (intro mult_le_mono)
  then have "int_ok (int r * int t)" "to_int32 (length H) = int r * int t" using assms(2) by (simp_all add: int_ok_def flip: of_nat_mult)
  then show ?thesis using assms(1,3-6) C(1) B W x by (simp add: equalize_sample_def G_def [symmetric])
qed

text \<open>Orthonormal columns, for the equaliser without regularisation.\<close>

lemma equalize_sample_total:
  assumes "length y = r" "length H = r * t" "1 \<le> t" "t \<le> 4" "1 \<le> r" "r \<le> 4" "reg_of cfg = 0"
    and "\<And>i j. i < t \<Longrightarrow> j < t \<Longrightarrow> gram_of H r t 0 i j = (if i = j then 1 else 0)"
  shows "\<exists>x. equalize_sample y H (int r) (int t) cfg = Inr x"
proof (rule equalize_sample_succeeds [where m = 1])
  fix x
  have "(\<Sum>i<t. cnj (x i) * (\<Sum>j<t. gram_of H r t 0 i j * x j)) = (\<Sum>i<t. cnj (x i) * (\<Sum>j<t. if i = j then x j else 0))"
    by (intro sum.cong arg_cong2 [where f = "(*)"]) (simp_all add: assms(8))
  also have "\<dots> = complex_of_real (energy t x)" by (simp add: energy_complex)
  finally have "complex_of_real (energy r (through H t x)) = complex_of_real (energy t x)" using gram_form [where reg = 0] by simp
  then show "1 * energy t x \<le> energy r (through H t x)" by (simp only: of_real_eq_iff)
qed (use assms in simp_all)

section \<open>Noise\<close>

text \<open>Zero forcing does not amplify the energy of the noise by more than \<open>1 / m\<close>, where \<open>m\<close> is a lower bound
  of the energy gain of the channel.\<close>

lemma energy_of_residual:
  assumes "energy r z = Re (\<Sum>k<r. cnj (z k) * n k)"
  shows "energy r z \<le> energy r n"
proof -
  have sq: "2 * Re (cnj u * v) \<le> (cmod u)\<^sup>2 + (cmod v)\<^sup>2" for u v
  proof -
    have "0 \<le> (cmod (v - u))\<^sup>2" by simp
    then show ?thesis by (simp only: cmod_power2) (simp add: power2_eq_square algebra_simps)
  qed
  have "2 * energy r z = (\<Sum>k<r. 2 * Re (cnj (z k) * n k))" by (simp only: assms Re_sum sum_distrib_left)
  also have "\<dots> \<le> (\<Sum>k<r. (cmod (z k))\<^sup>2 + (cmod (n k))\<^sup>2)" by (rule sum_mono) (rule sq)
  also have "\<dots> = energy r z + energy r n" by (simp only: energy_def sum.distrib)
  finally show ?thesis by simp
qed

lemma matched_through:
  "(\<Sum>i<t. cnj (x i) * (\<Sum>k<r. cnj (entry H t k i) * n k)) = (\<Sum>k<r. cnj (through H t x k) * n k)"
  by (simp only: sum_distrib_left, subst sum.swap) (simp add: through_def sum_distrib_right sum_distrib_left mult_ac)

lemma solves_error_energy:
  assumes "solves H r t 0 y x" "length s = t" "length y = r" "\<And>k. k < r \<Longrightarrow> y ! k = through H t (\<lambda>j. s ! j) k + n k"
    and "\<And>x. m * energy t x \<le> energy r (through H t x)"
  shows "m * energy t (\<lambda>i. x ! i - s ! i) \<le> energy r n"
proof -
  let ?e = "\<lambda>i. x ! i - s ! i" and ?c = "map (through H t (\<lambda>j. s ! j)) [0..<r]"
  have "solves H r t 0 ?c s" by (rule sent_solves [OF assms(2)]) (simp_all add: through_def)
  then have s: "(\<Sum>j<t. gram_of H r t 0 i j * s ! j) = matched H r t ?c i" if "i < t" for i using that by (simp add: solves_def)
  have "(\<Sum>j<t. gram_of H r t 0 i j * ?e j) = (\<Sum>k<r. cnj (entry H t k i) * n k)" if i: "i < t" for i
  proof -
    have "(\<Sum>j<t. gram_of H r t 0 i j * ?e j) = matched H r t y i - matched H r t ?c i"
      using assms(1) i by (simp add: solves_def right_diff_distrib sum_subtractf s [OF i])
    also have "\<dots> = (\<Sum>k<r. cnj (entry H t k i) * n k)"
      unfolding matched_def sum_subtractf [symmetric] by (rule sum.cong) (simp_all add: assms(4) distrib_left)
    finally show ?thesis .
  qed
  then have "(\<Sum>i<t. cnj (?e i) * (\<Sum>j<t. gram_of H r t 0 i j * ?e j)) = (\<Sum>k<r. cnj (through H t ?e k) * n k)"
    unfolding matched_through [symmetric] by (intro sum.cong) simp_all
  then have "complex_of_real (energy r (through H t ?e)) = (\<Sum>k<r. cnj (through H t ?e k) * n k)"
    by (simp only: gram_form mult_zero_left add_0_right)
  then have "energy r (through H t ?e) = Re (\<Sum>k<r. cnj (through H t ?e k) * n k)" by (metis Re_complex_of_real)
  from energy_of_residual [OF this] show ?thesis using assms(5) by (rule order_trans [rotated])
qed

section \<open>Streams\<close>

lemma sample_at_Inr:
  assumes "list_all (\<lambda>L. length L = T) ys" "t < T"
  shows "sample_at ys t = Inr (map (\<lambda>L. L ! t) ys)"
  unfolding sample_at_def using assms by (intro mapE_Inr) (simp add: list_all_iff)

lemma equalize_stream_InrE:
  assumes "equalize_stream ys H (int n) cfg = Inr xs" "list_all (\<lambda>L. length L = T) ys"
  shows "ys \<noteq> [] \<and> length xs = n \<and> (\<forall>c<n. length (xs ! c) = T) \<and>
    (\<forall>t<T. \<exists>x. equalize_sample (map (\<lambda>L. L ! t) ys) H (to_int32 (length ys)) (int n) cfg = Inr x \<and> (\<forall>c<n. xs ! c ! t = x ! c))"
proof -
  from assms(1) have ne: "ys \<noteq> []" by (auto simp: equalize_stream_def split: if_splits)
  then have T: "length (ys ! 0) = T" using assms(2) by (simp add: list_all_length)
  from assms(1) ne obtain zs where
    zs: "mapE (\<lambda>t. and_then (sample_at ys t) (\<lambda>y. equalize_sample y H (to_int32 (length ys)) (int n) cfg)) [0..<T] = Inr zs"
    and xs: "xs = map (\<lambda>c. map (\<lambda>t. zs ! t ! c) [0..<T]) [0..<n]"
    by (auto simp: equalize_stream_def Let_def T and_then_Inr_iff)
  have "equalize_sample (map (\<lambda>L. L ! t) ys) H (to_int32 (length ys)) (int n) cfg = Inr (zs ! t)" if "t < T" for t
    using mapE_Inr_nth [OF zs, of t] that by (simp add: sample_at_Inr [OF assms(2) that])
  then show ?thesis using ne by (simp add: xs)
qed

lemma equalize_stream_total:
  assumes "list_all (\<lambda>L. length L = T) ys" "ys \<noteq> []"
    and "\<And>t. t < T \<Longrightarrow> \<exists>x. equalize_sample (map (\<lambda>L. L ! t) ys) H (to_int32 (length ys)) (int n) cfg = Inr x"
  shows "\<exists>xs. equalize_stream ys H (int n) cfg = Inr xs"
proof -
  have T: "length (ys ! 0) = T" using assms(1,2) by (simp add: list_all_length)
  have "\<forall>t. \<exists>x. t < T \<longrightarrow> equalize_sample (map (\<lambda>L. L ! t) ys) H (to_int32 (length ys)) (int n) cfg = Inr x"
    using assms(3) by blast
  then obtain f where f: "\<And>t. t < T \<Longrightarrow> equalize_sample (map (\<lambda>L. L ! t) ys) H (to_int32 (length ys)) (int n) cfg = Inr (f t)"
    by metis
  have "mapE (\<lambda>t. and_then (sample_at ys t) (\<lambda>y. equalize_sample y H (to_int32 (length ys)) (int n) cfg)) [0..<T] = Inr (map f [0..<T])"
    by (rule mapE_Inr) (simp add: sample_at_Inr [OF assms(1)] f)
  then show ?thesis using assms(2) T by (simp add: equalize_stream_def Let_def)
qed

section \<open>Properties\<close>

text \<open>The equaliser solves its normal equations: whatever \<open>equalize_sample\<close> returns is the unique vector
  \<open>x\<close> with \<open>(H^H H + reg I) x = H^H y\<close>, where \<open>reg\<close> is the noise variance for MMSE, the parameter for
  RZF and zero for zero forcing.\<close>

theorem equalize_sample_unique:
  assumes "equalize_sample y H n_rx n_tx cfg = Inr x"
  shows "solves H (nat n_rx) (nat n_tx) (reg_of cfg) y z \<longleftrightarrow> z = x"
  using equalize_sample_solves [OF assms] by blast

theorem equalize_sample_unique_witness:
  "\<exists>x. equalize_sample [3, \<i>] [1, 0, 0, 1] 2 2 \<lparr>eq_type = ZF, eq_noise_var = 0, eq_delta = 0\<rparr> = Inr x \<and> solves [1, 0, 0, 1] 2 2 0 [3, \<i>] x"
proof -
  have g: "gram_of [1, 0, 0, 1] 2 2 0 i j = (if i = j then 1 else 0)" if "i < 2" "j < 2" for i j
    using less_2_cases [OF that(1)] less_2_cases [OF that(2)] by (auto simp: gram_of_def numeral_2_eq_2)
  have z: "reg_of \<lparr>eq_type = ZF, eq_noise_var = 0, eq_delta = 0\<rparr> = 0" by (simp add: reg_of_def)
  obtain x where "equalize_sample [3, \<i>] [1, 0, 0, 1] 2 2 \<lparr>eq_type = ZF, eq_noise_var = 0, eq_delta = 0\<rparr> = Inr x"
    using equalize_sample_total [of "[3, \<i>]" 2 "[1, 0, 0, 1]" 2, OF _ _ _ _ _ _ z] g by auto
  with equalize_sample_unique [OF this, of x] z show ?thesis by auto
qed

text \<open>C16: the equaliser succeeds, and its result is the one solution of the normal equations, whenever the
  regularisation and the least energy gain \<open>m\<close> of the channel together exceed \<open>2 * 10 ^ -14\<close>. With \<open>m = 0\<close> this is MMSE
  and RZF with a regularisation above that threshold, on every channel, rank deficient ones included. For zero forcing it is a
  channel whose gain is above the threshold; full column rank alone is not enough, since the code rejects pivots
  up to \<open>10 ^ -14\<close> (\<open>equalize_weak_channel\<close>).\<close>

theorem equalize_never_singular:
  assumes "length y = r" "length H = r * t" "1 \<le> t" "t \<le> 4" "1 \<le> r" "r \<le> 4"
    and "\<And>x. m * energy t x \<le> energy r (through H t x)" "2 / 10 ^ 14 < m + reg_of cfg"
  shows "\<exists>x. equalize_sample y H (int r) (int t) cfg = Inr x \<and> (\<forall>z. solves H r t (reg_of cfg) y z = (z = x))"
proof -
  obtain x where x: "equalize_sample y H (int r) (int t) cfg = Inr x" using equalize_sample_succeeds [OF assms] by blast
  note sol = equalize_sample_solves [OF x, unfolded nat_int]
  have "solves H r t (reg_of cfg) y z = (z = x)" for z using sol(1) sol(2) [of z] by blast
  with x show ?thesis by blast
qed

text \<open>A channel of full column rank that zero forcing reports as singular.\<close>

lemma equalize_weak_channel:
  "equalize_sample [1] [complex_of_real (1 / 10 ^ 8)] 1 1 \<lparr>eq_type = ZF, eq_noise_var = nv, eq_delta = d\<rparr> =
     Inl (Error ''singular matrix in equalizer'')"
  by (simp add: equalize_sample_def reg_of_def int_ok_def Let_def mat_herm_def mat_mul_def mat_inv_def augment_def inv_col_def
      inv_pivot_def norm_divide)

theorem equalize_never_singular_witness:
  "\<exists>x. equalize_sample [1, \<i>, 2] (replicate 6 0) (int 3) (int 2) default_equalizer = Inr x \<and>
     (\<forall>z. solves (replicate 6 0) 3 2 (reg_of default_equalizer) [1, \<i>, 2] z = (z = x))"
  by (rule equalize_never_singular [where m = 0]) (simp_all add: energy_nonneg default_equalizer_def reg_of_def)

end
