(* ===== verification/Mimo.thy ===== *)
theory Mimo
  imports Channel Equalizer
begin

text \<open>
  \<open>include/nr_bb/mimo.hpp\<close> and \<open>src/mimo.cpp\<close>: the identity channel and the link that sends layers
  through the flat MIMO channel and equalises what arrives. The properties combine the channel of
  theory \<open>Channel\<close> with the solver of theory \<open>Equalizer\<close>.
\<close>

section \<open>The code\<close>

record mimo_link_result =
  ml_rx :: "complexvec list"
  ml_equalized :: "complexvec list"

definition default_mimo :: mimo_config where
  "default_mimo = channel_config.extend default_channel \<lparr>ch_n_tx = 1, ch_n_rx = 1, ch_H = []\<rparr>"

definition identity_mimo :: "int \<Rightarrow> real \<Rightarrow> u32 \<Rightarrow> mimo_config result" where
  "identity_mimo n snr_db seed =
     and_then (require (n = 1 \<or> n = 2 \<or> n = 4) ''n must be 1,2,4'') (\<lambda>_.
     let zero = replicate (nat (n * n)) 0
     in Inr (default_mimo\<lparr>ch_n_tx := n, ch_n_rx := n, ch_snr_db := snr_db, ch_seed := seed,
          ch_H := foldl (\<lambda>H i. H[i * nat n + i := 1]) zero [0..<nat n]\<rparr>))"

definition run_mimo_link :: "noise_source \<Rightarrow> complexvec list \<Rightarrow> mimo_config \<Rightarrow> equalizer_config \<Rightarrow> mimo_link_result result" where
  "run_mimo_link gauss tx ch eq =
     and_then (apply_mimo_channel gauss tx ch) (\<lambda>rx.
     and_then (equalize_stream rx (ch_H ch) (ch_n_tx ch) eq) (\<lambda>e.
     Inr \<lparr>ml_rx = rx, ml_equalized = e\<rparr>))"

section \<open>Lemmas\<close>

text \<open>A sample of the channel: the layers through the matrix, rotated by the carrier offset, plus two draws.\<close>

definition offset_at :: "mimo_config \<Rightarrow> nat \<Rightarrow> complex" where
  "offset_at cfg t = rotation (2 * pi * ch_cfo cfg * real t / ch_rate cfg)"

definition draw_at :: "(nat \<Rightarrow> real) \<Rightarrow> mimo_config \<Rightarrow> nat \<Rightarrow> nat \<Rightarrow> complex" where
  "draw_at g cfg t r = (let k = 2 * (t * nat (ch_n_rx cfg) + r) in Complex (g k) (g (k + 1)))"

lemma mimo_sample_through:
  assumes "mimo_ok cfg tx"
  shows "mimo_sample g tx cfg r t =
    through (ch_H cfg) (length tx) (\<lambda>c. map (\<lambda>L. offset_at cfg t * L ! t) tx ! c) r + draw_at g cfg t r"
  using assms by (simp add: mimo_sample_def foldl_sum mimo_ok_def through_def offset_at_def draw_at_def Let_def)
    (simp add: sum_distrib_left mult_ac)

lemma identity_H:
  assumes "n = 1 \<or> n = 2 \<or> n = (4::int)"
  shows "foldl (\<lambda>H i. H[i * nat n + i := 1]) (replicate (nat (n * n)) 0) [0..<nat n] = mat_eye (nat n) 1"
  using assms by (auto simp: mat_eye_def nat_mult_distrib)

lemma length_mat_eye [simp]: "length (mat_eye n s) = n * n"
proof -
  have "length (foldl (\<lambda>I i. I[i * n + i := s]) (replicate (n * n) 0) is) = n * n" for "is"
    by (induction "is" rule: rev_induct) simp_all
  then show ?thesis by (simp add: mat_eye_def)
qed

lemma gram_identity:
  assumes "i < n" "j < n"
  shows "gram_of (mat_eye n 1) n n 0 i j = (if i = j then 1 else 0)"
proof -
  have "(\<Sum>k<n. cnj (entry (mat_eye n 1) n k i) * entry (mat_eye n 1) n k j) =
      (\<Sum>k<n. if k = i then (if i = j then 1 else 0) else 0)"
    by (rule sum.cong) (use assms in \<open>auto simp: mat_eye_entry\<close>)
  then show ?thesis using assms by (simp add: gram_of_def cong: if_cong)
qed

lemma identity_through: "k < n \<Longrightarrow> through (mat_eye n 1) n x k = x k"
  by (simp add: through_def mat_eye_entry if_distrib [of "\<lambda>c. c * _"] cong: if_cong)

text \<open>The result of the link on a channel with gain.\<close>

lemma link_error:
  assumes "mimo_ok cfg tx" "length tx \<le> 4" "1 \<le> ch_n_rx cfg" "ch_n_rx cfg \<le> 4" "reg_of eq = 0" "2 / 10 ^ 14 < m"
    and "\<And>x. m * energy (length tx) x \<le> energy (nat (ch_n_rx cfg)) (through (ch_H cfg) (length tx) x)"
  shows "\<exists>r. run_mimo_link gauss tx cfg eq = Inr r \<and> length (ml_equalized r) = length tx \<and>
    list_all (\<lambda>L. length L = length (tx ! 0)) (ml_equalized r) \<and>
    (\<forall>t<length (tx ! 0). m * energy (length tx) (\<lambda>c. ml_equalized r ! c ! t - offset_at cfg t * tx ! c ! t) \<le>
       energy (nat (ch_n_rx cfg)) (draw_at (gauss (ch_seed cfg) (awgn_sigma (ch_snr_db cfg))) cfg t))"
proof -
  let ?T = "length (tx ! 0)" and ?n = "length tx" and ?g = "gauss (ch_seed cfg) (awgn_sigma (ch_snr_db cfg))"
  define R where "R = nat (ch_n_rx cfg)"
  define rx where "rx = map (\<lambda>r. map (\<lambda>t. mimo_sample ?g tx cfg r t) [0..<?T]) [0..<R]"
  define y where "y t = map (\<lambda>L. L ! t) rx" for t
  have rx: "apply_mimo_channel gauss tx cfg = Inr rx" using apply_mimo_channel_Inr [OF assms(1)] by (simp add: rx_def R_def)
  have R: "1 \<le> R" "R \<le> 4" "length rx = R" "to_int32 R = int R" and n: "1 \<le> ?n" "ch_n_tx cfg = int ?n" "length (ch_H cfg) = R * ?n"
    using assms(1-4) by (auto simp: R_def rx_def mimo_ok_def Suc_le_eq)
  have T: "list_all (\<lambda>L. length L = ?T) rx" by (simp add: rx_def list_all_iff)
  have y: "length (y t) = R" "\<And>k. k < R \<Longrightarrow> t < ?T \<Longrightarrow> y t ! k =
      through (ch_H cfg) ?n (\<lambda>c. map (\<lambda>L. offset_at cfg t * L ! t) tx ! c) k + draw_at ?g cfg t k" for t
    by (simp_all add: y_def rx_def mimo_sample_through [OF assms(1)])
  have sample: "\<exists>x. equalize_sample (y t) (ch_H cfg) (int R) (int ?n) eq = Inr x" for t
    by (rule equalize_sample_succeeds [OF y(1) n(3,1) assms(2) R(1,2)]) (use assms(5-7) in \<open>simp_all add: R_def\<close>)
  have "rx \<noteq> []" using R(1,3) by auto
  then obtain xs where xs: "equalize_stream rx (ch_H cfg) (int ?n) eq = Inr xs"
    using equalize_stream_total [OF T, of "ch_H cfg" ?n eq] sample by (auto simp: R(3,4) y_def)
  note sh = equalize_stream_InrE [OF xs T, unfolded R(3,4), folded y_def]
  have "m * energy ?n (\<lambda>c. xs ! c ! t - offset_at cfg t * tx ! c ! t) \<le> energy R (draw_at ?g cfg t)" if t: "t < ?T" for t
  proof -
    obtain x where x: "equalize_sample (y t) (ch_H cfg) (int R) (int ?n) eq = Inr x" "\<And>c. c < ?n \<Longrightarrow> xs ! c ! t = x ! c"
      using sh t by blast
    have "solves (ch_H cfg) R ?n 0 (y t) x" using equalize_sample_solves(1) [OF x(1)] assms(5) by simp
    from solves_error_energy [OF this _ y(1) y(2) [OF _ t], of m] assms(7)
    have "m * energy ?n (\<lambda>c. x ! c - map (\<lambda>L. offset_at cfg t * L ! t) tx ! c) \<le> energy R (draw_at ?g cfg t)" by (simp add: R_def)
    then show ?thesis using x(2) by (simp add: energy_def)
  qed
  moreover have "list_all (\<lambda>L. length L = ?T) xs" using sh by (simp add: list_all_length)
  ultimately show ?thesis using rx xs n(2) sh by (simp add: run_mimo_link_def R_def)
qed

lemma identity_mimo_fields:
  assumes "identity_mimo n snr_db seed = Inr cfg" "length tx = nat n" "list_all (\<lambda>L. length L = length (tx ! 0)) tx"
  shows "mimo_ok cfg tx" "length tx \<le> 4" "ch_n_rx cfg = int (length tx)" "ch_H cfg = mat_eye (length tx) 1" "1 \<le> length tx"
    "offset_at cfg t = 1"
proof -
  from assms(1) have n: "n = 1 \<or> n = 2 \<or> n = 4"
    and cfg: "cfg = default_mimo\<lparr>ch_n_tx := n, ch_n_rx := n, ch_snr_db := snr_db, ch_seed := seed, ch_H := mat_eye (nat n) 1\<rparr>"
    by (auto simp: identity_mimo_def Let_def identity_H split: if_splits)
  have fields: "ch_n_tx cfg = n" "ch_n_rx cfg = n" "ch_H cfg = mat_eye (nat n) 1" "ch_cfo cfg = 0" "ch_rate cfg = 1000000"
    by (simp_all add: cfg default_mimo_def default_channel_def channel_config.defs)
  then show "mimo_ok cfg tx" "length tx \<le> 4" "ch_n_rx cfg = int (length tx)" "ch_H cfg = mat_eye (length tx) 1" "1 \<le> length tx"
    "offset_at cfg t = 1" using assms(2,3) n by (auto simp: mimo_ok_def offset_at_def)
qed

section \<open>Properties\<close>

text \<open>C28: the link with zero forcing over a flat MIMO channel of any noise, carrier offset, number of receive antennas and
  number of samples. If the channel passes on at least \<open>m > 2 * 10 ^ -14\<close> of the energy of every vector of
  layers, the link returns, and in every sample period the equalised layers are the sent ones, rotated by the carrier offset, up to an
  error whose energy is at most \<open>1 / m\<close> times that of the draws added in this period. Without noise
  and offset it therefore returns the layers themselves. The channel of \<open>identity_mimo\<close> has \<open>m = 1\<close> and no offset.\<close>

theorem mimo_link_recovers:
  assumes "mimo_ok cfg tx" "length tx \<le> 4" "1 \<le> ch_n_rx cfg" "ch_n_rx cfg \<le> 4" "reg_of eq = 0" "2 / 10 ^ 14 < m"
    and "\<And>x. m * energy (length tx) x \<le> energy (nat (ch_n_rx cfg)) (through (ch_H cfg) (length tx) x)"
  shows "\<exists>r. run_mimo_link gauss tx cfg eq = Inr r \<and> length (ml_equalized r) = length tx \<and>
    list_all (\<lambda>L. length L = length (tx ! 0)) (ml_equalized r) \<and>
    (\<forall>t<length (tx ! 0). m * energy (length tx) (\<lambda>c. ml_equalized r ! c ! t - offset_at cfg t * tx ! c ! t) \<le>
       energy (nat (ch_n_rx cfg)) (draw_at (gauss (ch_seed cfg) (awgn_sigma (ch_snr_db cfg))) cfg t))"
  using assms by (rule link_error)

text \<open>On the identity channel, with draws of one deviation each at 20 dB.\<close>

theorem mimo_link_recovers_witness:
  "\<exists>ident r. identity_mimo 2 20 7 = Inr ident \<and>
    run_mimo_link (\<lambda>_ sigma _. sigma) [[1, \<i>], [2, 3]] ident \<lparr>eq_type = ZF, eq_noise_var = 1, eq_delta = 1\<rparr> = Inr r \<and>
    (cmod (ml_equalized r ! 0 ! 1 - \<i>))\<^sup>2 + (cmod (ml_equalized r ! 1 ! 1 - 3))\<^sup>2 \<le> 4 * (awgn_sigma 20)\<^sup>2"
proof -
  obtain cfg where i: "identity_mimo 2 20 7 = Inr cfg" by (simp add: identity_mimo_def Let_def)
  then have snr: "ch_snr_db cfg = 20" by (auto simp: identity_mimo_def Let_def)
  let ?tx = "[[1, \<i>], [2, 3]]" and ?eq = "\<lparr>eq_type = ZF, eq_noise_var = 1, eq_delta = 1\<rparr>"
  have "length ?tx = nat 2" "list_all (\<lambda>L. length L = length (?tx ! 0)) ?tx" by simp_all
  note f = identity_mimo_fields [OF i this]
  have gain: "1 * energy (length ?tx) x \<le> energy (nat (ch_n_rx cfg)) (through (ch_H cfg) (length ?tx) x)" for x
    unfolding f(3,4) energy_def by (simp add: identity_through del: list.size)
  have n: "1 \<le> ch_n_rx cfg" "ch_n_rx cfg \<le> 4" "reg_of ?eq = 0" "(2 :: real) / 10 ^ 14 < 1" using f(3) by (simp_all add: reg_of_def)
  obtain r where r: "run_mimo_link (\<lambda>_ sigma _. sigma) ?tx cfg ?eq = Inr r"
    and e: "\<And>t. t < length (?tx ! 0) \<Longrightarrow> 1 * energy (length ?tx) (\<lambda>c. ml_equalized r ! c ! t - offset_at cfg t * ?tx ! c ! t) \<le>
      energy (nat (ch_n_rx cfg)) (draw_at (\<lambda>_. awgn_sigma (ch_snr_db cfg)) cfg t)"
    using mimo_link_recovers [OF f(1,2) n gain, of "\<lambda>_ sigma _. sigma"] by blast
  have two: "length ?tx = 2" "nat (ch_n_rx cfg) = 2" using f(3) by simp_all
  have e: "energy 2 (\<lambda>c. ml_equalized r ! c ! 1 - offset_at cfg 1 * ?tx ! c ! 1) \<le> energy 2 (draw_at (\<lambda>_. awgn_sigma 20) cfg 1)"
    using e [of 1] unfolding two snr by simp
  have two_terms: "energy 2 f = (cmod (f 0))\<^sup>2 + (cmod (f 1))\<^sup>2" for f :: "nat \<Rightarrow> complex"
    by (simp add: energy_def lessThan_Suc numeral_2_eq_2)
  have "(cmod (Complex s s))\<^sup>2 = 2 * s\<^sup>2" for s by (simp add: cmod_power2)
  then have "(cmod (ml_equalized r ! 0 ! 1 - \<i>))\<^sup>2 + (cmod (ml_equalized r ! 1 ! 1 - 3))\<^sup>2 \<le> 4 * (awgn_sigma 20)\<^sup>2"
    using e by (simp add: two_terms draw_at_def f(6))
  with i r show ?thesis by blast
qed

end
