(* ===== verification/Fronthaul.thy ===== *)
theory Fronthaul
  imports CInt "HOL-Library.Multiset" "HOL-Library.Sublist"
begin

text \<open>
  \<open>include/nr_bb/fronthaul.hpp\<close> and \<open>src/fronthaul.cpp\<close>: U-plane packets, the impairment emulator and
  the capture file. The values of \<open>std::uniform_real_distribution\<close> are implementation-defined, so the
  parameter \<open>uni\<close> gives them: \<open>uni seed k\<close> is the \<open>k\<close>-th draw after seeding; its documented range
  \<open>[0, 1)\<close> is the hypothesis \<open>uniform\<close>. The emulator state is the list sent so far and the number of
  draws used, which the early \<open>continue\<close> and the short-circuit conditions of the code determine. The
  file is the list of its bytes.
\<close>

section \<open>The code\<close>

datatype plane = Plane_C | Plane_U | Plane_S

definition plane_code :: "plane \<Rightarrow> u8" where
  "plane_code p = (case p of Plane_C \<Rightarrow> 0 | Plane_U \<Rightarrow> 1 | Plane_S \<Rightarrow> 2)"

record ecpri_meta =
  em_pc_id :: u16
  em_seq_id :: u16
  em_msg_type :: u8
  em_timestamp :: u64
  em_plane :: plane

record fh_packet =
  fp_meta :: ecpri_meta
  fp_iq :: complexvec
  fp_raw :: "u8 list"

record fh_impairments =
  im_loss :: real
  im_reorder :: real
  im_delay :: int
  im_corrupt :: real
  im_seed :: u32

definition default_impairments :: fh_impairments where
  "default_impairments = \<lparr>im_loss = 0, im_reorder = 0, im_delay = 0, im_corrupt = 0, im_seed = 1\<rparr>"

definition make_u_plane :: "complexvec \<Rightarrow> u16 \<Rightarrow> u16 \<Rightarrow> u64 \<Rightarrow> fh_packet" where
  "make_u_plane iq pc_id sq t_ns =
     (let meta = \<lparr>em_pc_id = pc_id, em_seq_id = sq, em_msg_type = 0, em_timestamp = t_ns, em_plane = Plane_U\<rparr>;
          raw = replicate (16 + length iq * 16) 0
      in \<lparr>fp_meta = meta, fp_iq = iq,
          fp_raw = raw[0 := em_msg_type meta, 1 := plane_code (em_plane meta),
            2 := ucast (pc_id AND 0xff), 3 := ucast (drop_bit 8 pc_id AND 0xff),
            4 := ucast (sq AND 0xff), 5 := ucast (drop_bit 8 sq AND 0xff)]\<rparr>)"

definition corrupt_packet :: "fh_packet \<Rightarrow> fh_packet" where
  "corrupt_packet p =
     p\<lparr>fp_iq := (fp_iq p)[0 := fp_iq p ! 0 + Complex 10 (- 10)],
       fp_raw := (if fp_raw p = [] then [] else (fp_raw p)[0 := fp_raw p ! 0 XOR 0xFF])\<rparr>"

definition impair_step :: "(nat \<Rightarrow> real) \<Rightarrow> fh_impairments \<Rightarrow> fh_packet list \<times> nat \<Rightarrow> fh_packet \<Rightarrow> fh_packet list \<times> nat" where
  "impair_step u imp st p =
     (case st of (out, k) \<Rightarrow>
        if u k < im_loss imp then (out, k + 1)
        else (out @ [if u (k + 1) < im_corrupt imp \<and> fp_iq p \<noteq> [] then corrupt_packet p else p], k + 2))"

definition reorder_packets :: "(nat \<Rightarrow> real) \<Rightarrow> fh_impairments \<Rightarrow> nat \<Rightarrow> fh_packet list \<Rightarrow> fh_packet list" where
  "reorder_packets u imp k out =
     (if im_reorder imp > 0 \<and> length out \<ge> 2 \<and> u k < im_reorder imp then swap_at 0 (length out - 1) out else out)"

definition delay_packets :: "fh_impairments \<Rightarrow> fh_packet list \<Rightarrow> fh_packet list result" where
  "delay_packets imp out =
     (if im_delay imp > 0 \<and> out \<noteq> []
      then if to_int32 (length out) = 0 then Inl (Undefined ''division by zero'')
           else let d = nat (c_rem (im_delay imp) (to_int32 (length out))) in Inr (drop d out @ take d out)
      else Inr out)"

definition apply_impairments :: "(u32 \<Rightarrow> nat \<Rightarrow> real) \<Rightarrow> fh_impairments \<Rightarrow> fh_packet list \<Rightarrow> fh_packet list result" where
  "apply_impairments uni imp pkts =
     (let u = uni (im_seed imp) in
      case foldl (impair_step u imp) ([], 0) pkts of (out, k) \<Rightarrow> delay_packets imp (reorder_packets u imp k out))"

definition loopback :: "(u32 \<Rightarrow> nat \<Rightarrow> real) \<Rightarrow> fh_impairments \<Rightarrow> fh_packet list \<Rightarrow> fh_packet list result" where
  "loopback uni imp pkts = apply_impairments uni imp pkts"

definition pcap_global_header :: "u8 list" where
  "pcap_global_header = [0xd4, 0xc3, 0xb2, 0xa1, 0x02, 0x00, 0x04, 0x00, 0, 0, 0, 0,
     0, 0, 0, 0, 0xff, 0xff, 0x00, 0x00, 0x01, 0x00, 0x00, 0x00]"

definition pcap_record :: "fh_packet \<Rightarrow> u8 list" where
  "pcap_record p =
     (let len = of_nat (length (fp_raw p)) :: u32;
          b0 = ucast (len AND 0xff); b1 = ucast (drop_bit 8 len AND 0xff);
          b2 = ucast (drop_bit 16 len AND 0xff); b3 = ucast (drop_bit 24 len AND 0xff)
      in replicate 8 0 @ [b0, b1, b2, b3, b0, b1, b2, b3] @ fp_raw p)"

definition write_pcap_dump :: "bool \<Rightarrow> fh_packet list \<Rightarrow> u8 list result" where
  "write_pcap_dump good pkts =
     and_then (require good ''cannot open pcap dump path'') (\<lambda>_.
     Inr (pcap_global_header @ concat (map pcap_record pkts)))"

section \<open>The emulator\<close>

definition uniform :: "(u32 \<Rightarrow> nat \<Rightarrow> real) \<Rightarrow> bool" where
  "uniform uni \<longleftrightarrow> (\<forall>seed k. 0 \<le> uni seed k \<and> uni seed k < 1)"

text \<open>What the sending loop lets through, and which packets it corrupts.\<close>

definition impaired :: "(fh_packet \<times> bool) list \<Rightarrow> fh_packet list" where
  "impaired ps = map (\<lambda>(p, c). if c then corrupt_packet p else p) ps"

lemma impair_loop:
  assumes "\<And>k. 0 \<le> u k" "\<And>k. u k < 1"
  shows "\<exists>ps k. foldl (impair_step u imp) ([], 0) pkts = (impaired ps, k) \<and> subseq (map fst ps) pkts \<and>
    (im_corrupt imp \<le> 0 \<longrightarrow> list_all (\<lambda>(p, c). \<not> c) ps) \<and>
    (im_loss imp \<le> 0 \<longrightarrow> map fst ps = pkts) \<and> (1 \<le> im_loss imp \<longrightarrow> ps = [])"
proof (induction pkts rule: rev_induct)
  case (snoc p pkts)
  then obtain ps k where IH: "foldl (impair_step u imp) ([], 0) pkts = (impaired ps, k)" "subseq (map fst ps) pkts"
    "im_corrupt imp \<le> 0 \<longrightarrow> list_all (\<lambda>(p, c). \<not> c) ps" "im_loss imp \<le> 0 \<longrightarrow> map fst ps = pkts" "1 \<le> im_loss imp \<longrightarrow> ps = []" by blast
  show ?case
  proof (cases "u k < im_loss imp")
    case True
    then have "\<not> im_loss imp \<le> 0" using assms(1) [of k] by linarith
    moreover have "subseq (map fst ps) (pkts @ [p])" using IH(2) by (rule list_emb_prefix)
    moreover have "foldl (impair_step u imp) ([], 0) (pkts @ [p]) = (impaired ps, k + 1)"
      using True by (simp add: IH(1)) (simp add: impair_step_def)
    ultimately show ?thesis using IH by (intro exI [of _ ps]) simp
  next
    case False
    let ?c = "u (k + 1) < im_corrupt imp \<and> fp_iq p \<noteq> []"
    have "im_corrupt imp \<le> 0 \<longrightarrow> \<not> ?c" using assms(1) [of "k + 1"] by auto
    moreover have "\<not> 1 \<le> im_loss imp" using False assms(2) [of k] by linarith
    moreover have "subseq (map fst ps @ [p]) (pkts @ [p])" using IH(2) by simp
    moreover have "foldl (impair_step u imp) ([], 0) (pkts @ [p]) = (impaired (ps @ [(p, ?c)]), k + 2)"
      using False by (simp add: IH(1)) (simp add: impair_step_def impaired_def)
    ultimately show ?thesis using IH by (intro exI [of _ "ps @ [(p, ?c)]"]) simp
  qed
qed (simp add: impaired_def)

lemma mset_swap_ends: "length xs \<ge> 2 \<Longrightarrow> mset (swap_at 0 (length xs - 1) xs) = mset xs"
  unfolding swap_at_def by (rule mset_swap) auto

lemma mset_reorder: "mset (reorder_packets u imp k out) = mset out"
  using mset_swap_ends [of out] unfolding reorder_packets_def by (simp only: split: if_splits) blast

lemma delay_packets_ok:
  assumes "length out < 2147483648"
  shows "\<exists>r. delay_packets imp out = Inr r \<and> mset r = mset out \<and> (im_delay imp \<le> 0 \<longrightarrow> r = out)"
proof -
  have "mset (drop d out @ take d out) = mset out" for d by (metis add.commute append_take_drop_id mset_append)
  moreover have "to_int32 (length out) = 0 \<Longrightarrow> out = []" using assms by simp
  ultimately show ?thesis by (auto simp: delay_packets_def Let_def simp del: mset_append)
qed

section \<open>The capture file\<close>

text \<open>A reader of the format: the records after the global header, each announcing its length.\<close>

function pcap_records :: "u8 list \<Rightarrow> u8 list list option" where
  "pcap_records bs =
     (if bs = [] then Some []
      else if length bs < 16 then None
      else let n = unat (bs ! 8) + 256 * unat (bs ! 9) + 65536 * unat (bs ! 10) + 16777216 * unat (bs ! 11)
           in if length bs < 16 + n then None
              else map_option (\<lambda>rs. take n (drop 16 bs) # rs) (pcap_records (drop (16 + n) bs)))"
  by pat_completeness auto
termination by (relation "measure length") auto

declare pcap_records.simps [simp del]

definition pcap_read :: "u8 list \<Rightarrow> u8 list list option" where
  "pcap_read bs = (if take 24 bs = pcap_global_header then pcap_records (drop 24 bs) else None)"

lemma unat_byte: "unat (ucast (drop_bit s x AND 0xff) :: u8) = unat x div 2 ^ s mod 256" for x :: u32
proof -
  have "(0xff :: u32) = mask 8" by (simp add: mask_eq_exp_minus_1)
  then have "unat (ucast (drop_bit s x AND 0xff) :: u8) = take_bit 8 (take_bit 8 (unat (drop_bit s x)))"
    by (simp only: unsigned_ucast_eq take_bit_eq_mask [symmetric] unsigned_take_bit_eq) simp
  moreover have "unat (drop_bit s x) = unat x div 2 ^ s" by (subst unat_drop_bit_eq) (simp only: drop_bit_eq_div)
  ultimately show ?thesis by (simp only: take_bit_eq_mod) simp
qed

lemma bytes_value: "n mod 256 + 256 * (n div 256 mod 256) + 65536 * (n div 65536 mod 256) + 16777216 * (n div 16777216 mod 256) = n"
  if "n < 4294967296" for n :: nat
proof -
  have "n = n mod 256 + 256 * (n div 256)" by simp
  moreover have "n div 256 = n div 256 mod 256 + 256 * (n div 65536)" using div_mult2_eq [of n 256 256] by simp
  moreover have "n div 65536 = n div 65536 mod 256 + 256 * (n div 16777216)" using div_mult2_eq [of n 65536 256] by simp
  moreover have "n div 16777216 mod 256 = n div 16777216" using that by (simp add: less_mult_imp_div_less)
  ultimately show ?thesis by linarith
qed

lemma pcap_records_Cons:
  assumes "length (fp_raw p) < 4294967296"
  shows "pcap_records (pcap_record p @ bs) = map_option ((#) (fp_raw p)) (pcap_records bs)"
proof -
  let ?n = "length (fp_raw p)"
  let ?bs = "pcap_record p @ bs"
  have un: "unat (of_nat ?n :: u32) = ?n" using assms by (simp add: unat_of_nat)
  have byte: "unat (ucast (of_nat ?n AND 0xff :: u32) :: u8) = ?n mod 256"
    using unat_byte [of 0 "of_nat ?n"] un by simp
  have hd: "take 16 ?bs = take 16 (pcap_record p)" "length (pcap_record p) = 16 + ?n" "drop 16 (pcap_record p) = fp_raw p"
    by (simp_all add: pcap_record_def Let_def eval_nat_numeral)
  have "unat (?bs ! 8) + 256 * unat (?bs ! 9) + 65536 * unat (?bs ! 10) + 16777216 * unat (?bs ! 11) = ?n"
  proof -
    have "unat (?bs ! 8) = ?n mod 256" "unat (?bs ! 9) = ?n div 256 mod 256"
      "unat (?bs ! 10) = ?n div 65536 mod 256" "unat (?bs ! 11) = ?n div 16777216 mod 256"
      by (simp_all only: pcap_record_def Let_def) (simp_all add: nth_append byte unat_byte un)
    then show ?thesis by (simp only: bytes_value [OF assms])
  qed
  then show ?thesis using hd by (subst pcap_records.simps) (simp add: Let_def, simp add: pcap_record_def Let_def)
qed

section \<open>Properties\<close>

text \<open>C29: the emulator only loses, corrupts and reorders: what it returns is a rearrangement of the packets it
  let through, which come from the input in order; without a corruption probability none is changed,
  without a loss probability none is missing, with loss probability one nothing is sent, and without
  reordering and delay the order is kept.\<close>

theorem impairments_ok:
  assumes "uniform uni" "length pkts < 2147483648"
  shows "\<exists>ps out. apply_impairments uni imp pkts = Inr out \<and> loopback uni imp pkts = Inr out \<and>
    mset out = mset (impaired ps) \<and> subseq (map fst ps) pkts \<and>
    (im_corrupt imp \<le> 0 \<longrightarrow> mset out = mset (map fst ps)) \<and>
    (im_loss imp \<le> 0 \<longrightarrow> map fst ps = pkts) \<and> (1 \<le> im_loss imp \<longrightarrow> out = []) \<and>
    (im_reorder imp \<le> 0 \<and> im_delay imp \<le> 0 \<longrightarrow> out = impaired ps)"
proof -
  let ?u = "uni (im_seed imp)"
  have "0 \<le> ?u k" "?u k < 1" for k using assms(1) by (simp_all add: uniform_def)
  from impair_loop [of ?u imp pkts, OF this] obtain ps k where
    loop: "foldl (impair_step ?u imp) ([], 0) pkts = (impaired ps, k)" and sub: "subseq (map fst ps) pkts"
    and ps: "im_corrupt imp \<le> 0 \<longrightarrow> list_all (\<lambda>(p, c). \<not> c) ps" "im_loss imp \<le> 0 \<longrightarrow> map fst ps = pkts" "1 \<le> im_loss imp \<longrightarrow> ps = []"
    by blast
  let ?mid = "reorder_packets ?u imp k (impaired ps)"
  have "length ?mid = length ps" using mset_eq_length [OF mset_reorder] by (simp add: impaired_def)
  also have "\<dots> \<le> length pkts" using list_emb_length [OF sub] by simp
  finally have "length ?mid < 2147483648" using assms(2) by simp
  from delay_packets_ok [OF this, of imp] obtain out where
    out: "delay_packets imp ?mid = Inr out" "mset out = mset ?mid" "im_delay imp \<le> 0 \<longrightarrow> out = ?mid" by blast
  have "impaired ps = map fst ps" if "list_all (\<lambda>(p, c). \<not> c) ps"
    using that by (auto simp: impaired_def list_all_iff intro!: map_cong)
  moreover have "?mid = impaired ps" if "im_reorder imp \<le> 0" using that by (simp add: reorder_packets_def)
  moreover have "apply_impairments uni imp pkts = Inr out" using loop out(1) by (simp add: apply_impairments_def)
  moreover have "mset out = mset (impaired ps)" using out(2) mset_reorder by simp
  moreover have "out = []" if "ps = []" using that out(2) mset_reorder [of ?u imp k "impaired ps"] by (simp add: impaired_def)
  ultimately show ?thesis using sub ps out(3) by (intro exI [of _ ps] exI [of _ out]) (auto simp: loopback_def)
qed

theorem impairments_ok_witness:
  "\<exists>ps out. apply_impairments (\<lambda>_ _. 1 / 2) default_impairments [make_u_plane [1, \<i>] 3 9 0] = Inr out \<and> out = impaired ps \<and>
    map fst ps = [make_u_plane [1, \<i>] 3 9 0]"
proof -
  have "uniform (\<lambda>_ _. 1 / 2)" by (simp add: uniform_def)
  from impairments_ok [OF this, of "[make_u_plane [1, \<i>] 3 9 0]" default_impairments] show ?thesis
    by (auto simp: default_impairments_def)
qed

text \<open>C30: the capture file can be read back: a reader of the record format gets exactly the raw bytes of
  the packets in order, for packets shorter than four gigabytes.\<close>

theorem pcap_roundtrip:
  assumes "list_all (\<lambda>p. length (fp_raw p) < 4294967296) pkts"
  shows "\<exists>bytes. write_pcap_dump True pkts = Inr bytes \<and> pcap_read bytes = Some (map fp_raw pkts)"
proof -
  have "pcap_records (concat (map pcap_record pkts)) = Some (map fp_raw pkts)"
    using assms
  proof (induction pkts)
    case (Cons p pkts)
    then show ?case using pcap_records_Cons [of p] by simp
  qed (simp add: pcap_records.simps)
  moreover have "length pcap_global_header = 24" by (simp add: pcap_global_header_def)
  ultimately show ?thesis by (simp add: write_pcap_dump_def pcap_read_def)
qed

theorem pcap_roundtrip_witness:
  "\<exists>bytes. write_pcap_dump True [make_u_plane [1] 3 9 0, make_u_plane [] 4 1 0] = Inr bytes \<and>
    pcap_read bytes = Some [fp_raw (make_u_plane [1] 3 9 0), fp_raw (make_u_plane [] 4 1 0)]"
  using pcap_roundtrip [of "[make_u_plane [1] 3 9 0, make_u_plane [] 4 1 0]"] by (simp add: make_u_plane_def)

text \<open>The raw bytes carry the two identifiers, low byte first, but nothing of the samples or the time:
  packets that agree in the identifiers and the number of samples have the same raw bytes.\<close>

lemma raw_without_payload:
  assumes "length iq = length iq'"
  shows "fp_raw (make_u_plane iq pc sq t) = fp_raw (make_u_plane iq' pc sq t')"
    and "drop 6 (fp_raw (make_u_plane iq pc sq t)) = replicate (10 + length iq * 16) 0"
proof -
  show "fp_raw (make_u_plane iq pc sq t) = fp_raw (make_u_plane iq' pc sq t')" using assms by (simp add: make_u_plane_def Let_def)
  have "replicate (16 + length iq * 16) (0::u8) = [0, 0, 0, 0, 0, 0] @ replicate (10 + length iq * 16) 0"
    by (simp add: eval_nat_numeral)
  then show "drop 6 (fp_raw (make_u_plane iq pc sq t)) = replicate (10 + length iq * 16) 0"
    by (simp add: make_u_plane_def Let_def eval_nat_numeral)
qed

end
