(* ===== verification/CudaKernels.thy ===== *)
theory CudaKernels
  imports ChannelEstimation Scrambling RateMatching Modulation Llr "HOL-Library.Multiset"
begin

text \<open>
  \<open>cuda/baseband_kernels.cu\<close>, \<open>cuda/scheduler_candidate.cu\<close>, \<open>cuda/benchmark_kernels.cu\<close> and
  \<open>src/cuda_cpu_ref.cpp\<close>. A kernel is the effect of one thread on the output buffers, given its
  global index \<open>blockIdx.x * blockDim.x + threadIdx.x\<close>; the input buffers are constants, as no kernel
  writes them. A launch runs the threads of \<open>(n + 255) / 256\<close> blocks of 256 in some order, which the
  hardware chooses: the parameter \<open>sched\<close> is that order, and \<open>schedule_of n sched\<close> says it runs every
  thread of the grid once. A buffer the caller passes has at least the length the kernel uses
  (lengths are hypotheses of the properties). \<open>float\<close> is \<open>real\<close>, without rounding.
\<close>

section \<open>Launches\<close>

definition grid :: "nat \<Rightarrow> nat" where
  "grid n = (n + 256 - 1) div 256"

definition schedule_of :: "nat \<Rightarrow> (nat \<times> nat) list \<Rightarrow> bool" where
  "schedule_of n sched \<longleftrightarrow> mset sched = mset (List.product [0..<grid n] [0..<256])"

definition thread_index :: "nat \<times> nat \<Rightarrow> nat" where
  "thread_index bt = fst bt * 256 + snd bt"

definition launch :: "(nat \<Rightarrow> 'm \<Rightarrow> 'm) \<Rightarrow> (nat \<times> nat) list \<Rightarrow> 'm \<Rightarrow> 'm" where
  "launch thread sched m = fold (\<lambda>bt. thread (thread_index bt)) sched m"

section \<open>The kernels\<close>

definition scramble_kernel :: "bitvec \<Rightarrow> bitvec \<Rightarrow> nat \<Rightarrow> nat \<Rightarrow> bitvec \<Rightarrow> bitvec" where
  "scramble_kernel inp gold n i out = (if i < n then out[i := inp ! i XOR gold ! i] else out)"

definition rate_match_kernel :: "bitvec \<Rightarrow> nat \<Rightarrow> nat \<Rightarrow> nat \<Rightarrow> bitvec \<Rightarrow> bitvec" where
  "rate_match_kernel coded n_coded e_bits i out = (if i < e_bits then out[i := coded ! (i mod n_coded)] else out)"

definition qpsk_level :: "u8 \<Rightarrow> real" where
  "qpsk_level b = (if b = 0 then 70710678 / 100000000 else - (70710678 / 100000000))"

definition qpsk_mod_kernel :: "bitvec \<Rightarrow> nat \<Rightarrow> nat \<Rightarrow> softvec \<Rightarrow> softvec" where
  "qpsk_mod_kernel bits n_bits s iq =
     (let n_sym = n_bits div 2 in
      if s < n_sym then iq[2 * s := qpsk_level (bits ! (2 * s)), 2 * s + 1 := qpsk_level (bits ! (2 * s + 1))] else iq)"

definition qpsk_llr_kernel :: "softvec \<Rightarrow> real \<Rightarrow> nat \<Rightarrow> nat \<Rightarrow> softvec \<Rightarrow> softvec" where
  "qpsk_llr_kernel iq inv_noise n_sym s llr =
     (if s < n_sym
      then llr[2 * s := 2 * inv_noise * iq ! (2 * s), 2 * s + 1 := 2 * inv_noise * iq ! (2 * s + 1)] else llr)"

definition zf_tone_kernel ::
  "softvec \<Rightarrow> softvec \<Rightarrow> softvec \<Rightarrow> softvec \<Rightarrow> nat \<Rightarrow> nat \<Rightarrow> softvec \<times> softvec \<Rightarrow> softvec \<times> softvec" where
  "zf_tone_kernel y_re y_im h_re h_im n i x =
     (if i < n then let den = h_re ! i * h_re ! i + h_im ! i * h_im ! i + 1 / 10 ^ 12 in
        ((fst x)[i := (y_re ! i * h_re ! i + y_im ! i * h_im ! i) / den],
         (snd x)[i := (y_im ! i * h_re ! i - y_re ! i * h_im ! i) / den])
      else x)"

definition mmse_tone_kernel ::
  "softvec \<Rightarrow> softvec \<Rightarrow> softvec \<Rightarrow> softvec \<Rightarrow> real \<Rightarrow> nat \<Rightarrow> nat \<Rightarrow> softvec \<times> softvec \<Rightarrow> softvec \<times> softvec" where
  "mmse_tone_kernel y_re y_im h_re h_im noise n i x =
     (if i < n then let den = h_re ! i * h_re ! i + h_im ! i * h_im ! i + noise in
        ((fst x)[i := (y_re ! i * h_re ! i + y_im ! i * h_im ! i) / den],
         (snd x)[i := (y_im ! i * h_re ! i - y_re ! i * h_im ! i) / den])
      else x)"

definition harq_combine_kernel :: "softvec \<Rightarrow> softvec \<Rightarrow> nat \<Rightarrow> nat \<Rightarrow> softvec \<Rightarrow> softvec" where
  "harq_combine_kernel a b n i out = (if i < n then out[i := a ! i + b ! i] else out)"

definition ls_channel_est_kernel ::
  "softvec \<Rightarrow> softvec \<Rightarrow> softvec \<Rightarrow> softvec \<Rightarrow> nat \<Rightarrow> nat \<Rightarrow> softvec \<times> softvec \<Rightarrow> softvec \<times> softvec" where
  "ls_channel_est_kernel y_re y_im p_re p_im n i h =
     (if i < n then let den = p_re ! i * p_re ! i + p_im ! i * p_im ! i + 1 / 10 ^ 12 in
        ((fst h)[i := (y_re ! i * p_re ! i + y_im ! i * p_im ! i) / den],
         (snd h)[i := (y_im ! i * p_re ! i - y_re ! i * p_im ! i) / den])
      else h)"

definition scheduler_metric_kernel :: "softvec \<Rightarrow> softvec \<Rightarrow> nat \<Rightarrow> nat \<Rightarrow> softvec \<Rightarrow> softvec" where
  "scheduler_metric_kernel se weight n i metric = (if i < n then metric[i := se ! i * weight ! i] else metric)"

definition pf_metric_kernel :: "softvec \<Rightarrow> softvec \<Rightarrow> nat \<Rightarrow> nat \<Rightarrow> softvec \<Rightarrow> softvec" where
  "pf_metric_kernel instant avg n i out =
     (if i < n then let d = avg ! i; d = (if d < 1 / 10 ^ 9 then 1 / 10 ^ 9 else d) in out[i := instant ! i / d] else out)"

definition axpy_kernel :: "softvec \<Rightarrow> real \<Rightarrow> nat \<Rightarrow> nat \<Rightarrow> softvec \<Rightarrow> softvec" where
  "axpy_kernel x a n i y = (if i < n then y[i := a * x ! i + y ! i] else y)"

section \<open>The host side\<close>

definition launch_scramble :: "(nat \<times> nat) list \<Rightarrow> bitvec \<Rightarrow> bitvec \<Rightarrow> bitvec \<Rightarrow> nat \<Rightarrow> bitvec" where
  "launch_scramble sched inp gold out n = launch (scramble_kernel inp gold n) sched out"

definition launch_rate_match :: "(nat \<times> nat) list \<Rightarrow> bitvec \<Rightarrow> bitvec \<Rightarrow> nat \<Rightarrow> nat \<Rightarrow> bitvec" where
  "launch_rate_match sched coded out n_coded e_bits = launch (rate_match_kernel coded n_coded e_bits) sched out"

definition launch_qpsk_mod :: "(nat \<times> nat) list \<Rightarrow> bitvec \<Rightarrow> softvec \<Rightarrow> nat \<Rightarrow> softvec" where
  "launch_qpsk_mod sched bits iq n_bits = launch (qpsk_mod_kernel bits n_bits) sched iq"

definition launch_qpsk_llr :: "(nat \<times> nat) list \<Rightarrow> softvec \<Rightarrow> softvec \<Rightarrow> real \<Rightarrow> nat \<Rightarrow> softvec" where
  "launch_qpsk_llr sched iq llr noise_var n_sym = launch (qpsk_llr_kernel iq (1 / noise_var) n_sym) sched llr"

definition launch_zf ::
  "(nat \<times> nat) list \<Rightarrow> softvec \<Rightarrow> softvec \<Rightarrow> softvec \<Rightarrow> softvec \<Rightarrow> softvec \<times> softvec \<Rightarrow> nat \<Rightarrow> softvec \<times> softvec" where
  "launch_zf sched y_re y_im h_re h_im x n = launch (zf_tone_kernel y_re y_im h_re h_im n) sched x"

definition launch_mmse ::
  "(nat \<times> nat) list \<Rightarrow> softvec \<Rightarrow> softvec \<Rightarrow> softvec \<Rightarrow> softvec \<Rightarrow> real \<Rightarrow> softvec \<times> softvec \<Rightarrow> nat \<Rightarrow> softvec \<times> softvec" where
  "launch_mmse sched y_re y_im h_re h_im noise x n = launch (mmse_tone_kernel y_re y_im h_re h_im noise n) sched x"

definition launch_harq_combine :: "(nat \<times> nat) list \<Rightarrow> softvec \<Rightarrow> softvec \<Rightarrow> softvec \<Rightarrow> nat \<Rightarrow> softvec" where
  "launch_harq_combine sched a b out n = launch (harq_combine_kernel a b n) sched out"

definition launch_ls_est ::
  "(nat \<times> nat) list \<Rightarrow> softvec \<Rightarrow> softvec \<Rightarrow> softvec \<Rightarrow> softvec \<Rightarrow> softvec \<times> softvec \<Rightarrow> nat \<Rightarrow> softvec \<times> softvec" where
  "launch_ls_est sched y_re y_im p_re p_im h n = launch (ls_channel_est_kernel y_re y_im p_re p_im n) sched h"

definition launch_scheduler_metric :: "(nat \<times> nat) list \<Rightarrow> softvec \<Rightarrow> softvec \<Rightarrow> softvec \<Rightarrow> nat \<Rightarrow> softvec" where
  "launch_scheduler_metric sched se weight metric n = launch (scheduler_metric_kernel se weight n) sched metric"

definition launch_pf_metric :: "(nat \<times> nat) list \<Rightarrow> softvec \<Rightarrow> softvec \<Rightarrow> softvec \<Rightarrow> nat \<Rightarrow> softvec" where
  "launch_pf_metric sched instant avg out n = launch (pf_metric_kernel instant avg n) sched out"

definition launch_axpy :: "(nat \<times> nat) list \<Rightarrow> softvec \<Rightarrow> softvec \<Rightarrow> real \<Rightarrow> nat \<Rightarrow> softvec" where
  "launch_axpy sched x y a n = launch (axpy_kernel x a n) sched y"

section \<open>The references on the CPU\<close>

definition scramble_bits :: "bitvec \<Rightarrow> u32 \<Rightarrow> bitvec result" where
  "scramble_bits bits c_init = scramble bits c_init"

definition rate_match_bits :: "bitvec \<Rightarrow> nat \<Rightarrow> bitvec result" where
  "rate_match_bits coded e_bits = rate_match_e coded e_bits"

definition modulate_qpsk_f32 :: "bitvec \<Rightarrow> softvec result" where
  "modulate_qpsk_f32 bits = and_then (modulate bits QPSK) (\<lambda>sym. Inr (concat (map (\<lambda>z. [Re z, Im z]) sym)))"

definition qpsk_llr_f32 :: "softvec \<Rightarrow> real \<Rightarrow> softvec result" where
  "qpsk_llr_f32 iq noise_var =
     and_then (require (length iq mod 2 = 0) ''iq interleaved length'') (\<lambda>_.
     and_then (require (noise_var > 0) ''noise_var'') (\<lambda>_.
     let scale = 2 / noise_var in
     Inr (concat (map (\<lambda>j. [scale * iq ! (2 * j), scale * iq ! (2 * j + 1)]) [0..<length iq div 2]))))"

definition zf_tone_f32 :: "softvec \<Rightarrow> softvec \<Rightarrow> softvec \<Rightarrow> softvec \<Rightarrow> (softvec \<times> softvec) result" where
  "zf_tone_f32 y_re y_im h_re h_im =
     and_then (require (length y_re = length y_im \<and> length y_re = length h_re \<and> length h_re = length h_im) ''zf sizes'') (\<lambda>_.
     let den = (\<lambda>i. h_re ! i * h_re ! i + h_im ! i * h_im ! i + 1 / 10 ^ 12) in
     Inr (map (\<lambda>i. (y_re ! i * h_re ! i + y_im ! i * h_im ! i) / den i) [0..<length y_re],
          map (\<lambda>i. (y_im ! i * h_re ! i - y_re ! i * h_im ! i) / den i) [0..<length y_re]))"

definition mmse_tone_f32 :: "softvec \<Rightarrow> softvec \<Rightarrow> softvec \<Rightarrow> softvec \<Rightarrow> real \<Rightarrow> (softvec \<times> softvec) result" where
  "mmse_tone_f32 y_re y_im h_re h_im noise =
     and_then (require (noise > 0) ''noise'') (\<lambda>_.
     if length y_re \<le> length y_im \<and> length y_re \<le> length h_re \<and> length y_re \<le> length h_im
     then let den = (\<lambda>i. h_re ! i * h_re ! i + h_im ! i * h_im ! i + noise) in
       Inr (map (\<lambda>i. (y_re ! i * h_re ! i + y_im ! i * h_im ! i) / den i) [0..<length y_re],
            map (\<lambda>i. (y_im ! i * h_re ! i - y_re ! i * h_im ! i) / den i) [0..<length y_re])
     else Inl (Undefined ''vector index''))"

definition harq_combine_f32 :: "softvec \<Rightarrow> softvec \<Rightarrow> softvec result" where
  "harq_combine_f32 a b =
     and_then (require (length a = length b) ''harq size'') (\<lambda>_. Inr (map (\<lambda>i. a ! i + b ! i) [0..<length a]))"

record compare_report =
  cr_match :: bool
  cr_max_abs_err :: real
  cr_mismatches :: nat
  cr_kernel :: string
  cr_status :: string

definition compare_step :: "softvec \<Rightarrow> softvec \<Rightarrow> real \<Rightarrow> compare_report \<Rightarrow> nat \<Rightarrow> compare_report" where
  "compare_step a b tol r i =
     (let e = \<bar>a ! i - b ! i\<bar>;
          r = (if e > cr_max_abs_err r then r\<lparr>cr_max_abs_err := e\<rparr> else r)
      in if e > tol then r\<lparr>cr_mismatches := cr_mismatches r + 1\<rparr> else r)"

definition compare_f32 :: "softvec \<Rightarrow> softvec \<Rightarrow> string \<Rightarrow> real \<Rightarrow> compare_report" where
  "compare_f32 a b knl tol =
     (let r = \<lparr>cr_match = False, cr_max_abs_err = 0, cr_mismatches = 0, cr_kernel = knl, cr_status = ''cpu_reference_only''\<rparr> in
      if length a \<noteq> length b then r\<lparr>cr_mismatches := max (length a) (length b), cr_status := ''length_mismatch''\<rparr>
      else let r = foldl (compare_step a b tol) r [0..<length a];
               ok = (cr_mismatches r = 0)
           in r\<lparr>cr_match := ok, cr_status := (if ok then ''cpu_reference_match'' else ''cpu_reference_mismatch'')\<rparr>)"

section \<open>Threads that do not interfere\<close>

lemma thread_indices:
  assumes "schedule_of n sched"
  shows "mset (map thread_index sched) = mset [0..<256 * grid n]"
proof -
  have "map thread_index (List.product [0..<g] [0..<256]) = [0..<256 * g]" for g
  proof (induction g)
    case (Suc g)
    have "map thread_index (map (Pair g) [0..<256]) = map (\<lambda>i. i + 256 * g) [0..<256]"
      by (simp add: thread_index_def o_def add.commute mult.commute del: upt_rec_numeral)
    also have "\<dots> = [256 * g..<256 * Suc g]" by (simp only: map_add_upt) (simp add: add.commute)
    finally have "map thread_index (map (Pair g) [0..<256]) = [256 * g..<256 * Suc g]" .
    moreover have "[0..<256 * g] @ [256 * g..<256 * Suc g] = [0..<256 * Suc g]" by (simp only: upt_add_eq_append [of 0 "256 * g" 256, simplified] mult_Suc_right add.commute [of 256])
    ultimately show ?case using Suc by (simp add: product_concat_map del: upt_rec_numeral map_map mult_Suc_right)
  qed simp
  then have "mset [0..<256 * grid n] = image_mset thread_index (mset (List.product [0..<grid n] [0..<256]))"
    by (metis mset_map)
  then show ?thesis using assms by (simp add: schedule_of_def)
qed

lemma grid_covers: "n \<le> 256 * grid n"
proof -
  have "n + 255 = 256 * ((n + 255) div 256) + (n + 255) mod 256" by simp
  moreover have "(n + 255) mod 256 < 256" by simp
  ultimately show ?thesis unfolding grid_def by linarith
qed

locale commuting_threads =
  fixes thread :: "nat \<Rightarrow> 'm \<Rightarrow> 'm"
  assumes commute: "thread i (thread j m) = thread j (thread i m)"
begin

lemma any_schedule:
  assumes "schedule_of n sched"
  shows "launch thread sched m = fold thread [0..<256 * grid n] m"
proof -
  have "launch thread sched m = fold thread (map thread_index sched) m" by (simp add: launch_def fold_map o_def)
  also have "\<dots> = fold thread [0..<256 * grid n] m"
    by (rule fold_permuted_eq [where P = "\<lambda>_. True", OF thread_indices [OF assms]]) (simp_all add: commute)
  finally show ?thesis .
qed

end

text \<open>Each thread updates the cell of its index.\<close>

locale cell_threads =
  fixes thread :: "nat \<Rightarrow> 'a list \<Rightarrow> 'a list" and n :: nat and cell :: "nat \<Rightarrow> 'a \<Rightarrow> 'a"
  assumes thread_cell: "thread i out = (if i < n then out[i := cell i (out ! i)] else out)"

sublocale cell_threads \<subseteq> commuting_threads thread
proof unfold_locales
  show "thread i (thread j m) = thread j (thread i m)" for i j m
    by (cases "i = j") (simp_all add: thread_cell list_update_swap)
qed

context cell_threads begin

lemma cells_upto:
  "length (fold thread [0..<k] m) = length m \<and>
   (\<forall>j<length m. fold thread [0..<k] m ! j = (if j < k \<and> j < n then cell j (m ! j) else m ! j))"
  by (induction k) (auto simp: thread_cell nth_list_update less_Suc_eq)

lemma launch_cells:
  assumes "schedule_of n sched" "n \<le> length m"
  shows "launch thread sched m = map (\<lambda>j. cell j (m ! j)) [0..<n] @ drop n m"
proof (rule nth_equalityI)
  fix j assume "j < length (launch thread sched m)"
  then have "j < length m" using cells_upto by (simp add: any_schedule [OF assms(1)])
  then show "launch thread sched m ! j = (map (\<lambda>j. cell j (m ! j)) [0..<n] @ drop n m) ! j"
    using cells_upto [of "256 * grid n" m] grid_covers [of n] assms(2) by (auto simp: any_schedule [OF assms(1)] nth_append)
qed (use assms cells_upto in \<open>simp add: any_schedule [OF assms(1)]\<close>)

end

lemma update_pairs_swap:
  "a \<noteq> c \<Longrightarrow> a \<noteq> d \<Longrightarrow> b \<noteq> c \<Longrightarrow> b \<noteq> d \<Longrightarrow> m[a := x, b := y, c := u, d := v] = m[c := u, d := v, a := x, b := y]"
  by (simp add: list_update_swap [of a] list_update_swap [of b])

text \<open>Each thread updates the two interleaved cells of its index.\<close>

locale iq_threads =
  fixes thread :: "nat \<Rightarrow> softvec \<Rightarrow> softvec" and n :: nat and re :: "nat \<Rightarrow> real" and im :: "nat \<Rightarrow> real"
  assumes thread_iq: "thread i out = (if i < n then out[2 * i := re i, 2 * i + 1 := im i] else out)"

sublocale iq_threads \<subseteq> commuting_threads thread
proof unfold_locales
  fix i j m
  show "thread i (thread j m) = thread j (thread i m)"
  proof (cases "i = j")
    case False
    then have "2 * i \<noteq> 2 * j" "2 * i \<noteq> 2 * j + 1" "2 * i + 1 \<noteq> 2 * j" "2 * i + 1 \<noteq> 2 * j + 1" by presburger+
    then show ?thesis by (cases "i < n"; cases "j < n") (simp_all only: thread_iq if_True if_False update_pairs_swap)
  qed simp
qed

context iq_threads begin

lemma iq_upto:
  "length (fold thread [0..<k] m) = length m \<and>
   (\<forall>j<length m. fold thread [0..<k] m ! j =
      (if j div 2 < k \<and> j div 2 < n then if even j then re (j div 2) else im (j div 2) else m ! j))"
proof (induction k)
  case (Suc k)
  have "j div 2 < Suc k \<longleftrightarrow> j div 2 < k \<or> j = 2 * k \<or> j = 2 * k + 1" for j by presburger
  with Suc show ?case by (auto simp: thread_iq nth_list_update)
qed simp

lemma launch_iq:
  assumes "schedule_of n sched" "length m = 2 * n"
  shows "launch thread sched m = concat (map (\<lambda>i. [re i, im i]) [0..<n])"
proof -
  have pairs: "concat (map (\<lambda>i. [re i, im i]) [0..<k]) = map (\<lambda>j. if even j then re (j div 2) else im (j div 2)) [0..<2 * k]" for k
    by (induction k) simp_all
  have "fold thread [0..<256 * grid n] m = map (\<lambda>j. if even j then re (j div 2) else im (j div 2)) [0..<2 * n]"
    using iq_upto [of "256 * grid n" m] grid_covers [of n] assms(2) by (intro nth_equalityI) auto
  then show ?thesis by (simp add: any_schedule [OF assms(1)] pairs)
qed

end

text \<open>Each thread updates the cell of its index in two buffers.\<close>

locale pair_threads =
  fixes thread :: "nat \<Rightarrow> softvec \<times> softvec \<Rightarrow> softvec \<times> softvec" and n :: nat
    and re :: "nat \<Rightarrow> real" and im :: "nat \<Rightarrow> real"
  assumes thread_pair: "thread i x = (if i < n then ((fst x)[i := re i], (snd x)[i := im i]) else x)"

sublocale pair_threads \<subseteq> commuting_threads thread
proof unfold_locales
  show "thread i (thread j m) = thread j (thread i m)" for i j m
    by (cases "i = j") (simp_all add: thread_pair list_update_swap)
qed

context pair_threads begin

lemma pair_upto:
  "length (fst (fold thread [0..<k] x)) = length (fst x) \<and> length (snd (fold thread [0..<k] x)) = length (snd x) \<and>
   (\<forall>j<length (fst x). fst (fold thread [0..<k] x) ! j = (if j < k \<and> j < n then re j else fst x ! j)) \<and>
   (\<forall>j<length (snd x). snd (fold thread [0..<k] x) ! j = (if j < k \<and> j < n then im j else snd x ! j))"
  by (induction k) (auto simp: thread_pair nth_list_update less_Suc_eq)

lemma launch_pair:
  assumes "schedule_of n sched" "length (fst x) = n" "length (snd x) = n"
  shows "launch thread sched x = (map re [0..<n], map im [0..<n])"
  using pair_upto [of "256 * grid n" x] grid_covers [of n] assms(2,3)
  by (intro prod_eqI) (auto simp: any_schedule [OF assms(1)] intro!: nth_equalityI)

end

section \<open>The kernels keep the contracts\<close>

interpretation scramble_threads: cell_threads "scramble_kernel inp gold n" n "\<lambda>i _. inp ! i XOR gold ! i" for inp gold n
  by unfold_locales (simp add: scramble_kernel_def)

interpretation rate_match_threads: cell_threads "rate_match_kernel coded n_coded e_bits" e_bits "\<lambda>i _. coded ! (i mod n_coded)"
  for coded n_coded e_bits
  by unfold_locales (simp add: rate_match_kernel_def)

interpretation qpsk_mod_threads: iq_threads "qpsk_mod_kernel bits n_bits" "n_bits div 2"
  "\<lambda>s. qpsk_level (bits ! (2 * s))" "\<lambda>s. qpsk_level (bits ! (2 * s + 1))" for bits n_bits
  by unfold_locales (simp add: qpsk_mod_kernel_def)

interpretation qpsk_llr_threads: iq_threads "qpsk_llr_kernel iq inv_noise n" n
  "\<lambda>s. 2 * inv_noise * iq ! (2 * s)" "\<lambda>s. 2 * inv_noise * iq ! (2 * s + 1)" for iq inv_noise n
  by unfold_locales (simp add: qpsk_llr_kernel_def)

interpretation mmse_threads: pair_threads "mmse_tone_kernel y_re y_im h_re h_im noise n" n
  "\<lambda>i. (y_re ! i * h_re ! i + y_im ! i * h_im ! i) / (h_re ! i * h_re ! i + h_im ! i * h_im ! i + noise)"
  "\<lambda>i. (y_im ! i * h_re ! i - y_re ! i * h_im ! i) / (h_re ! i * h_re ! i + h_im ! i * h_im ! i + noise)"
  for y_re y_im h_re h_im noise n
  by unfold_locales (simp add: mmse_tone_kernel_def Let_def)

text \<open>The zero-forcing and the least-squares kernels are the MMSE kernel with a constant.\<close>

lemma zf_is_mmse: "zf_tone_kernel y_re y_im h_re h_im n = mmse_tone_kernel y_re y_im h_re h_im (1 / 10 ^ 12) n"
  by (simp add: fun_eq_iff zf_tone_kernel_def mmse_tone_kernel_def)

lemma ls_is_mmse: "ls_channel_est_kernel y_re y_im p_re p_im n = mmse_tone_kernel y_re y_im p_re p_im (1 / 10 ^ 12) n"
  by (simp add: fun_eq_iff ls_channel_est_kernel_def mmse_tone_kernel_def)

interpretation harq_threads: cell_threads "harq_combine_kernel a b n" n "\<lambda>i _. a ! i + b ! i" for a b n
  by unfold_locales (simp add: harq_combine_kernel_def)

interpretation metric_threads: cell_threads "scheduler_metric_kernel se weight n" n "\<lambda>i _. se ! i * weight ! i" for se weight n
  by unfold_locales (simp add: scheduler_metric_kernel_def)

interpretation pf_threads: cell_threads "pf_metric_kernel instant avg n" n "\<lambda>i _. instant ! i / max (1 / 10 ^ 9) (avg ! i)"
  for instant avg n
  by unfold_locales (simp add: pf_metric_kernel_def Let_def max_def)

interpretation axpy_threads: cell_threads "axpy_kernel x a n" n "\<lambda>i y. a * x ! i + y" for x a n
  by unfold_locales (simp add: axpy_kernel_def)

text \<open>The launches that have no reference on the CPU.\<close>

lemma launch_ls_est_eq:
  assumes "schedule_of n sched" "length (fst h) = n" "length (snd h) = n"
  shows "launch_ls_est sched y_re y_im p_re p_im h n =
    (map (\<lambda>i. (y_re ! i * p_re ! i + y_im ! i * p_im ! i) / (p_re ! i * p_re ! i + p_im ! i * p_im ! i + 1 / 10 ^ 12)) [0..<n],
     map (\<lambda>i. (y_im ! i * p_re ! i - y_re ! i * p_im ! i) / (p_re ! i * p_re ! i + p_im ! i * p_im ! i + 1 / 10 ^ 12)) [0..<n])"
  unfolding launch_ls_est_def ls_is_mmse by (rule mmse_threads.launch_pair [OF assms])

lemma launch_axpy_eq:
  "schedule_of n sched \<Longrightarrow> length y = n \<Longrightarrow> launch_axpy sched x y a n = map (\<lambda>i. a * x ! i + y ! i) [0..<n]"
  by (simp add: launch_axpy_def axpy_threads.launch_cells)

lemma launch_scheduler_metric_eq:
  "schedule_of n sched \<Longrightarrow> length m = n \<Longrightarrow> launch_scheduler_metric sched se w m n = map (\<lambda>i. se ! i * w ! i) [0..<n]"
  by (simp add: launch_scheduler_metric_def metric_threads.launch_cells)

lemma launch_pf_metric_eq:
  "schedule_of n sched \<Longrightarrow> length m = n \<Longrightarrow>
   launch_pf_metric sched inst avg m n = map (\<lambda>i. inst ! i / max (1 / 10 ^ 9) (avg ! i)) [0..<n]"
  by (simp add: launch_pf_metric_def pf_threads.launch_cells)

section \<open>The references\<close>

lemma rate_match_bits_eq:
  assumes "coded \<noteq> []" "0 < e"
  shows "rate_match_bits coded e = Inr (map (\<lambda>i. coded ! (i mod length coded)) [0..<e])"
  using assms by (simp add: rate_match_bits_def rate_match_e_def rate_match_def default_rm_def punch_count_def
    start_offset_def rv_index_eq Let_def)

text \<open>A schedule of each launch exists: the blocks and threads in order.\<close>

lemma schedule_in_order: "schedule_of n (List.product [0..<grid n] [0..<256])"
  by (simp add: schedule_of_def)

lemma mmse_tones_parts:
  assumes "length y = length H" "0 < noise"
  shows "\<exists>mm. equalize_mmse_tones y H noise = Inr (map Some mm) \<and>
    mmse_tone_f32 (map Re y) (map Im y) (map Re H) (map Im H) noise = Inr (map Re mm, map Im mm)"
proof (intro exI conjI)
  let ?mm = "map (\<lambda>i. y ! i * cnj (H ! i) / complex_of_real ((cmod (H ! i))\<^sup>2 + noise)) [0..<length y]"
  have ne: "(cmod h)\<^sup>2 + noise \<noteq> 0" for h using assms(2) zero_le_power2 [of "cmod h"] by linarith
  show "equalize_mmse_tones y H noise = Inr (map Some ?mm)"
    using assms ne by (simp add: equalize_mmse_tones_def mmse_tone_def Let_def)
  have norm: "(cmod h)\<^sup>2 = Re h * Re h + Im h * Im h" for h by (simp add: cmod_power2 flip: power2_eq_square)
  show "mmse_tone_f32 (map Re y) (map Im y) (map Re H) (map Im H) noise = Inr (map Re ?mm, map Im ?mm)"
    using assms by (simp add: mmse_tone_f32_def Let_def norm Re_divide_of_real Im_divide_of_real
      flip: of_real_add)
qed

lemma compare_loop:
  "foldl (compare_step a b tol) \<lparr>cr_match = False, cr_max_abs_err = 0, cr_mismatches = 0, cr_kernel = knl, cr_status = st\<rparr> [0..<n] =
   \<lparr>cr_match = False, cr_max_abs_err = Max (insert 0 (set (map (\<lambda>i. \<bar>a ! i - b ! i\<bar>) [0..<n]))),
    cr_mismatches = length (filter (\<lambda>e. e > tol) (map (\<lambda>i. \<bar>a ! i - b ! i\<bar>) [0..<n])), cr_kernel = knl, cr_status = st\<rparr>"
proof (induction n)
  case (Suc n)
  define e where "e = (\<lambda>i. \<bar>a ! i - b ! i\<bar>)"
  define peak where "peak = (\<lambda>n. Max (insert 0 (set (map e [0..<n]))))"
  have "Max (insert 0 (insert (e n) (set (map e [0..<n])))) = max (e n) (Max (insert 0 (set (map e [0..<n]))))"
    by (subst insert_commute) (rule Max_insert; simp)
  then have "peak (Suc n) = max (e n) (peak n)" by (simp only: peak_def upt_Suc_append zero_le map_append set_append list.map list.set
    insert_is_Un [symmetric] Un_insert_right Un_empty_right)
  then have peak: "peak (Suc n) = (if e n > peak n then e n else peak n)" by (simp add: max_def)
  let ?r = "\<lambda>n. \<lparr>cr_match = False, cr_max_abs_err = peak n, cr_mismatches = length (filter (\<lambda>e. e > tol) (map e [0..<n])),
    cr_kernel = knl, cr_status = st\<rparr>"
  have en: "\<bar>a ! n - b ! n\<bar> = e n" by (simp add: e_def)
  have "compare_step a b tol (?r n) n = ?r (Suc n)" by (simp add: compare_step_def peak en Let_def)
  then show ?case using Suc by (simp only: upt_Suc_append zero_le foldl_append foldl.simps e_def peak_def)
qed simp

section \<open>Properties\<close>

text \<open>C18: in whatever order the hardware runs the threads, the two kernels on bits leave exactly what the
  reference on the CPU computes: the scrambled bits and the repeated code word.\<close>

theorem bit_kernels_any_schedule:
  assumes "bits_ok bits" "schedule_of (length bits) sched" "length out = length bits"
    and "coded \<noteq> []" "0 < e" "schedule_of e sched'" "length out' = e"
  shows "scramble_bits bits c = Inr (launch_scramble sched bits (gold_sequence (length bits) c) out (length bits)) \<and>
    rate_match_bits coded e = Inr (launch_rate_match sched' coded out' (length coded) e)"
proof
  show "scramble_bits bits c = Inr (launch_scramble sched bits (gold_sequence (length bits) c) out (length bits))"
    using assms(1-3) by (simp add: scramble_bits_def scramble_eq launch_scramble_def scramble_threads.launch_cells)
      (intro nth_equalityI; simp)
  show "rate_match_bits coded e = Inr (launch_rate_match sched' coded out' (length coded) e)"
    using assms(4-7) by (simp add: rate_match_bits_eq launch_rate_match_def rate_match_threads.launch_cells)
qed

theorem bit_kernels_any_schedule_witness:
  "scramble_bits [1, 0] 5 = Inr (launch_scramble (List.product [0..<grid 2] [0..<256]) [1, 0] (gold_sequence 2 5) [0, 0] 2) \<and>
   rate_match_bits [1, 0] 3 = Inr (launch_rate_match (List.product [0..<grid 3] [0..<256]) [1, 0] [7, 7, 7] 2 3)"
  using bit_kernels_any_schedule [of "[1, 0]" "List.product [0..<grid 2] [0..<256]" "[0, 0]" "[1, 0]" 3
      "List.product [0..<grid 3] [0..<256]" "[7, 7, 7]" 5]
  using schedule_in_order [of 2] by (simp add: schedule_in_order numeral_2_eq_2)

text \<open>C19: the same holds of the kernels on floats, whatever the output buffers hold before.\<close>

theorem float_kernels_any_schedule:
  assumes "schedule_of n sched" "length y_re = n" "length y_im = n" "length h_re = n" "length h_im = n"
    and "length out_re = n" "length out_im = n" "length iq = 2 * n" "length llr = 2 * n" "0 < noise"
  shows "zf_tone_f32 y_re y_im h_re h_im = Inr (launch_zf sched y_re y_im h_re h_im (out_re, out_im) n) \<and>
    mmse_tone_f32 y_re y_im h_re h_im noise = Inr (launch_mmse sched y_re y_im h_re h_im noise (out_re, out_im) n) \<and>
    harq_combine_f32 y_re y_im = Inr (launch_harq_combine sched y_re y_im out_re n) \<and>
    qpsk_llr_f32 iq noise = Inr (launch_qpsk_llr sched iq llr noise n)"
proof (intro conjI)
  note pair = mmse_threads.launch_pair [OF assms(1), of "(out_re, out_im)"]
  show "zf_tone_f32 y_re y_im h_re h_im = Inr (launch_zf sched y_re y_im h_re h_im (out_re, out_im) n)"
    using assms by (simp add: zf_tone_f32_def launch_zf_def zf_is_mmse pair)
  show "mmse_tone_f32 y_re y_im h_re h_im noise = Inr (launch_mmse sched y_re y_im h_re h_im noise (out_re, out_im) n)"
    using assms by (simp add: mmse_tone_f32_def launch_mmse_def pair)
  show "harq_combine_f32 y_re y_im = Inr (launch_harq_combine sched y_re y_im out_re n)"
    using assms by (simp add: harq_combine_f32_def launch_harq_combine_def harq_threads.launch_cells)
  show "qpsk_llr_f32 iq noise = Inr (launch_qpsk_llr sched iq llr noise n)"
    using assms by (simp add: qpsk_llr_f32_def launch_qpsk_llr_def qpsk_llr_threads.launch_iq)
qed

theorem float_kernels_any_schedule_witness:
  "launch_qpsk_llr (List.product [0..<grid 1] [0..<256]) [3, -1] [7, 7] 2 1 = [3, -1] \<and>
   launch_harq_combine (List.product [0..<grid 1] [0..<256]) [1] [2] [9] 1 = [3]"
  using float_kernels_any_schedule [OF schedule_in_order [of 1], of "[1]" "[2]" "[1]" "[1]" "[9]" "[9]" "[3, -1]" "[7, 7]" 2]
  by (simp add: qpsk_llr_f32_def harq_combine_f32_def)

text \<open>The tone kernels against the equalisers of the library: the zero-forcing tone is the library's MMSE
  tone with the noise variance \<open>10\<^sup>-\<^sup>1\<^sup>2\<close>, the MMSE tone is the library's.\<close>

theorem tone_refs_are_mmse:
  assumes "length y = length H" "0 < noise"
  shows "\<exists>zf mm. equalize_mmse_tones y H (1 / 10 ^ 12) = Inr (map Some zf) \<and>
    zf_tone_f32 (map Re y) (map Im y) (map Re H) (map Im H) = Inr (map Re zf, map Im zf) \<and>
    equalize_mmse_tones y H noise = Inr (map Some mm) \<and>
    mmse_tone_f32 (map Re y) (map Im y) (map Re H) (map Im H) noise = Inr (map Re mm, map Im mm)"
proof -
  have "mmse_tone_f32 (map Re y) (map Im y) (map Re H) (map Im H) (1 / 10 ^ 12) =
    zf_tone_f32 (map Re y) (map Im y) (map Re H) (map Im H)"
    using assms(1) by (simp add: zf_tone_f32_def mmse_tone_f32_def)
  then show ?thesis
    using mmse_tones_parts [OF assms] mmse_tones_parts [OF assms(1), of "1 / 10 ^ 12"] by fastforce
qed

theorem tone_refs_are_mmse_witness:
  "\<exists>zf mm. equalize_mmse_tones [\<i>] [2] (1 / 10 ^ 12) = Inr (map Some zf) \<and>
    zf_tone_f32 [0] [1] [2] [0] = Inr (map Re zf, map Im zf) \<and>
    equalize_mmse_tones [\<i>] [2] 1 = Inr (map Some mm) \<and> mmse_tone_f32 [0] [1] [2] [0] 1 = Inr (map Re mm, map Im mm)"
  using tone_refs_are_mmse [of "[\<i>]" "[2]" 1] by simp

text \<open>The soft demapper of the kernels differs from the library's: both have the sign of the sample's
  component, but the kernel's value is \<open>\<surd>2\<close> times the max-log value.\<close>

theorem qpsk_llr_scale:
  assumes "0 < noise"
  shows "demodulate_llr [z] QPSK noise = Inr [Fin (sqrt 2 / noise * Re z), Fin (sqrt 2 / noise * Im z)] \<and>
    qpsk_llr_f32 [Re z, Im z] noise = Inr [sqrt 2 * (sqrt 2 / noise * Re z), sqrt 2 * (sqrt 2 / noise * Im z)]"
proof
  let ?s = "1 / sqrt 2"
  have dist: "(cmod (z - Complex a b))\<^sup>2 = (Re z - a)\<^sup>2 + (Im z - b)\<^sup>2" for a b by (simp add: cmod_power2)
  have amps: "map (\<lambda>i. (amp_i QPSK i, amp_q QPSK i)) [0..<4] = [(1, 1), (1, -1), (-1, 1), (-1, -1)]" by code_simp
  have point: "symbol_from_index 0 QPSK = Complex ?s ?s" "symbol_from_index 1 QPSK = Complex ?s (- ?s)"
    "symbol_from_index 2 QPSK = Complex (- ?s) ?s" "symbol_from_index 3 QPSK = Complex (- ?s) (- ?s)"
    using amps by (simp_all add: symbol_from_index_eq scale_for_def upt_rec numeral_2_eq_2 numeral_3_eq_3)
  have cls: "label_class QPSK 0 0 = [0, 1]" "label_class QPSK 0 1 = [2, 3]" "label_class QPSK 1 0 = [0, 2]" "label_class QPSK 1 1 = [1, 3]"
    by code_simp+
  have half: "min (a + c) (a + d) = a + min c d" "min (c + a) (d + a) = min c d + a" for a c d :: real by (simp_all add: min_def)
  have diff: "(x + ?s)\<^sup>2 - (x - ?s)\<^sup>2 = 4 * ?s * x" for x :: real by (simp add: power2_eq_square algebra_simps)
  have Min2: "Min {a, b} = min a b" for a b :: real by (cases "a = b") simp_all
  have k0: "class_min QPSK z 0 1 - class_min QPSK z 0 0 = 4 * ?s * Re z"
    and k1: "class_min QPSK z 1 1 - class_min QPSK z 1 0 = 4 * ?s * Im z"
    using diff [of "Re z"] diff [of "Im z"] by (simp_all only: class_min_def cls point dist list.set image_insert image_empty
      Min2 half minus_minus diff_minus_eq_add add_diff_cancel_left add_diff_cancel_right)
  have "4 * ?s = 2 * sqrt 2" by (simp add: real_div_sqrt field_simps)
  then have "4 * ?s * x / (2 * noise) = sqrt 2 / noise * x" for x by simp
  then show "demodulate_llr [z] QPSK noise = Inr [Fin (sqrt 2 / noise * Re z), Fin (sqrt 2 / noise * Im z)]"
    using demodulate_llr_max_log_aux [OF assms, of "[z]" QPSK] k0 k1 assms by (simp add: bits_per_symbol_def upt_rec demodulate_llr_def)
  show "qpsk_llr_f32 [Re z, Im z] noise = Inr [sqrt 2 * (sqrt 2 / noise * Re z), sqrt 2 * (sqrt 2 / noise * Im z)]"
    using assms by (simp add: qpsk_llr_f32_def)
qed

theorem qpsk_llr_scale_witness:
  "demodulate_llr [Complex 1 (- 1)] QPSK 1 = Inr [Fin (sqrt 2), Fin (- sqrt 2)] \<and> qpsk_llr_f32 [1, - 1] 1 = Inr [2, - 2]"
  using qpsk_llr_scale [of 1 "Complex 1 (- 1)"] by simp

text \<open>The comparison is exact: the report of two vectors of the same length has the largest distance
  and the number of components further apart than the tolerance, and says they match iff there is none.\<close>

theorem compare_f32_exact:
  "compare_f32 a b knl tol =
    (if length a = length b
     then let errs = map2 (\<lambda>x y. \<bar>x - y\<bar>) a b; n = length (filter (\<lambda>e. e > tol) errs)
       in \<lparr>cr_match = (n = 0), cr_max_abs_err = Max (insert 0 (set errs)), cr_mismatches = n, cr_kernel = knl,
          cr_status = (if n = 0 then ''cpu_reference_match'' else ''cpu_reference_mismatch'')\<rparr>
     else \<lparr>cr_match = False, cr_max_abs_err = 0, cr_mismatches = max (length a) (length b), cr_kernel = knl,
          cr_status = ''length_mismatch''\<rparr>)"
proof (cases "length a = length b")
  case True
  let ?errs = "map2 (\<lambda>x y. \<bar>x - y\<bar>) a b"
  have "map (\<lambda>i. \<bar>a ! i - b ! i\<bar>) [0..<length a] = ?errs" using True by (intro nth_equalityI) simp_all
  then show ?thesis using True
    by (simp only: compare_f32_def Let_def compare_loop) simp
qed (simp add: compare_f32_def)

end
