(* ===== verification/BinaryPam.thy ===== *)
theory BinaryPam
  imports Modulation Llr
begin

text \<open>
  \<open>educational/src/binary_pam.cpp\<close>: the mapper without Gray labels and the demapper with hard decisions
  of constant magnitude. The levels, the scale and the search for the nearest level are those of
  \<open>modulation.cpp\<close>, written out again in the file. The pair of maps is an \<open>amplitude_code\<close>.
\<close>

section \<open>The code\<close>

definition pam_scale_for :: "modulation_order \<Rightarrow> real" where
  "pam_scale_for order =
     (case order of QPSK \<Rightarrow> 1 / sqrt 2 | QAM16 \<Rightarrow> 1 / sqrt 10 | QAM64 \<Rightarrow> 1 / sqrt 42 | QAM256 \<Rightarrow> 1 / sqrt 170)"

definition amp_from_bits :: "bitvec \<Rightarrow> nat \<Rightarrow> nat \<Rightarrow> int" where
  "amp_from_bits b start nbits =
     (let v = foldl (\<lambda>v i. push_bit 1 v OR unat (b ! (start + i))) 0 [0..<nbits];
          levels = push_bit nbits 1 in 2 * int v - (levels - 1))"

definition modulate_binary_pam :: "bitvec \<Rightarrow> modulation_order \<Rightarrow> complexvec result" where
  "modulate_binary_pam bits order =
     (let m = bits_per_symbol order in
      and_then (require (length bits mod m = 0) ''bit length not multiple of Qm'') (\<lambda>_.
      let half = m div 2; s = pam_scale_for order in
      Inr (map (\<lambda>t. let i = t * m in
                Complex (s * of_int (amp_from_bits bits i half)) (s * of_int (amp_from_bits bits (i + half) half)))
             [0..<length bits div m])))"

definition bits_from :: "int \<Rightarrow> nat \<Rightarrow> bitvec" where
  "bits_from amp half =
     (let levels = push_bit half 1;
          v0 = c_div (amp + (levels - 1)) 2;
          v1 = (if v0 < 0 then 0 else v0);
          v2 = (if v1 \<ge> levels then levels - 1 else v1)
      in map (\<lambda>i. of_nat (drop_bit i (nat v2) AND 1)) (rev [0..<half]))"

definition hard_constant_llr :: "complexvec \<Rightarrow> modulation_order \<Rightarrow> real \<Rightarrow> softvec" where
  "hard_constant_llr syms order magnitude =
     (let half = bits_per_symbol order div 2; s = pam_scale_for order;
          hard = concat (map (\<lambda>z. bits_from (nearest half s (Re z)) half @ bits_from (nearest half s (Im z)) half) syms)
      in map (\<lambda>b. if b = 0 then magnitude else - magnitude) hard)"

section \<open>The pair of maps is an amplitude code\<close>

lemma amp_from_bits_eq:
  assumes "bits_ok bits" "start + n \<le> length bits"
  shows "pack_bits bits start n < 2 ^ n" "amp_from_bits bits start n = 2 * int (pack_bits bits start n) - (2 ^ n - 1)"
  using pack_bits_less [OF assms] by (simp_all add: amp_from_bits_def pack_bits_def Let_def)

interpretation binary_code: amplitude_code amp_from_bits bits_from
proof unfold_locales
  fix bits start n assume *: "bits_ok bits" "start + n \<le> length bits"
  let ?v = "pack_bits bits start n"
  note v = amp_from_bits_eq [OF *]
  show "\<exists>v. v < 2 ^ n \<and> amp_from_bits bits start n = 2 ^ n - 1 - 2 * int v"
    using v by (intro exI [of _ "2 ^ n - 1 - ?v"]) (simp add: of_nat_diff)
  have "c_div (2 * int ?v) 2 = int ?v" by (simp add: c_div_nonneg)
  moreover have "int ?v < 2 ^ n" using v(1) by (metis of_nat_less_iff of_nat_numeral of_nat_power)
  ultimately have "bits_from (amp_from_bits bits start n) n = msb_bits n ?v"
    by (simp add: bits_from_def v(2) Let_def msb_bits_def rev_map)
  then show "bits_from (amp_from_bits bits start n) n = take n (drop start bits)" by (simp add: msb_pack [OF *])
qed

section \<open>Properties\<close>

text \<open>Within a noise margin of one amplitude step per axis, the constant-magnitude soft values have the
  signs of the sent bits and all the same magnitude, for every order.\<close>

theorem binary_pam_margin:
  assumes "bits_ok bits" "modulate_binary_pam bits order = Inr syms" "length noise = length syms"
    and "list_all (\<lambda>e. \<bar>Re e\<bar> < pam_scale_for order \<and> \<bar>Im e\<bar> < pam_scale_for order) noise" "0 < magnitude"
  shows "bits_to_llr bits magnitude = Inr (hard_constant_llr (map2 (+) syms noise) order magnitude) \<and>
    llr_to_bits (hard_constant_llr (map2 (+) syms noise) order magnitude) = bits"
proof -
  define m where "m = bits_per_symbol order"
  define half where "half = m div 2"
  have m: "m = half + half" using bits_per_symbol_half [of order] by (simp add: m_def half_def)
  from assms(2) have len: "length bits = (length bits div m) * m"
    and syms: "syms = map (\<lambda>t. Complex (pam_scale_for order * of_int (amp_from_bits bits (t * m) half))
      (pam_scale_for order * of_int (amp_from_bits bits (t * m + half) half))) [0..<length bits div m]"
    by (auto simp: modulate_binary_pam_def Let_def m_def half_def split: if_splits)
  have "length noise = length bits div m" using assms(3) syms by simp
  from binary_code.margin [OF assms(1) len m syms this assms(4)]
  have "hard_constant_llr (map2 (+) syms noise) order magnitude = map (\<lambda>b. if b = 0 then magnitude else - magnitude) bits"
    by (simp only: hard_constant_llr_def Let_def m_def half_def)
  then show ?thesis using assms(1,5) by (simp add: bits_to_llr_eq llr_to_bits_of_bits)
qed

theorem binary_pam_margin_witness:
  "\<exists>syms. modulate_binary_pam [0, 1] QPSK = Inr syms \<and>
    llr_to_bits (hard_constant_llr (map2 (+) syms [Complex (1 / 2) (- 1 / 2)]) QPSK 4) = [0, 1]"
proof -
  have "list_all (\<lambda>e. \<bar>Re e\<bar> < pam_scale_for QPSK \<and> \<bar>Im e\<bar> < pam_scale_for QPSK) [Complex (1 / 2) (- 1 / 2)]"
    using test_noise by (simp add: pam_scale_for_def scale_for_def)
  moreover obtain syms where "modulate_binary_pam [0, 1] QPSK = Inr syms" "length syms = 1"
    by (simp add: modulate_binary_pam_def bits_per_symbol_def Let_def)
  ultimately show ?thesis using binary_pam_margin [of "[0, 1]" QPSK syms "[Complex (1 / 2) (- 1 / 2)]" 4] by auto
qed

end
