(* ===== verification/ShortLdpc.thy ===== *)
theory ShortLdpc
  imports Llr CInt
begin

text \<open>
  \<open>educational/src/ldpc_short.cpp\<close>: the (16,8) code with its bit-flipping decoder. The iterations left
  are the argument of \<open>flip_loop\<close>; one round (the votes of the failed checks, the most voted bit, the
  flip) is a definition of its own. The lemmas show that decoding commutes with adding a codeword, so
  what the decoder does to an error pattern is settled by evaluation on the pattern alone.
\<close>

section \<open>The code\<close>

record short_params =
  sp_n :: int
  sp_k :: int
  sp_max_iter :: int

definition default_short :: short_params where
  "default_short = \<lparr>sp_n = 16, sp_k = 8, sp_max_iter = 20\<rparr>"

definition P_COL :: "nat list list" where
  "P_COL = [[0, 1, 2], [1, 2, 3], [2, 3, 4], [3, 4, 5], [4, 5, 6], [5, 6, 7], [6, 7, 0], [7, 0, 1]]"

definition require_params :: "short_params \<Rightarrow> unit result" where
  "require_params p = require (sp_n p = 16 \<and> sp_k p = 8) ''educational LDPC only supports (16,8)''"

definition var_of :: "nat \<Rightarrow> nat \<Rightarrow> nat" where
  "var_of r e = (if e < 3 then P_COL ! r ! e else 8 + r)"

definition short_parity :: "bitvec \<Rightarrow> nat \<Rightarrow> u8" where
  "short_parity cw r = foldl (\<lambda>s t. s XOR cw ! (P_COL ! r ! t)) 0 [0..<3]"

definition encode_impl :: "bitvec \<Rightarrow> bitvec result" where
  "encode_impl info =
     and_then (require (length info = 8) ''info length must be k=8'') (\<lambda>_.
     let cw = foldl (\<lambda>cw i. cw[i := info ! i]) (replicate 16 0) [0..<8] in
     Inr (foldl (\<lambda>cw r. cw[8 + r := short_parity cw r]) cw [0..<8]))"

definition check_sum :: "bitvec \<Rightarrow> nat \<Rightarrow> u8" where
  "check_sum hard r = foldl (\<lambda>s e. s XOR hard ! var_of r e) 0 [0..<4]"

definition short_syndrome_ok :: "bitvec \<Rightarrow> bool" where
  "short_syndrome_ok hard = list_all (\<lambda>r. check_sum hard r = 0) [0..<8]"

definition short_encode :: "bitvec \<Rightarrow> short_params \<Rightarrow> bitvec result" where
  "short_encode info p = and_then (require_params p) (\<lambda>_. encode_impl info)"

definition vote_row :: "bitvec \<Rightarrow> nat list \<Rightarrow> nat \<Rightarrow> nat list" where
  "vote_row hard votes r =
     (if check_sum hard r \<noteq> 0 then foldl (\<lambda>v e. v[var_of r e := v ! var_of r e + 1]) votes [0..<4] else votes)"

definition votes_of :: "bitvec \<Rightarrow> nat list" where
  "votes_of hard = foldl (vote_row hard) (replicate 16 0) [0..<8]"

definition most_voted :: "nat list \<Rightarrow> nat" where
  "most_voted votes = foldl (\<lambda>best i. if votes ! i > votes ! best then i else best) 0 [1..<16]"

fun flip_loop :: "nat \<Rightarrow> bitvec \<Rightarrow> bitvec" where
  "flip_loop 0 hard = hard"
| "flip_loop (Suc n) hard =
     (if short_syndrome_ok hard then hard
      else let votes = votes_of hard; best = most_voted votes in
        if votes ! best = 0 then hard else flip_loop n (hard[best := hard ! best XOR 1]))"

definition short_decode :: "softvec \<Rightarrow> short_params \<Rightarrow> bitvec result" where
  "short_decode llr p =
     and_then (require_params p) (\<lambda>_.
     and_then (require (length llr = 16) ''LLR length must be n=16'') (\<lambda>_.
     let hard = map (\<lambda>i. if llr ! i \<ge> 0 then 0 else 1) [0..<16] in
     Inr (take 8 (flip_loop (nat (sp_max_iter p)) hard))))"

record short_reference =
  sr_info :: bitvec
  sr_codeword :: bitvec
  sr_provenance :: string

definition make_reference :: "bitvec \<Rightarrow> short_params \<Rightarrow> short_reference result" where
  "make_reference info p =
     and_then (short_encode info p) (\<lambda>cw.
     Inr \<lparr>sr_info = info, sr_codeword = cw, sr_provenance = ''self-generated EDUCATIONAL_ONLY (16,8)''\<rparr>)"

section \<open>The code word\<close>

lemma upt_8: "[0..<8] = [0, 1, 2, 3, 4, 5, 6, 7]" by (simp add: upt_rec)
lemma upt_4: "[0..<4] = [0, 1, 2, 3]" by (simp add: upt_rec)
lemma upt_3: "[0..<3] = [0, 1, 2]" by (simp add: upt_rec)

lemma length_8E:
  assumes "length xs = 8"
  obtains a b c d e f g h where "xs = [a, b, c, d, e, f, g, h]"
  using assms by (auto simp: eval_nat_numeral length_Suc_conv)

lemma encode_impl_8:
  "encode_impl [a, b, c, d, e, f, g, h] = Inr [a, b, c, d, e, f, g, h, a XOR b XOR c, b XOR c XOR d, c XOR d XOR e,
     d XOR e XOR f, e XOR f XOR g, f XOR g XOR h, g XOR h XOR a, h XOR a XOR b]"
  by (simp add: encode_impl_def upt_8 upt_3 short_parity_def P_COL_def eval_nat_numeral xor.assoc Let_def)

lemma encode_impl_ok:
  assumes "encode_impl info = Inr cw"
  shows "length cw = 16" "take 8 cw = info" "short_syndrome_ok cw" "bits_ok info \<Longrightarrow> bits_ok cw"
proof -
  have "length info = 8" using assms by (simp add: encode_impl_def split: if_splits)
  then obtain a b c d e f g h where i: "info = [a, b, c, d, e, f, g, h]" by (rule length_8E)
  then have cw: "cw = [a, b, c, d, e, f, g, h, a XOR b XOR c, b XOR c XOR d, c XOR d XOR e,
     d XOR e XOR f, e XOR f XOR g, f XOR g XOR h, g XOR h XOR a, h XOR a XOR b]"
    using assms by (simp add: encode_impl_8)
  show "length cw = 16" "take 8 cw = info" by (simp_all add: cw i)
  have "x XOR (y XOR (z XOR (x XOR (y XOR z)))) = 0" for x y z :: u8 by (rule bit_word_eqI) (auto simp: bit_simps)
  then show "short_syndrome_ok cw"
    by (simp add: short_syndrome_ok_def check_sum_def var_of_def P_COL_def upt_8 upt_4 cw xor.assoc)
  show "bits_ok info \<Longrightarrow> bits_ok cw" by (simp add: cw i is_bit_xor)
qed

section \<open>Decoding commutes with adding a code word\<close>

lemma var_of_less: "r < 8 \<Longrightarrow> e < 4 \<Longrightarrow> var_of r e < 16"
  by (auto simp: var_of_def P_COL_def less_Suc_eq eval_nat_numeral)

lemma check_sum_xor:
  assumes "length a = 16" "length b = 16" "r < 8"
  shows "check_sum (xor_vec a b) r = check_sum a r XOR check_sum b r"
  using assms var_of_less [OF assms(3)] by (simp add: check_sum_def upt_4 ac_simps)

lemma check_sum_code: "short_syndrome_ok cw \<Longrightarrow> r < 8 \<Longrightarrow> check_sum cw r = 0"
  by (simp add: short_syndrome_ok_def list_all_iff)

lemma most_voted_less: "most_voted votes < 16"
proof -
  have *: "foldl (\<lambda>best i. if votes ! i > votes ! best then i else best) k is < 16" if "k < 16" "set is \<subseteq> {..<16}" for k "is"
    using that by (induction "is" arbitrary: k) auto
  then show ?thesis unfolding most_voted_def by (intro *) auto
qed

lemma flip_loop_xor:
  assumes "short_syndrome_ok cw" "length cw = 16" "length e = 16"
  shows "flip_loop n (xor_vec cw e) = xor_vec cw (flip_loop n e)"
  using assms(3)
proof (induction n arbitrary: e)
  case (Suc n)
  have sum: "check_sum (xor_vec cw e) r = check_sum e r" if "r < 8" for r
    using that by (simp add: check_sum_xor assms(2) Suc.prems check_sum_code [OF assms(1)])
  then have syn: "short_syndrome_ok (xor_vec cw e) = short_syndrome_ok e" by (simp add: short_syndrome_ok_def list_all_iff)
  have "foldl (vote_row (xor_vec cw e)) v [0..<8] = foldl (vote_row e) v [0..<8]" for v
    by (rule foldl_cong) (simp_all add: vote_row_def sum)
  then have votes: "votes_of (xor_vec cw e) = votes_of e" by (simp add: votes_of_def)
  have flip: "(xor_vec cw e)[k := xor_vec cw e ! k XOR 1] = xor_vec cw (e[k := e ! k XOR 1])" if "k < 16" for k
    using that assms(2) Suc.prems by (intro nth_equalityI) (auto simp: nth_list_update xor.assoc)
  show ?case using Suc.IH Suc.prems by (simp add: syn votes Let_def flip most_voted_less)
qed simp

text \<open>A received word with the sign of position \<open>k\<close> inverted.\<close>

definition one_error :: "nat \<Rightarrow> bitvec" where
  "one_error k = (replicate 16 0)[k := 1]"

definition soft_word :: "bitvec \<Rightarrow> softvec \<Rightarrow> softvec" where
  "soft_word cw mag = map2 (\<lambda>b m. if b = 0 then m else - m) cw mag"

lemma short_decode_soft:
  assumes "bits_ok cw" "length cw = 16" "length mag = 16" "list_all (\<lambda>m. 0 < m) mag" "sp_n p = 16" "sp_k p = 8"
  shows "short_decode (soft_word cw mag) p = Inr (take 8 (flip_loop (nat (sp_max_iter p)) cw))"
proof -
  have "map (\<lambda>i. if soft_word cw mag ! i \<ge> 0 then 0 else 1) [0..<16] = cw"
    using assms(1-4) by (intro nth_equalityI) (auto simp: soft_word_def bits_ok_iff_nth is_bit_def list_all_length not_le)
  moreover have "length (soft_word cw mag) = 16" using assms(2,3) by (simp add: soft_word_def)
  ultimately show ?thesis using assms(5,6) by (simp add: short_decode_def require_params_def Let_def cong: map_cong)
qed

lemma decode_error:
  assumes "encode_impl info = Inr cw" "bits_ok info" "k < 16" "length mag = 16" "list_all (\<lambda>m. 0 < m) mag"
    and "sp_n p = 16" "sp_k p = 8"
  shows "short_decode (soft_word (xor_vec cw (one_error k)) mag) p =
    Inr (xor_vec info (take 8 (flip_loop (nat (sp_max_iter p)) (one_error k))))"
proof -
  note cw = encode_impl_ok [OF assms(1)]
  have e: "length (one_error k) = 16" "bits_ok (one_error k)"
    using assms(3) by (auto simp: one_error_def bits_ok_iff_nth nth_list_update)
  have "take 8 (xor_vec cw x) = xor_vec info (take 8 x)" for x
    using cw(1,2) by (simp add: xor_vec_def take_map take_zip)
  then show ?thesis
    using short_decode_soft [of "xor_vec cw (one_error k)" mag p] flip_loop_xor [OF cw(3,1) e(1)] cw(1) e assms cw(4) [OF assms(2)]
    by (simp add: bits_ok_xor_vec)
qed

text \<open>The decoder on the single errors: it removes those of information bits in one round.\<close>

lemma info_error_rounds: "list_all (\<lambda>k. flip_loop 1 (one_error k) = replicate 16 0) [0..<8]"
  by code_simp

lemma zero_stays: "flip_loop n (replicate 16 0) = replicate 16 0"
proof -
  have "short_syndrome_ok (replicate 16 0)" by code_simp
  then show ?thesis by (cases n) simp_all
qed

lemma parity_error_rounds: "flip_loop 20 (one_error 9) = (one_error 9)[0 := 1, 1 := 1]"
  by code_simp

lemma flip_loop_add: "flip_loop (m + n) h = flip_loop n (flip_loop m h)"
proof (induction m arbitrary: h)
  case (Suc m)
  have "flip_loop n h = h" if "short_syndrome_ok h \<or> votes_of h ! most_voted (votes_of h) = 0"
    using that by (cases n) (auto simp: Let_def)
  with Suc show ?case by (auto simp: Let_def)
qed simp

section \<open>Properties\<close>

text \<open>C32: the short code round-trips and corrects one error in the information part: with any positive
  reliabilities, at least one iteration and any number of them, the sent information is decoded from the
  codeword and from the codeword with one information bit inverted.\<close>

theorem short_ldpc_corrects:
  assumes "length info = 8" "bits_ok info" "length mag = 16" "list_all (\<lambda>m. 0 < m) mag"
    and "sp_n p = 16" "sp_k p = 8" "1 \<le> sp_max_iter p" "k < 8"
  shows "\<exists>cw. short_encode info p = Inr cw \<and> short_decode (soft_word cw mag) p = Inr info \<and>
    short_decode (soft_word (xor_vec cw (one_error k)) mag) p = Inr info"
proof -
  obtain a b c d e f g h where "info = [a, b, c, d, e, f, g, h]" using length_8E [OF assms(1)] .
  then obtain cw where enc: "encode_impl info = Inr cw" using encode_impl_8 by auto
  note cw = encode_impl_ok [OF enc]
  obtain n where n: "nat (sp_max_iter p) = 1 + n" using assms(7) by (cases "nat (sp_max_iter p)") auto
  have "flip_loop 1 (one_error k) = replicate 16 0" using info_error_rounds assms(8) by (simp only: list_all_iff) simp
  then have flip: "flip_loop (nat (sp_max_iter p)) (one_error k) = replicate 16 0"
    by (simp only: n flip_loop_add zero_stays)
  have "xor_vec info (take 8 (replicate 16 0)) = info" using assms(1) by (intro nth_equalityI) simp_all
  then have "short_decode (soft_word (xor_vec cw (one_error k)) mag) p = Inr info"
    using decode_error [OF enc assms(2) _ assms(3-6), of k] assms(8) flip by simp
  moreover have "flip_loop m cw = cw" for m using cw(3) by (cases m) simp_all
  then have "short_decode (soft_word cw mag) p = Inr info"
    using short_decode_soft [OF cw(4) [OF assms(2)] cw(1) assms(3-6)] cw(2) by simp
  ultimately show ?thesis using enc assms(5,6) by (auto simp: short_encode_def require_params_def)
qed

theorem short_ldpc_corrects_witness:
  "\<exists>cw. short_encode [1, 0, 1, 1, 0, 0, 1, 0] default_short = Inr cw \<and>
    short_decode (soft_word (xor_vec cw (one_error 3)) (replicate 16 2)) default_short = Inr [1, 0, 1, 1, 0, 0, 1, 0]"
  using short_ldpc_corrects [of "[1, 0, 1, 1, 0, 0, 1, 0]" "replicate 16 2" default_short 3]
  by (auto simp: default_short_def list_all_iff)

text \<open>It does not correct every single error: with the default parameters the inversion of the parity bit
  at position 9 makes the decoder return a wrong vector, for every information vector and any
  reliabilities, although the received information bits were all correct.\<close>

theorem short_ldpc_miscorrects:
  assumes "length info = 8" "bits_ok info" "length mag = 16" "list_all (\<lambda>m. 0 < m) mag"
  shows "\<exists>cw. short_encode info default_short = Inr cw \<and>
    short_decode (soft_word (xor_vec cw (one_error 9)) mag) default_short = Inr (xor_vec info [1, 1, 0, 0, 0, 0, 0, 0])"
proof -
  obtain a b c d e f g h where "info = [a, b, c, d, e, f, g, h]" using length_8E [OF assms(1)] .
  then obtain cw where enc: "encode_impl info = Inr cw" using encode_impl_8 by auto
  have "take 8 ((one_error 9)[0 := 1, 1 := 1]) = [1, 1, 0, 0, 0, 0, 0, 0]" by code_simp
  then have "short_decode (soft_word (xor_vec cw (one_error 9)) mag) default_short = Inr (xor_vec info [1, 1, 0, 0, 0, 0, 0, 0])"
    using decode_error [OF enc assms(2) _ assms(3,4), of 9 default_short] parity_error_rounds by (simp add: default_short_def)
  then show ?thesis using enc by (simp add: short_encode_def require_params_def default_short_def)
qed

theorem short_ldpc_miscorrects_witness:
  "\<exists>cw. short_encode (replicate 8 0) default_short = Inr cw \<and>
    short_decode (soft_word (xor_vec cw (one_error 9)) (replicate 16 1)) default_short = Inr [1, 1, 0, 0, 0, 0, 0, 0]"
proof -
  have "xor_vec (replicate 8 0) [1, 1, 0, 0, 0, 0, 0, 0] = [1, 1, 0, 0, 0, 0, 0, 0]" by code_simp
  then show ?thesis using short_ldpc_miscorrects [of "replicate 8 0" "replicate 16 1"] by (simp add: list_all_iff)
qed

end
