(* ===== verification/BerCampaign.thy ===== *)
theory BerCampaign
  imports Modulation
begin

text \<open>
  \<open>include/nr_bb/ber_campaign.hpp\<close> and \<open>src/ber_campaign.cpp\<close>: for every signal-to-noise ratio a random
  bit vector is modulated, disturbed and decided, and the errors are counted. The values of the standard
  library's distributions are implementation-defined, so two parameters give them: \<open>bit_draw i k\<close> is the
  \<open>k\<close>-th bit and \<open>norm_draw i k\<close> the \<open>k\<close>-th normal value that the generator, seeded once, yields while
  point \<open>i\<close> is simulated. The documented range of the bits is the hypothesis \<open>draws_bits\<close>.
\<close>

section \<open>The code\<close>

record ber_point =
  bp_snr_db :: real
  bp_ber :: real
  bp_bler :: real
  bp_bits :: nat
  bp_bit_errors :: nat
  bp_blocks :: nat
  bp_block_errors :: nat

record ber_campaign_result =
  bc_order :: modulation_order
  bc_points :: "ber_point list"
  bc_provenance :: string

definition count_errors :: "bitvec \<Rightarrow> bitvec \<Rightarrow> nat" where
  "count_errors bits hat = foldl (\<lambda>n i. if bits ! i \<noteq> hat ! i then n + 1 else n) 0 [0..<length bits]"

definition sigma_of :: "real \<Rightarrow> real" where
  "sigma_of snr_db = (let snr = 10 powr (snr_db / 10); noise_var = 1 / snr in sqrt (noise_var / 2))"

definition campaign_point :: "(nat \<Rightarrow> u8) \<Rightarrow> (nat \<Rightarrow> real) \<Rightarrow> modulation_order \<Rightarrow> nat \<Rightarrow> real \<Rightarrow> ber_point result" where
  "campaign_point bit_draw norm_draw order bits_per_snr snr_db =
     (let bits = map bit_draw [0..<bits_per_snr] in
      and_then (modulate bits order) (\<lambda>tx.
      let sigma = sigma_of snr_db;
          rx = map (\<lambda>t. tx ! t + Complex (sigma * norm_draw (2 * t)) (sigma * norm_draw (2 * t + 1))) [0..<length tx];
          hat = demodulate_hard rx order;
          errors = count_errors bits hat;
          block_errors = (if errors \<noteq> 0 then 1 else 0)
      in Inr \<lparr>bp_snr_db = snr_db, bp_ber = real errors / real (length bits), bp_bler = real block_errors,
              bp_bits = length bits, bp_bit_errors = errors, bp_blocks = 1, bp_block_errors = block_errors\<rparr>))"

definition run_ber_campaign ::
  "(nat \<Rightarrow> nat \<Rightarrow> u8) \<Rightarrow> (nat \<Rightarrow> nat \<Rightarrow> real) \<Rightarrow> modulation_order \<Rightarrow> real list \<Rightarrow> nat \<Rightarrow> ber_campaign_result result" where
  "run_ber_campaign bit_draw norm_draw order snr_db_list bits_per_snr =
     and_then (require (bits_per_snr > 0) ''bits_per_snr'') (\<lambda>_.
     and_then (require (bits_per_snr mod bits_per_symbol order = 0) ''bits multiple of Qm'') (\<lambda>_.
     and_then (mapE (\<lambda>i. campaign_point (bit_draw i) (norm_draw i) order bits_per_snr (snr_db_list ! i)) [0..<length snr_db_list])
       (\<lambda>points. Inr \<lparr>bc_order = order, bc_points = points, bc_provenance = ''cpu_awgn_self_campaign''\<rparr>)))"

section \<open>Lemmas\<close>

definition draws_bits :: "(nat \<Rightarrow> nat \<Rightarrow> u8) \<Rightarrow> bool" where
  "draws_bits bit_draw \<longleftrightarrow> (\<forall>i k. is_bit (bit_draw i k))"

definition quiet :: "modulation_order \<Rightarrow> nat \<Rightarrow> real \<Rightarrow> (nat \<Rightarrow> real) \<Rightarrow> bool" where
  "quiet order n snr_db nd \<longleftrightarrow> list_all (\<lambda>k. sigma_of snr_db * \<bar>nd k\<bar> < scale_for order) [0..<n]"

text \<open>The counter is the number of positions where the two vectors differ.\<close>

lemma count_errors_eq: "count_errors bits hat = length (filter (\<lambda>i. bits ! i \<noteq> hat ! i) [0..<length bits])"
proof -
  have "foldl (\<lambda>n i. if bits ! i \<noteq> hat ! i then n + 1 else n) a is = a + length (filter (\<lambda>i. bits ! i \<noteq> hat ! i) is)" for a "is"
    by (induction "is" arbitrary: a) simp_all
  from this [of 0 "[0..<length bits]"] show ?thesis by (simp add: count_errors_def)
qed

lemma count_errors_le: "count_errors bits hat \<le> length bits"
  using length_filter_le [of _ "[0..<length bits]"] by (simp add: count_errors_eq)

lemma count_errors_same: "count_errors bits bits = 0"
  by (simp add: count_errors_eq)

lemma sigma_of_nonneg: "0 \<le> sigma_of snr_db"
  by (simp add: sigma_of_def)

text \<open>What a point reports.\<close>

definition disturbed :: "complexvec \<Rightarrow> real \<Rightarrow> (nat \<Rightarrow> real) \<Rightarrow> complexvec" where
  "disturbed tx sigma nd = map (\<lambda>t. tx ! t + Complex (sigma * nd (2 * t)) (sigma * nd (2 * t + 1))) [0..<length tx]"

lemma campaign_point_eq:
  assumes "modulate (map bd [0..<n]) order = Inr tx"
  shows "campaign_point bd nd order n snr_db =
    (let e = count_errors (map bd [0..<n]) (demodulate_hard (disturbed tx (sigma_of snr_db) nd) order); b = (if e = 0 then 0 else 1)
     in Inr \<lparr>bp_snr_db = snr_db, bp_ber = e / n, bp_bler = real b, bp_bits = n, bp_bit_errors = e, bp_blocks = 1, bp_block_errors = b\<rparr>)"
  using assms by (simp add: campaign_point_def disturbed_def Let_def)

lemma count_errors_card:
  "count_errors (map bd [0..<n]) hat = card {k. k < n \<and> hat ! k \<noteq> bd k}"
proof -
  have "count_errors (map bd [0..<n]) hat = length (filter (\<lambda>k. hat ! k \<noteq> bd k) [0..<n])"
    unfolding count_errors_eq by (rule arg_cong [where f = length], rule filter_cong) auto
  also have "\<dots> = card (set (filter (\<lambda>k. hat ! k \<noteq> bd k) [0..<n]))" by (rule distinct_card [symmetric]) simp
  also have "set (filter (\<lambda>k. hat ! k \<noteq> bd k) [0..<n]) = {k. k < n \<and> hat ! k \<noteq> bd k}" by auto
  finally show ?thesis .
qed

lemma sigma_of_eq: "sqrt (10 powr (- snr_db / 10) / 2) = sigma_of snr_db"
  by (simp add: sigma_of_def Let_def powr_minus_divide)

lemma quiet_decides:
  assumes "bits_ok bits" "modulate bits order = Inr tx" "quiet order (2 * length tx) snr_db nd"
  shows "demodulate_hard (disturbed tx (sigma_of snr_db) nd) order = bits"
proof -
  let ?noise = "map (\<lambda>t. Complex (sigma_of snr_db * nd (2 * t)) (sigma_of snr_db * nd (2 * t + 1))) [0..<length tx]"
  have "disturbed tx (sigma_of snr_db) nd = map2 (+) tx ?noise" by (rule nth_equalityI) (simp_all add: disturbed_def)
  moreover have "list_all (\<lambda>e. \<bar>Re e\<bar> < scale_for order \<and> \<bar>Im e\<bar> < scale_for order) ?noise"
    using assms(3) by (simp add: quiet_def list_all_length abs_mult sigma_of_nonneg)
  ultimately show ?thesis using hard_margin [OF assms(1,2), of ?noise] by simp
qed

text \<open>The bits of a campaign fill whole symbols, so every point modulates.\<close>

lemma campaign_modulates:
  assumes "n > 0 \<and> n mod bits_per_symbol order = 0"
  shows "\<exists>tx. modulate (map bd [0..<n]) order = Inr tx \<and> 2 * length tx \<le> n"
proof -
  have "2 \<le> bits_per_symbol order" by (cases order) (simp_all add: bits_per_symbol_def)
  then have "2 * (n div bits_per_symbol order) \<le> bits_per_symbol order * (n div bits_per_symbol order)" by (rule mult_le_mono1)
  also have "\<dots> \<le> n" by simp
  finally show ?thesis using assms by (simp add: modulate_def Let_def)
qed

section \<open>Properties\<close>

text \<open>C38: a campaign runs exactly on a positive number of bits that fills whole symbols and reports one point
  per ratio, in their order. The counted errors of a point are the positions where the drawn bits
  differ from the hard decisions on the disturbed symbols (the modulated bits, plus two draws per symbol
  scaled by the deviation \<open>sqrt (10 ^ (- snr / 10) / 2)\<close>); the bit error rate is that number over the bits, the block error rate
  is 1 iff it is positive; and a point whose noise samples stay under one amplitude step reports no error.\<close>

theorem ber_campaign_points:
  assumes "draws_bits bit_draw"
  shows "if bits_per_snr > 0 \<and> bits_per_snr mod bits_per_symbol order = 0
    then \<exists>r. run_ber_campaign bit_draw norm_draw order snrs bits_per_snr = Inr r \<and> map bp_snr_db (bc_points r) = snrs \<and>
      (\<forall>i<length snrs. \<exists>tx rx. let p = bc_points r ! i; sigma = sqrt (10 powr (- (snrs ! i) / 10) / 2) in
        modulate (map (bit_draw i) [0..<bits_per_snr]) order = Inr tx \<and> length rx = length tx \<and>
        (\<forall>t<length tx. rx ! t = tx ! t + Complex (sigma * norm_draw i (2 * t)) (sigma * norm_draw i (2 * t + 1))) \<and>
        bp_bit_errors p = card {k. k < bits_per_snr \<and> demodulate_hard rx order ! k \<noteq> bit_draw i k} \<and>
        bp_bits p = bits_per_snr \<and> bp_ber p = bp_bit_errors p / bits_per_snr \<and> 0 \<le> bp_ber p \<and> bp_ber p \<le> 1 \<and>
        bp_blocks p = 1 \<and> bp_block_errors p = (if bp_bit_errors p = 0 then 0 else 1) \<and> bp_bler p = bp_block_errors p \<and>
        (quiet order bits_per_snr (snrs ! i) (norm_draw i) \<longrightarrow> bp_bit_errors p = 0))
    else \<exists>msg. run_ber_campaign bit_draw norm_draw order snrs bits_per_snr = Inl (Error msg)"
proof (cases "bits_per_snr > 0 \<and> bits_per_snr mod bits_per_symbol order = 0")
  case True
  let ?n = bits_per_snr
  have "\<exists>tx. modulate (map (bit_draw i) [0..<?n]) order = Inr tx \<and> 2 * length tx \<le> ?n" for i by (rule campaign_modulates [OF True])
  then obtain tx where tx: "modulate (map (bit_draw i) [0..<?n]) order = Inr (tx i)" "2 * length (tx i) \<le> ?n" for i by metis
  define rx where "rx i = disturbed (tx i) (sigma_of (snrs ! i)) (norm_draw i)" for i
  define wrong where "wrong i = card {k. k < ?n \<and> demodulate_hard (rx i) order ! k \<noteq> bit_draw i k}" for i
  define point where "point i = \<lparr>bp_snr_db = snrs ! i, bp_ber = wrong i / ?n, bp_bler = (if wrong i = 0 then 0 else 1), bp_bits = ?n,
    bp_bit_errors = wrong i, bp_blocks = 1, bp_block_errors = (if wrong i = 0 then 0 else 1)\<rparr>" for i
  have "campaign_point (bit_draw i) (norm_draw i) order ?n (snrs ! i) = Inr (point i)" for i
    using campaign_point_eq [OF tx(1)] by (simp add: count_errors_card rx_def wrong_def point_def Let_def)
  then have run: "run_ber_campaign bit_draw norm_draw order snrs ?n =
      Inr \<lparr>bc_order = order, bc_points = map point [0..<length snrs], bc_provenance = ''cpu_awgn_self_campaign''\<rparr>"
    using True by (simp add: run_ber_campaign_def mapE_Inr)
  have "wrong i \<le> card {..<?n}" for i unfolding wrong_def by (rule card_mono) auto
  then have le: "wrong i \<le> ?n" for i by simp
  have q: "wrong i = 0" if "quiet order ?n (snrs ! i) (norm_draw i)" for i
  proof -
    have "bits_ok (map (bit_draw i) [0..<?n])" using assms by (simp add: bits_ok_iff_nth draws_bits_def)
    moreover have "quiet order (2 * length (tx i)) (snrs ! i) (norm_draw i)" using that tx(2) [of i] by (simp add: quiet_def list_all_iff)
    ultimately have "demodulate_hard (rx i) order = map (bit_draw i) [0..<?n]" unfolding rx_def by (rule quiet_decides [OF _ tx(1)])
    then show ?thesis by (simp add: wrong_def)
  qed
  let ?r = "\<lparr>bc_order = order, bc_points = map point [0..<length snrs], bc_provenance = ''cpu_awgn_self_campaign''\<rparr>"
  have snr: "map bp_snr_db (bc_points ?r) = snrs" by (rule nth_equalityI) (simp_all add: point_def)
  have "\<exists>tx rx. let p = bc_points ?r ! i; sigma = sqrt (10 powr (- (snrs ! i) / 10) / 2) in
      modulate (map (bit_draw i) [0..<?n]) order = Inr tx \<and> length rx = length tx \<and>
      (\<forall>t<length tx. rx ! t = tx ! t + Complex (sigma * norm_draw i (2 * t)) (sigma * norm_draw i (2 * t + 1))) \<and>
      bp_bit_errors p = card {k. k < ?n \<and> demodulate_hard rx order ! k \<noteq> bit_draw i k} \<and>
      bp_bits p = ?n \<and> bp_ber p = bp_bit_errors p / ?n \<and> 0 \<le> bp_ber p \<and> bp_ber p \<le> 1 \<and>
      bp_blocks p = 1 \<and> bp_block_errors p = (if bp_bit_errors p = 0 then 0 else 1) \<and> bp_bler p = bp_block_errors p \<and>
      (quiet order ?n (snrs ! i) (norm_draw i) \<longrightarrow> bp_bit_errors p = 0)" if i: "i < length snrs" for i
  proof -
    have p: "bc_points ?r ! i = point i" using i by simp
    have f: "bp_bit_errors (point i) = wrong i" "bp_bits (point i) = ?n" "bp_ber (point i) = wrong i / ?n" "bp_blocks (point i) = 1"
      "bp_block_errors (point i) = (if wrong i = 0 then 0 else 1)" "bp_bler (point i) = real (if wrong i = 0 then 0 else 1)"
      by (simp_all add: point_def)
    have "wrong i / ?n \<le> 1" using le [of i] True by (simp add: divide_le_eq_1)
    then show ?thesis unfolding p Let_def f sigma_of_eq
      by (intro exI [of _ "tx i"] exI [of _ "rx i"]) (use tx(1) q [of i] in \<open>simp add: wrong_def [symmetric], simp add: rx_def disturbed_def\<close>)
  qed
  then show ?thesis unfolding if_P [OF True] using run snr by blast
qed (auto simp: run_ber_campaign_def)

theorem ber_campaign_points_witness:
  "\<exists>r. run_ber_campaign (\<lambda>_ _. 1) (\<lambda>_ _. 0) QPSK [0, 10] 4 = Inr r \<and> map bp_snr_db (bc_points r) = [0, 10] \<and>
    bp_bit_errors (bc_points r ! 0) = 0"
proof -
  have "draws_bits (\<lambda>_ _. 1)" by (simp add: draws_bits_def)
  moreover have "quiet QPSK 4 0 (\<lambda>_. 0)" using scale_pos [of QPSK] by (simp add: quiet_def list_all_iff)
  ultimately show ?thesis
    using ber_campaign_points [of "\<lambda>_ _. 1" 4 QPSK "\<lambda>_ _. 0" "[0, 10]"] by (fastforce simp: bits_per_symbol_def Let_def)
qed

end
