(* ===== verification/Dft.thy ===== *)
theory Dft
  imports Prelude
begin

text \<open>
  \<open>educational/src/naive_dft.cpp\<close>: the quadratic discrete Fourier transform, the reference the fast
  transform of theory \<open>Fft\<close> is compared with. The lemmas show that the two directions are inverse to
  each other for every length.
\<close>

section \<open>The code\<close>

definition naive_dft :: "complexvec \<Rightarrow> bool \<Rightarrow> complexvec" where
  "naive_dft xs invert =
     (let N = length xs; sign = (if invert then 1 else - 1 :: real);
          scale = (if invert then 1 / real N else 1)
      in map (\<lambda>k. foldl (\<lambda>sum n. let ang = sign * 2 * pi * real k * real n / real N in
                sum + xs ! n * Complex (cos ang) (sin ang)) 0 [0..<N] * complex_of_real scale) [0..<N])"

section \<open>Roots of unity\<close>

definition unit_root :: "bool \<Rightarrow> nat \<Rightarrow> complex" where
  "unit_root invert N = cis ((if invert then 2 else - 2) * pi / real N)"

lemma unit_root_power: "unit_root invert N ^ k = cis ((if invert then 2 else - 2) * pi * real k / real N)"
  by (simp add: unit_root_def DeMoivre algebra_simps)

lemma unit_root_N: "0 < N \<Longrightarrow> unit_root invert N ^ N = 1"
  by (simp add: unit_root_power complex_eq_iff)

lemma unit_root_inverse: "unit_root invert N * unit_root (\<not> invert) N = 1"
  by (simp add: unit_root_def cis_mult)

lemma unit_root_mod: "0 < N \<Longrightarrow> unit_root invert N ^ k = unit_root invert N ^ (k mod N)"
proof -
  assume "0 < N"
  have "unit_root invert N ^ k = unit_root invert N ^ (N * (k div N) + k mod N)" by simp
  also have "\<dots> = unit_root invert N ^ (k mod N)" using \<open>0 < N\<close> by (simp only: power_add power_mult unit_root_N power_one mult_1_left)
  finally show ?thesis .
qed

lemma unit_root_neq_1:
  assumes "0 < d" "d < N"
  shows "unit_root invert N ^ d \<noteq> 1"
proof
  assume eq: "unit_root invert N ^ d = 1"
  have "cos (2 * pi * real d / real N) = 1"
    using arg_cong [OF eq, of Re] by (cases invert) (simp_all add: unit_root_power)
  then obtain n :: int where n: "2 * pi * real d / real N = of_int n * 2 * pi" by (auto simp: cos_one_2pi_int)
  have "2 * pi * (real d / real N) = 2 * pi * of_int n" using n by (simp add: mult.commute)
  then have "real d / real N = of_int n" by (subst (asm) mult_cancel_left) simp
  moreover have "0 < real d / real N" "real d / real N < 1" using assms by simp_all
  ultimately have "0 < n" "n < 1" by linarith+
  then show False by simp
qed

lemma unit_root_sum:
  assumes "0 < d" "d < N"
  shows "(\<Sum>k<N. (unit_root invert N ^ d) ^ k) = 0"
proof -
  have "(unit_root invert N ^ d) ^ N = (unit_root invert N ^ N) ^ d" by (simp only: power_mult [symmetric] mult.commute)
  also have "\<dots> = 1" using assms by (simp add: unit_root_N)
  finally show ?thesis using unit_root_neq_1 [OF assms] by (simp add: geometric_sum)
qed

section \<open>The transform as a sum\<close>

lemma foldl_plus: "foldl (\<lambda>s n. s + f n) a xs = a + (\<Sum>n\<leftarrow>xs. f n)" for f :: "nat \<Rightarrow> 'a::monoid_add"
  by (induction xs arbitrary: a) (simp_all add: add.assoc)

lemma length_naive_dft [simp]: "length (naive_dft xs invert) = length xs"
  by (simp add: naive_dft_def Let_def)

lemma nth_naive_dft:
  assumes "k < length xs"
  shows "naive_dft xs invert ! k =
    (\<Sum>n<length xs. xs ! n * unit_root invert (length xs) ^ (k * n)) / (if invert then of_nat (length xs) else 1)"
proof -
  have "Complex (cos ((if invert then 1 else - 1) * 2 * pi * real k * real n / real (length xs)))
      (sin ((if invert then 1 else - 1) * 2 * pi * real k * real n / real (length xs))) =
      unit_root invert (length xs) ^ (k * n)" for n
    by (simp add: unit_root_power cis.ctr algebra_simps flip: cis.code)
  then show ?thesis using assms
    by (simp add: naive_dft_def Let_def foldl_plus sum_list_distinct_conv_sum_set atLeast0LessThan)
qed

text \<open>The transform in one direction undoes the other.\<close>

text \<open>The transform is additive, and bounded by the sum of the samples.\<close>

lemma dft_add:
  assumes "length ws = length xs" "k < length xs"
  shows "naive_dft (map2 (+) xs ws) invert ! k = naive_dft xs invert ! k + naive_dft ws invert ! k"
  using assms by (simp add: nth_naive_dft distrib_right sum.distrib add_divide_distrib)

lemma dft_bound:
  assumes "\<And>n. n < length ws \<Longrightarrow> cmod (ws ! n) \<le> b" "k < length ws"
  shows "cmod (naive_dft ws False ! k) \<le> real (length ws) * b"
proof -
  have "cmod (naive_dft ws False ! k) \<le> (\<Sum>n<length ws. cmod (ws ! n * unit_root False (length ws) ^ (k * n)))"
    using assms(2) norm_sum by (simp add: nth_naive_dft)
  also have "\<dots> \<le> (\<Sum>n<length ws. b)"
    by (rule sum_mono) (use assms(1) in \<open>simp add: norm_mult norm_power unit_root_def\<close>)
  finally show ?thesis by simp
qed

lemma dft_inverse: "naive_dft (naive_dft xs invert) (\<not> invert) = xs"
proof (rule nth_equalityI)
  let ?N = "length xs" and ?w = "unit_root invert (length xs)" and ?v = "unit_root (\<not> invert) (length xs)"
  fix m assume "m < length (naive_dft (naive_dft xs invert) (\<not> invert))"
  then have m: "m < ?N" "0 < ?N" by auto
  have orth: "(\<Sum>k<?N. ?w ^ (k * n) * ?v ^ (m * k)) = (if n = m then of_nat ?N else 0)" if n: "n < ?N" for n
  proof -
    have inv: "?w ^ (k * j) * ?v ^ (k * j) = 1" for k j
      using unit_root_inverse by (metis power_mult_distrib power_one)
    have "(\<Sum>k<?N. ?w ^ (k * n) * ?v ^ (m * k)) = (\<Sum>k<?N. (?w ^ (n - m)) ^ k * (?v ^ (m - n)) ^ k)"
    proof (rule sum.cong)
      fix k
      have "?w ^ (k * n) * ?v ^ (m * k) = (?w ^ (k * min m n) * ?v ^ (k * min m n)) * (?w ^ (k * (n - m)) * ?v ^ (k * (m - n)))"
      proof -
        have "min m n + (n - m) = n" "min m n + (m - n) = m" by simp_all
        then have "k * n = k * min m n + k * (n - m)" "m * k = k * min m n + k * (m - n)"
          by (metis distrib_left mult.commute)+
        then show ?thesis by (simp only: power_add mult.assoc mult.left_commute)
      qed
      then show "?w ^ (k * n) * ?v ^ (m * k) = (?w ^ (n - m)) ^ k * (?v ^ (m - n)) ^ k"
        by (simp only: inv power_mult [symmetric] mult.commute mult_1_left)
    qed simp
    also have "\<dots> = (if n = m then of_nat ?N else 0)"
    proof (cases n m rule: linorder_cases)
      case less
      then show ?thesis using unit_root_sum [of "m - n" ?N "\<not> invert"] m by simp
    next
      case greater
      then show ?thesis using unit_root_sum [of "n - m" ?N invert] n by simp
    qed simp
    finally show ?thesis .
  qed
  have "(\<Sum>k<?N. (\<Sum>n<?N. xs ! n * ?w ^ (k * n)) * ?v ^ (m * k)) = (\<Sum>k<?N. \<Sum>n<?N. xs ! n * (?w ^ (k * n) * ?v ^ (m * k)))"
    by (simp add: sum_distrib_right mult.assoc)
  also have "\<dots> = (\<Sum>n<?N. xs ! n * (\<Sum>k<?N. ?w ^ (k * n) * ?v ^ (m * k)))"
    by (subst sum.swap) (simp add: sum_distrib_left)
  also have "\<dots> = (\<Sum>n<?N. if n = m then xs ! n * of_nat ?N else 0)" by (rule sum.cong) (simp_all add: orth)
  also have "\<dots> = xs ! m * of_nat ?N" using m by simp
  finally show "naive_dft (naive_dft xs invert) (\<not> invert) ! m = xs ! m"
    using m by (cases invert) (simp_all add: nth_naive_dft sum_divide_distrib [symmetric])
qed simp

end
