(* ===== verification/Fft.thy ===== *)
theory Fft
  imports Dft
begin

text \<open>
  \<open>include/nr_bb/fft.hpp\<close> and \<open>src/fft.cpp\<close>: the in-place radix-2 transform. The bit-reversal
  permutation, the loop over the stage lengths, the loop over the blocks of a stage and the butterfly
  are separate definitions; the twiddle factor is accumulated by multiplication as in the code. The
  main lemma of each loop states what it does to every index, and together they show that the fast
  transform computes the quadratic one.
\<close>

section \<open>The code\<close>

definition is_power_of_two :: "nat \<Rightarrow> bool" where
  "is_power_of_two n \<longleftrightarrow> n \<noteq> 0 \<and> n AND (n - 1) = 0"

function rev_carry :: "nat \<Rightarrow> nat \<Rightarrow> nat" where
  "rev_carry j b = (if j AND b \<noteq> 0 then rev_carry (j XOR b) (drop_bit 1 b) else j XOR b)"
  by pat_completeness auto
termination
proof (relation "measure snd")
  fix j b :: nat assume "j AND b \<noteq> 0"
  then have "b \<noteq> 0" by (cases "b = 0") simp_all
  then show "((j XOR b, drop_bit 1 b), j, b) \<in> measure snd" by (simp add: drop_bit_Suc)
qed simp

declare rev_carry.simps [simp del]

definition reverse_step :: "nat \<Rightarrow> 'a list \<times> nat \<Rightarrow> nat \<Rightarrow> 'a list \<times> nat" where
  "reverse_step N st i =
     (case st of (a, j) \<Rightarrow> let j' = rev_carry j (drop_bit 1 N) in (if i < j' then swap_at i j' a else a, j'))"

definition bit_reverse :: "'a list \<Rightarrow> 'a list" where
  "bit_reverse a = fst (foldl (reverse_step (length a)) (a, 0) [1..<length a])"

definition butterfly :: "nat \<Rightarrow> nat \<Rightarrow> complex \<Rightarrow> complexvec \<times> complex \<Rightarrow> nat \<Rightarrow> complexvec \<times> complex" where
  "butterfly len i wlen st j =
     (case st of (a, w) \<Rightarrow>
        let u = a ! (i + j); v = a ! (i + j + len div 2) * w
        in (a[i + j := u + v, i + j + len div 2 := u - v], w * wlen))"

definition fft_block :: "nat \<Rightarrow> complex \<Rightarrow> complexvec \<Rightarrow> nat \<Rightarrow> complexvec" where
  "fft_block len wlen a i = fst (foldl (butterfly len i wlen) (a, 1) [0..<len div 2])"

definition twiddle :: "bool \<Rightarrow> nat \<Rightarrow> complex" where
  "twiddle invert len =
     (let ang = (if invert then 2 else - 2) * pi / real len in Complex (cos ang) (sin ang))"

definition fft_stage :: "bool \<Rightarrow> nat \<Rightarrow> complexvec \<Rightarrow> complexvec" where
  "fft_stage invert len a =
     foldl (fft_block len (twiddle invert len)) a (map (\<lambda>b. b * len) [0..<(length a + len - 1) div len])"

function fft_stages :: "bool \<Rightarrow> nat \<Rightarrow> nat \<Rightarrow> complexvec \<Rightarrow> complexvec" where
  "fft_stages invert N len a =
     (if 0 < len \<and> len \<le> N then fft_stages invert N (push_bit 1 len) (fft_stage invert len a) else a)"
  by pat_completeness auto
termination by (relation "measure (\<lambda>(_, N, len, _). Suc N - len)") (auto simp: push_bit_eq_mult)

declare fft_stages.simps [simp del]

definition fft_radix2 :: "complexvec \<Rightarrow> bool \<Rightarrow> complexvec result" where
  "fft_radix2 xs invert =
     (let N = length xs in
      and_then (require (is_power_of_two N) ''fft_radix2 requires power-of-two length'') (\<lambda>_.
      let a = fft_stages invert N 2 (bit_reverse xs)
      in Inr (if invert then map (\<lambda>z. z * complex_of_real (1 / real N)) a else a)))"

section \<open>Powers of two\<close>

lemma and_decr_double: "(2 * n + b) AND (2 * n + b - 1) = (if b = 1 then 2 * n else 2 * (n AND (n - 1)))"
  if "b < 2" "0 < 2 * n + b" for n b :: nat
proof (cases "b = 1")
  case True
  have "(2 * n + 1) AND (2 * n) = 2 * (n AND n) + (1 AND 0 :: nat)"
    by (subst and_rec) simp
  then show ?thesis using True by simp
next
  case False
  then have b: "b = 0" "0 < n" using that by simp_all
  then have "2 * n - 1 = 2 * (n - 1) + 1" by simp
  moreover have "(2 * n) AND (2 * (n - 1) + 1) = 2 * (n AND (n - 1))"
    by (subst and_rec) simp
  ultimately show ?thesis using b by simp
qed

lemma is_power_of_two_iff: "is_power_of_two n \<longleftrightarrow> (\<exists>m. n = 2 ^ m)"
proof
  show "is_power_of_two n \<Longrightarrow> \<exists>m. n = 2 ^ m"
  proof (induction n rule: less_induct)
    case (less n)
    define k b where "k = n div 2" and "b = n mod 2"
    have n: "n = 2 * k + b" "b < 2" by (simp_all add: k_def b_def)
    have pos: "0 < 2 * k + b" and zero: "(2 * k + b) AND (2 * k + b - 1) = 0"
      using less.prems n(1) by (simp_all add: is_power_of_two_def)
    from and_decr_double [OF n(2) pos] zero have z: "(if b = 1 then 2 * k else 2 * (k AND (k - 1))) = 0" by simp
    show ?case
    proof (cases "b = 1")
      case True
      with z n have "n = 2 ^ 0" by simp
      then show ?thesis by blast
    next
      case False
      with z n pos have "is_power_of_two k" "k < n" "n = 2 * k" by (simp_all add: is_power_of_two_def)
      with less.IH obtain m where "k = 2 ^ m" by blast
      then have "n = 2 ^ Suc m" using \<open>n = 2 * k\<close> by simp
      then show ?thesis by blast
    qed
  qed
  have "is_power_of_two (2 ^ m)" for m
  proof (induction m)
    case (Suc m)
    then show ?case using and_decr_double [of 0 "2 ^ m"] by (simp add: is_power_of_two_def)
  qed (simp add: is_power_of_two_def)
  then show "\<exists>m. n = 2 ^ m \<Longrightarrow> is_power_of_two n" by blast
qed

section \<open>Bit reversal\<close>

text \<open>The reversal of the low \<open>m\<close> bits.\<close>

fun bit_rev :: "nat \<Rightarrow> nat \<Rightarrow> nat" where
  "bit_rev 0 i = 0"
| "bit_rev (Suc m) i = 2 ^ m * (i mod 2) + bit_rev m (i div 2)"

lemma bit_rev_less: "bit_rev m i < 2 ^ m"
proof (induction m arbitrary: i)
  case (Suc m)
  have "2 ^ m * (i mod 2) \<le> (2::nat) ^ m * 1" by (rule mult_le_mono2) simp
  then have "2 ^ m * (i mod 2) \<le> (2::nat) ^ m" by (simp only: mult_1_right)
  then have "2 ^ m * (i mod 2) + bit_rev m (i div 2) < 2 ^ m + 2 ^ m" by (rule add_le_less_mono [OF _ Suc])
  then show ?case by (simp only: bit_rev.simps power_Suc mult_2)
qed simp

lemma bit_rev_0 [simp]: "bit_rev m 0 = 0"
  by (induction m) simp_all

lemma bit_rev_top: "i < 2 ^ Suc m \<Longrightarrow> bit_rev (Suc m) i = 2 * bit_rev m (i mod 2 ^ m) + i div 2 ^ m"
proof (induction m arbitrary: i)
  case (Suc m)
  then have "bit_rev (Suc m) (i div 2) = 2 * bit_rev m ((i div 2) mod 2 ^ m) + (i div 2) div 2 ^ m" by (intro Suc.IH) simp
  moreover have "(i div 2) mod 2 ^ m = (i mod 2 ^ Suc m) div 2" by (simp add: mod_mult2_eq)
  moreover have "(i mod 2 ^ Suc m) mod 2 = i mod 2" by (simp add: mod_mod_cancel)
  moreover have "(i div 2) div 2 ^ m = i div 2 ^ Suc m" by (simp add: div_mult2_eq)
  ultimately show ?case by (subst bit_rev.simps(2)) (simp add: mult.assoc)
qed simp

lemma bit_rev_involutive: "i < 2 ^ m \<Longrightarrow> bit_rev m (bit_rev m i) = i"
proof (induction m arbitrary: i)
  case (Suc m)
  let ?j = "bit_rev (Suc m) i"
  have r: "bit_rev m (i div 2) < 2 ^ m" by (rule bit_rev_less)
  have "bit_rev (Suc m) ?j = 2 * bit_rev m (?j mod 2 ^ m) + ?j div 2 ^ m" by (rule bit_rev_top [OF bit_rev_less])
  also have "\<dots> = 2 * bit_rev m (bit_rev m (i div 2)) + i mod 2" using r by simp
  finally show ?case using Suc by simp
qed simp

lemma top_bit:
  assumes "j < 2 ^ m"
  shows "j AND 2 ^ m = (0::nat)" "j XOR 2 ^ m = 2 ^ m + j" "(2 ^ m + j) AND 2 ^ m \<noteq> 0" "(2 ^ m + j) XOR 2 ^ m = j"
proof -
  have nb: "\<not> bit j n" if "m \<le> n" for n
  proof -
    have "j < 2 ^ n" using assms that by (meson less_le_trans one_le_numeral power_increasing)
    then show ?thesis by (simp add: bit_iff_odd)
  qed
  show z: "j AND 2 ^ m = 0" using nb [of m] by (intro bit_eqI) (auto simp: bit_simps)
  then have d: "2 ^ m AND j = 0" by (simp add: and.commute)
  from disjunctive_add_eq_xor [OF d] have e: "2 ^ m + j = 2 ^ m XOR j" .
  show "j XOR 2 ^ m = 2 ^ m + j" by (simp add: e xor.commute)
  show "(2 ^ m + j) XOR 2 ^ m = j" 
    unfolding e xor.commute [of "2 ^ m" j] by (simp only: xor.assoc xor_self_eq xor.right_neutral)
  have "bit ((2 ^ m + j) AND 2 ^ m) m" unfolding e using nb by (simp add: bit_simps)
  then show "(2 ^ m + j) AND 2 ^ m \<noteq> 0" by (metis bit_0_eq bot_apply bot_bool_def)
qed

text \<open>The inner loop is the increment of the reversed counter.\<close>

lemma rev_carry_bit_rev: "Suc i < 2 ^ m \<Longrightarrow> rev_carry (bit_rev m i) (drop_bit 1 (2 ^ m)) = bit_rev m (Suc i)"
proof (induction m arbitrary: i)
  case (Suc m)
  note top = top_bit [OF bit_rev_less [of m "i div 2"]]
  have b: "drop_bit 1 (2 ^ Suc m) = (2 ^ m :: nat)" by (simp add: drop_bit_Suc)
  show ?case
  proof (cases "even i")
    case True
    then have "Suc i mod 2 = 1" "Suc i div 2 = i div 2" "i mod 2 = 0" by presburger+
    then show ?thesis using top by (simp add: rev_carry.simps [of "bit_rev m (i div 2)"] drop_bit_Suc)
  next
    case False
    then have i: "Suc i mod 2 = 0" "Suc i div 2 = Suc (i div 2)" "i mod 2 = 1" "Suc (i div 2) < 2 ^ m"
      using Suc.prems by (presburger+, auto elim!: oddE)
    show ?thesis
      using top Suc.IH [OF i(4)] unfolding b
      by (subst rev_carry.simps) (simp add: i(1-3))
  qed
qed simp

text \<open>After the steps up to \<open>n\<close> exactly the pairs with an index below \<open>n\<close> are exchanged.\<close>

lemma reverse_loop:
  assumes "length xs = 2 ^ m" "0 < n" "n \<le> 2 ^ m" "foldl (reverse_step (2 ^ m)) (xs, 0) [1..<n] = (a, j)"
  shows "j = bit_rev m (n - 1) \<and> length a = 2 ^ m \<and>
    (\<forall>x<2 ^ m. a ! x = (if x < n \<or> bit_rev m x < n then xs ! bit_rev m x else xs ! x))"
  using assms(2-4)
proof (induction n arbitrary: a j rule: nat_induct_non_zero)
  case 1
  then have "a = xs" "j = 0" by simp_all
  moreover have "bit_rev m x < 1 \<longleftrightarrow> x = 0" if "x < 2 ^ m" for x using bit_rev_involutive [OF that] by auto
  ultimately show ?case using assms(1) by auto
next
  case (Suc n)
  obtain a' j' where st: "foldl (reverse_step (2 ^ m)) (xs, 0) [1..<n] = (a', j')" by fastforce
  with Suc.IH [OF _ st] Suc.prems
  have j': "j' = bit_rev m (n - 1)" and len: "length a' = 2 ^ m"
    and a': "\<And>x. x < 2 ^ m \<Longrightarrow> a' ! x = (if x < n \<or> bit_rev m x < n then xs ! bit_rev m x else xs ! x)" by simp_all
  let ?j = "bit_rev m n"
  have rc: "rev_carry j' (drop_bit 1 (2 ^ m)) = ?j" using rev_carry_bit_rev [of "n - 1" m] Suc j' by simp
  have "foldl (reverse_step (2 ^ m)) (xs, 0) [1..<Suc n] = reverse_step (2 ^ m) (a', j') n"
    using st Suc.hyps by simp
  also have "\<dots> = (if n < ?j then swap_at n ?j a' else a', ?j)" by (simp only: reverse_step_def Let_def rc prod.case)
  finally have a: "a = (if n < ?j then swap_at n ?j a' else a')" and j: "j = ?j"
    unfolding Suc.prems(2) prod.inject by blast+
  have n: "n < 2 ^ m" "?j < 2 ^ m" "bit_rev m ?j = n" using Suc.prems by (simp_all add: bit_rev_less bit_rev_involutive)
  have "a ! x = (if x < Suc n \<or> bit_rev m x < Suc n then xs ! bit_rev m x else xs ! x)" if x: "x < 2 ^ m" for x
  proof -
    have inv: "bit_rev m (bit_rev m x) = x" by (rule bit_rev_involutive [OF x])
    then have same: "bit_rev m x = n \<longleftrightarrow> x = ?j" using n(3) by auto
    consider "x = n" | "x = ?j" "x \<noteq> n" | "x \<noteq> n" "x \<noteq> ?j" by blast
    then show ?thesis
    proof cases
      case 1
      then show ?thesis using a a' [OF n(1)] a' [OF n(2)] n len by (auto simp: nth_swap_at)
    next
      case 2
      then show ?thesis using a a' [OF n(1)] a' [OF n(2)] n len by (auto simp: nth_swap_at)
    next
      case 3
      then have "bit_rev m x \<noteq> n" using same by simp
      then show ?thesis using 3 a a' [OF x] n len x by (auto simp: nth_swap_at less_Suc_eq)
    qed
  qed
  then show ?case using a j len by simp
qed

lemma bit_reverse_eq:
  assumes "length xs = 2 ^ m"
  shows "bit_reverse xs = map (\<lambda>x. xs ! bit_rev m x) [0..<2 ^ m]"
proof -
  obtain a j where st: "foldl (reverse_step (2 ^ m)) (xs, 0) [1..<2 ^ m] = (a, j)" by fastforce
  from reverse_loop [OF assms _ _ st] have "length a = 2 ^ m" "\<And>x. x < 2 ^ m \<Longrightarrow> a ! x = xs ! bit_rev m x" by simp_all
  then show ?thesis unfolding bit_reverse_def assms st by (intro nth_equalityI) simp_all
qed

section \<open>The butterflies\<close>

lemma butterfly_loop:
  assumes "i + len \<le> length a" "len = 2 * h" "J \<le> h" "foldl (butterfly len i wlen) (a, 1) [0..<J] = (a', w)"
  shows "w = wlen ^ J \<and> length a' = length a \<and> (\<forall>x<length a. a' ! x =
    (if i \<le> x \<and> x < i + J then a ! x + a ! (x + h) * wlen ^ (x - i)
     else if i + h \<le> x \<and> x < i + h + J then a ! (x - h) - a ! x * wlen ^ (x - (i + h)) else a ! x))"
  using assms(3,4)
proof (induction J arbitrary: a' w)
  case (Suc J)
  obtain b v where st: "foldl (butterfly len i wlen) (a, 1) [0..<J] = (b, v)" by fastforce
  from Suc.IH [OF _ st] Suc.prems(1) have v: "v = wlen ^ J" and len: "length b = length a"
    and b: "\<And>x. x < length a \<Longrightarrow> b ! x =
      (if i \<le> x \<and> x < i + J then a ! x + a ! (x + h) * wlen ^ (x - i)
       else if i + h \<le> x \<and> x < i + h + J then a ! (x - h) - a ! x * wlen ^ (x - (i + h)) else a ! x)" by simp_all
  have p: "i + J < length a" "i + J + h < length a" using assms(1,2) Suc.prems(1) by simp_all
  have bJ: "b ! (i + J) = a ! (i + J)" "b ! (i + J + h) = a ! (i + J + h)"
    using b [OF p(1)] b [OF p(2)] Suc.prems(1) by simp_all
  have a': "a' = b[i + J := a ! (i + J) + a ! (i + J + h) * wlen ^ J, i + J + h := a ! (i + J) - a ! (i + J + h) * wlen ^ J]"
    and w: "w = wlen ^ Suc J"
  proof -
    have "foldl (butterfly len i wlen) (a, 1) [0..<Suc J] = butterfly len i wlen (b, v) J" using st by simp
    also have "\<dots> = (b[i + J := a ! (i + J) + a ! (i + J + h) * wlen ^ J, i + J + h := a ! (i + J) - a ! (i + J + h) * wlen ^ J], wlen ^ Suc J)"
      using bJ v assms(2) by (simp add: butterfly_def Let_def)
    finally show "a' = b[i + J := a ! (i + J) + a ! (i + J + h) * wlen ^ J, i + J + h := a ! (i + J) - a ! (i + J + h) * wlen ^ J]"
      "w = wlen ^ Suc J" unfolding Suc.prems(2) prod.inject by blast+
  qed
  have "a' ! x =
      (if i \<le> x \<and> x < i + Suc J then a ! x + a ! (x + h) * wlen ^ (x - i)
       else if i + h \<le> x \<and> x < i + h + Suc J then a ! (x - h) - a ! x * wlen ^ (x - (i + h)) else a ! x)"
    if x: "x < length a" for x
  proof -
    consider "x = i + J + h" | "x = i + J" "x \<noteq> i + J + h" | "x \<noteq> i + J" "x \<noteq> i + J + h" by blast
    then show ?thesis
      using Suc.prems(1) p len x b [OF x] by cases (auto simp: a' nth_list_update)
  qed
  then show ?case using w len a' by simp
qed auto

lemma fft_block_nth:
  assumes "i + len \<le> length a" "len = 2 * h"
  shows "length (fft_block len wlen a i) = length a"
    and "x < length a \<Longrightarrow> fft_block len wlen a i ! x =
      (if i \<le> x \<and> x < i + h then a ! x + a ! (x + h) * wlen ^ (x - i)
       else if i + h \<le> x \<and> x < i + len then a ! (x - h) - a ! x * wlen ^ (x - (i + h)) else a ! x)"
proof -
  obtain a' w where st: "foldl (butterfly len i wlen) (a, 1) [0..<h] = (a', w)" by fastforce
  from butterfly_loop [OF assms order_refl st] show "length (fft_block len wlen a i) = length a"
    and "x < length a \<Longrightarrow> fft_block len wlen a i ! x =
      (if i \<le> x \<and> x < i + h then a ! x + a ! (x + h) * wlen ^ (x - i)
       else if i + h \<le> x \<and> x < i + len then a ! (x - h) - a ! x * wlen ^ (x - (i + h)) else a ! x)"
    using assms(2) st by (simp_all add: fft_block_def)
qed

text \<open>One stage: every block is combined from its two halves.\<close>

definition combined :: "complexvec \<Rightarrow> nat \<Rightarrow> nat \<Rightarrow> complex \<Rightarrow> complexvec \<Rightarrow> nat \<Rightarrow> bool" where
  "combined a len h w a' b \<longleftrightarrow> (\<forall>t<h.
     a' ! (b * len + t) = a ! (b * len + t) + a ! (b * len + h + t) * w ^ t \<and>
     a' ! (b * len + h + t) = a ! (b * len + t) - a ! (b * len + h + t) * w ^ t)"

lemma stage_loop:
  assumes "length a = B * len" "len = 2 * h" "C \<le> B"
  shows "let a' = foldl (fft_block len w) a (map (\<lambda>b. b * len) [0..<C]) in
    length a' = length a \<and> (\<forall>b<C. combined a len h w a' b) \<and> (\<forall>x. C * len \<le> x \<and> x < length a \<longrightarrow> a' ! x = a ! x)"
  using assms(3)
proof (induction C)
  case (Suc C)
  define c where "c = foldl (fft_block len w) a (map (\<lambda>b. b * len) [0..<C])"
  define d where "d = fft_block len w c (C * len)"
  from Suc have len: "length c = length a" and past: "\<And>b. b < C \<Longrightarrow> combined a len h w c b"
    and rest: "\<And>x. C * len \<le> x \<Longrightarrow> x < length a \<Longrightarrow> c ! x = a ! x" by (simp_all add: c_def Let_def)
  have "Suc C * len \<le> B * len" using Suc.prems by (rule mult_le_mono1)
  then have fit: "C * len + len \<le> length c" using assms(1) len by simp
  have ld: "length d = length a" unfolding d_def using fft_block_nth(1) [OF fit assms(2)] len by simp
  have dx: "d ! x = (if C * len \<le> x \<and> x < C * len + h then c ! x + c ! (x + h) * w ^ (x - C * len)
       else if C * len + h \<le> x \<and> x < C * len + len then c ! (x - h) - c ! x * w ^ (x - (C * len + h)) else c ! x)"
    if "x < length a" for x
    unfolding d_def using fft_block_nth(2) [OF fit assms(2)] that len by simp
  have "combined a len h w d b" if b: "b < Suc C" for b
  proof (cases "b = C")
    case True
    have "c ! (C * len + t) = a ! (C * len + t)" "c ! (C * len + h + t) = a ! (C * len + h + t)" if "t < h" for t
      using rest that fit len assms(2) by simp_all
    then show ?thesis using fit len assms(2) dx by (auto simp: combined_def True add.commute add.left_commute)
  next
    case False
    then have "b < C" using b by simp
    then have "Suc b * len \<le> C * len" by (intro mult_le_mono1) simp
    then have low: "b * len + len \<le> C * len" by simp
    have "d ! x = c ! x" if "x < b * len + len" for x using dx [of x] that low fit len by auto
    moreover have "b * len + t < b * len + len" "b * len + h + t < b * len + len" if "t < h" for t
      using that assms(2) by simp_all
    ultimately show ?thesis using past [OF \<open>b < C\<close>] by (simp add: combined_def)
  qed
  moreover have "d ! x = a ! x" if "Suc C * len \<le> x" "x < length a" for x
    using dx [OF that(2)] rest [of x] that assms(2) by auto
  ultimately show ?case using ld by (simp add: Let_def c_def d_def)
qed simp

lemma twiddle_unit_root: "twiddle invert len = unit_root invert len"
  by (simp add: twiddle_def unit_root_def cis.ctr Let_def complex_eq_iff)

lemma fft_stage_combined:
  assumes "length a = B * len" "len = 2 * h" "0 < h"
  shows "length (fft_stage invert len a) = length a"
    and "b < B \<Longrightarrow> combined a len h (unit_root invert len) (fft_stage invert len a) b"
proof -
  have "length a + len - 1 = (len - 1) + B * len" using assms by simp
  then have "(length a + len - 1) div len = B + (len - 1) div len" using assms(2,3) by (simp only: div_mult_self1 mult_pos_pos zero_less_numeral neq0_conv)
  then have "(length a + len - 1) div len = B" using assms(2,3) by simp
  then have "fft_stage invert len a = foldl (fft_block len (unit_root invert len)) a (map (\<lambda>b. b * len) [0..<B])"
    by (simp add: fft_stage_def twiddle_unit_root)
  with stage_loop [OF assms(1,2) order_refl, of "unit_root invert len"]
  show "length (fft_stage invert len a) = length a"
    "b < B \<Longrightarrow> combined a len h (unit_root invert len) (fft_stage invert len a) b" by (simp_all add: Let_def)
qed

section \<open>The decimated transforms\<close>

text \<open>Block \<open>b\<close> after \<open>s\<close> stages is the transform of the samples of the input that lie \<open>2 ^ (m - s)\<close>
  apart, from the bit-reversed block number on.\<close>

definition sub_dft :: "complexvec \<Rightarrow> bool \<Rightarrow> nat \<Rightarrow> nat \<Rightarrow> nat \<Rightarrow> nat \<Rightarrow> complex" where
  "sub_dft xs invert q s b k =
     (\<Sum>n<2 ^ s. xs ! (bit_rev q b + 2 ^ q * n) * unit_root invert (2 ^ s) ^ (k * n))"

lemma sum_even_odd: "(\<Sum>n<2 * h. f n) = (\<Sum>n<h. f (2 * n)) + (\<Sum>n<h. f (2 * n + 1))" for f :: "nat \<Rightarrow> 'a::comm_monoid_add"
  by (induction h) (simp_all add: algebra_simps)

lemma unit_root_square: "0 < h \<Longrightarrow> unit_root invert (2 * h) ^ 2 = unit_root invert h"
  by (simp add: unit_root_def power2_eq_square cis_mult field_simps)

lemma unit_root_half: "0 < h \<Longrightarrow> unit_root invert (2 * h) ^ h = - 1"
  by (simp add: unit_root_power complex_eq_iff)

lemma sub_dft_combine:
  assumes "t < 2 ^ s"
  shows "sub_dft xs invert q (Suc s) b t =
      sub_dft xs invert (Suc q) s (2 * b) t + sub_dft xs invert (Suc q) s (2 * b + 1) t * unit_root invert (2 ^ Suc s) ^ t"
    and "sub_dft xs invert q (Suc s) b (2 ^ s + t) =
      sub_dft xs invert (Suc q) s (2 * b) t - sub_dft xs invert (Suc q) s (2 * b + 1) t * unit_root invert (2 ^ Suc s) ^ t"
proof -
  let ?h = "2 ^ s :: nat" and ?W = "unit_root invert (2 ^ Suc s)" and ?w = "unit_root invert (2 ^ s)"
  have even: "?W ^ (k * (2 * n)) = ?w ^ (k * n)" for k n
  proof -
    have "?W ^ (k * (2 * n)) = (?W ^ 2) ^ (k * n)" by (simp only: power_mult [symmetric] mult.left_commute)
    then show ?thesis using unit_root_square [of ?h invert] by simp
  qed
  have odd: "?W ^ (k * (2 * n + 1)) = ?w ^ (k * n) * ?W ^ k" for k n
    by (simp only: distrib_left power_add even mult_1_right)
  have br: "bit_rev (Suc q) (2 * b) + 2 ^ Suc q * n = bit_rev q b + 2 ^ q * (2 * n)"
    "bit_rev (Suc q) (2 * b + 1) + 2 ^ Suc q * n = bit_rev q b + 2 ^ q * (2 * n + 1)" for n
    by simp_all
  have split: "sub_dft xs invert q (Suc s) b k =
      sub_dft xs invert (Suc q) s (2 * b) k + sub_dft xs invert (Suc q) s (2 * b + 1) k * ?W ^ k" for k
    unfolding sub_dft_def br power_Suc sum_even_odd
    unfolding power_Suc [symmetric] even odd sum_distrib_right by (simp only: br mult.assoc)
  show "sub_dft xs invert q (Suc s) b t =
      sub_dft xs invert (Suc q) s (2 * b) t + sub_dft xs invert (Suc q) s (2 * b + 1) t * ?W ^ t" by (rule split)
  have per: "sub_dft xs invert q' s b' (?h + t) = sub_dft xs invert q' s b' t" for q' b'
    unfolding sub_dft_def
    by (rule sum.cong) (simp_all add: distrib_right power_add power_mult unit_root_N)
  have "?W ^ (?h + t) = - (?W ^ t)" using unit_root_half [of ?h invert] by (simp add: power_add)
  then show "sub_dft xs invert q (Suc s) b (2 ^ s + t) =
      sub_dft xs invert (Suc q) s (2 * b) t - sub_dft xs invert (Suc q) s (2 * b + 1) t * ?W ^ t"
    unfolding split per by simp
qed

lemma fft_stage_sub_dft:
  assumes "length a = 2 ^ (Suc q + s)" "\<And>b k. b < 2 ^ Suc q \<Longrightarrow> k < 2 ^ s \<Longrightarrow> a ! (b * 2 ^ s + k) = sub_dft xs invert (Suc q) s b k"
    and "b < 2 ^ q" "k < 2 ^ Suc s"
  shows "fft_stage invert (2 ^ Suc s) a ! (b * 2 ^ Suc s + k) = sub_dft xs invert q (Suc s) b k"
proof -
  have len: "length a = 2 ^ q * 2 ^ Suc s" using assms(1) by (simp add: power_add)
  have comb: "combined a (2 ^ Suc s) (2 ^ s) (unit_root invert (2 ^ Suc s)) (fft_stage invert (2 ^ Suc s) a) b"
    using fft_stage_combined(2) [OF len, of "2 ^ s"] assms(3) by simp
  have half: "a ! (b * 2 ^ Suc s + t) = sub_dft xs invert (Suc q) s (2 * b) t"
    "a ! (b * 2 ^ Suc s + 2 ^ s + t) = sub_dft xs invert (Suc q) s (2 * b + 1) t" if "t < 2 ^ s" for t
    using assms(2) [of "2 * b" t] assms(2) [of "2 * b + 1" t] assms(3) that by (simp_all add: algebra_simps)
  show ?thesis
  proof (cases "k < 2 ^ s")
    case True
    then show ?thesis using comb half [OF True] sub_dft_combine(1) [OF True] by (simp add: combined_def)
  next
    case False
    then have t: "k - 2 ^ s < 2 ^ s" "k = 2 ^ s + (k - 2 ^ s)" using assms(4) by simp_all
    then have k: "b * 2 ^ Suc s + k = b * 2 ^ Suc s + 2 ^ s + (k - 2 ^ s)" by (simp only: add.assoc)
    have "sub_dft xs invert q (Suc s) b k =
        sub_dft xs invert (Suc q) s (2 * b) (k - 2 ^ s) -
        sub_dft xs invert (Suc q) s (2 * b + 1) (k - 2 ^ s) * unit_root invert (2 ^ Suc s) ^ (k - 2 ^ s)"
      using sub_dft_combine(2) [OF t(1), of xs invert q b] t(2) by simp
    then show ?thesis
      unfolding k using comb half [OF t(1)] t(1) by (auto simp only: combined_def)
  qed
qed

lemma fft_stages_sub_dft:
  assumes "length a = 2 ^ (q + s)" "\<And>b k. b < 2 ^ q \<Longrightarrow> k < 2 ^ s \<Longrightarrow> a ! (b * 2 ^ s + k) = sub_dft xs invert q s b k"
  shows "length (fft_stages invert (2 ^ (q + s)) (2 ^ Suc s) a) = 2 ^ (q + s) \<and>
    (\<forall>k<2 ^ (q + s). fft_stages invert (2 ^ (q + s)) (2 ^ Suc s) a ! k = sub_dft xs invert 0 (q + s) 0 k)"
  using assms
proof (induction q arbitrary: s a)
  case 0
  then show ?case using 0(2) [of 0] by (subst (1 2) fft_stages.simps) simp
next
  case (Suc q)
  have "length a = 2 ^ q * 2 ^ Suc s" using Suc.prems(1) by (simp add: power_add)
  from fft_stage_combined(1) [OF this, of "2 ^ s"] have "length (fft_stage invert (2 ^ Suc s) a) = 2 ^ (q + Suc s)"
    using Suc.prems(1) by simp
  from Suc.IH [OF this fft_stage_sub_dft [OF Suc.prems]] show ?case
    by (subst (1 2) fft_stages.simps) (simp add: push_bit_eq_mult)
qed

lemma fft_radix2_eq:
  assumes "length xs = 2 ^ m"
  shows "fft_radix2 xs invert = Inr (naive_dft xs invert)"
proof -
  let ?a = "fft_stages invert (2 ^ m) 2 (bit_reverse xs)"
  have "bit_reverse xs ! (b * 2 ^ 0 + k) = sub_dft xs invert m 0 b k" if "b < 2 ^ m" "k < 2 ^ 0" for b k
    using that by (simp add: bit_reverse_eq [OF assms] sub_dft_def)
  from fft_stages_sub_dft [OF _ this] have "length ?a = 2 ^ m" "\<And>k. k < 2 ^ m \<Longrightarrow> ?a ! k = sub_dft xs invert 0 m 0 k"
    by (simp_all add: bit_reverse_eq [OF assms])
  then have "(if invert then map (\<lambda>z. z * complex_of_real (1 / real (2 ^ m))) ?a else ?a) = naive_dft xs invert"
    by (intro nth_equalityI) (auto simp: nth_naive_dft assms sub_dft_def)
  moreover have "is_power_of_two (2 ^ m)" by (auto simp: is_power_of_two_iff)
  ultimately show ?thesis by (simp add: fft_radix2_def assms Let_def)
qed

section \<open>Properties\<close>

text \<open>C9: the fast transform is the quadratic one: \<open>fft_radix2\<close> returns exactly what \<open>naive_dft\<close> returns,
  in both directions, on every input whose length is a power of two, and throws on every other one.\<close>

theorem fft_equals_dft:
  "fft_radix2 xs invert =
    (if \<exists>m. length xs = 2 ^ m then Inr (naive_dft xs invert)
     else Inl (Error ''fft_radix2 requires power-of-two length''))"
proof (cases "\<exists>m. length xs = 2 ^ m")
  case True
  then show ?thesis using fft_radix2_eq by auto
qed (simp add: fft_radix2_def is_power_of_two_iff)

text \<open>Transforming forth and back returns the input.\<close>

theorem fft_roundtrip:
  assumes "fft_radix2 xs invert = Inr ys"
  shows "fft_radix2 ys (\<not> invert) = Inr xs"
proof -
  from assms obtain m where m: "length xs = 2 ^ m"
    by (auto simp: fft_radix2_def is_power_of_two_iff Let_def split: if_splits)
  with assms have "ys = naive_dft xs invert" by (simp add: fft_radix2_eq)
  then show ?thesis using m by (simp add: fft_radix2_eq dft_inverse)
qed

theorem fft_roundtrip_witness: "\<exists>ys. fft_radix2 [1, 2, \<i>, 0] False = Inr ys \<and> fft_radix2 ys True = Inr [1, 2, \<i>, 0]"
proof -
  have "fft_radix2 [1, 2, \<i>, 0] False = Inr (naive_dft [1, 2, \<i>, 0] False)" by (rule fft_radix2_eq [of _ 2]) simp
  then show ?thesis using fft_roundtrip by fastforce
qed

end
