(* ===== verification/Ofdm.thy ===== *)
theory Ofdm
  imports Fft
begin

text \<open>
  \<open>include/nr_bb/ofdm.hpp\<close> and \<open>src/ofdm.cpp\<close>: OFDM symbols with a cyclic prefix over the radix-2
  transform. A prefix longer than the symbol makes the C++ code form an iterator before the start of
  the vector, which is the branch \<open>Undefined\<close>.
\<close>

section \<open>The code\<close>

record ofdm_config =
  of_fft :: nat
  of_cp :: nat

definition default_ofdm :: ofdm_config where
  "default_ofdm = \<lparr>of_fft = 64, of_cp = 8\<rparr>"

definition ofdm_modulate :: "complexvec \<Rightarrow> ofdm_config \<Rightarrow> complexvec result" where
  "ofdm_modulate freq cfg =
     and_then (require (length freq = of_fft cfg) ''freq_symbols size must equal fft_size'') (\<lambda>_.
     and_then (require (is_power_of_two (of_fft cfg)) ''fft_size must be power of two'') (\<lambda>_.
     and_then (fft_radix2 freq True) (\<lambda>tm.
     if of_cp cfg \<le> length tm then Inr (drop (length tm - of_cp cfg) tm @ tm)
     else Inl (Undefined ''iterator before the start of the symbol''))))"

definition ofdm_demodulate :: "complexvec \<Rightarrow> ofdm_config \<Rightarrow> complexvec result" where
  "ofdm_demodulate tsig cfg =
     and_then (require (length tsig = of_cp cfg + of_fft cfg) ''time signal length mismatch'') (\<lambda>_.
     and_then (require (is_power_of_two (of_fft cfg)) ''fft_size must be power of two'') (\<lambda>_.
     fft_radix2 (drop (of_cp cfg) tsig) False))"

section \<open>Lemmas\<close>

lemma ofdm_modulate_Inr:
  assumes "length freq = 2 ^ m" "of_fft cfg = 2 ^ m" "of_cp cfg \<le> 2 ^ m"
  shows "ofdm_modulate freq cfg =
    Inr (drop (2 ^ m - of_cp cfg) (naive_dft freq True) @ naive_dft freq True)"
proof -
  have "is_power_of_two (2 ^ m)" by (auto simp: is_power_of_two_iff)
  then show ?thesis using assms by (simp add: ofdm_modulate_def fft_radix2_eq)
qed

lemma ofdm_demodulate_Inr:
  assumes "length tsig = of_cp cfg + 2 ^ m" "of_fft cfg = 2 ^ m"
  shows "ofdm_demodulate tsig cfg = Inr (naive_dft (drop (of_cp cfg) tsig) False)"
proof -
  have "is_power_of_two (2 ^ m)" by (auto simp: is_power_of_two_iff)
  then show ?thesis using assms by (simp add: ofdm_demodulate_def fft_radix2_eq)
qed

text \<open>No check keeps the prefix within the symbol.\<close>

lemma ofdm_long_prefix:
  assumes "length freq = 2 ^ m" "of_fft cfg = 2 ^ m" "2 ^ m < of_cp cfg"
  shows "ofdm_modulate freq cfg = Inl (Undefined ''iterator before the start of the symbol'')"
proof -
  have "is_power_of_two (2 ^ m)" by (auto simp: is_power_of_two_iff)
  then show ?thesis using assms by (simp add: ofdm_modulate_def fft_radix2_eq)
qed

text \<open>The transform of a rotated block is the transform with a linear phase.\<close>

lemma dft_rotate:
  assumes "length ys = length xs" "\<And>n. n < length xs \<Longrightarrow> ys ! n = xs ! ((n + (length xs - d)) mod length xs)"
    and "d \<le> length xs" "k < length xs"
  shows "naive_dft ys False ! k = unit_root False (length xs) ^ (k * d) * naive_dft xs False ! k"
proof -
  let ?N = "length xs" and ?w = "unit_root False (length xs)"
  have N: "0 < ?N" using assms(4) by linarith
  have bij: "bij_betw (\<lambda>n. (n + (?N - d)) mod ?N) {..<?N} {..<?N}"
  proof (rule bij_betw_byWitness [where f' = "\<lambda>n. (n + d) mod ?N"])
    have "(n + (?N - d) + d) mod ?N = n" "(n + d + (?N - d)) mod ?N = n" if "n < ?N" for n
      using that assms(3) by simp_all
    then show "\<forall>n\<in>{..<?N}. ((n + (?N - d)) mod ?N + d) mod ?N = n"
      "\<forall>n\<in>{..<?N}. ((n + d) mod ?N + (?N - d)) mod ?N = n" by (simp_all add: mod_add_left_eq)
  qed (use N in auto)
  have phase: "?w ^ (k * d) * ?w ^ (k * ((n + (?N - d)) mod ?N)) = ?w ^ (k * n)" if "n < ?N" for n
  proof -
    have "?w ^ (k * d) * ?w ^ (k * ((n + (?N - d)) mod ?N)) = (?w ^ d * ?w ^ ((n + (?N - d)) mod ?N)) ^ k"
      by (simp only: power_mult_distrib power_mult [symmetric] mult.commute)
    also have "?w ^ d * ?w ^ ((n + (?N - d)) mod ?N) = ?w ^ (d + (n + (?N - d)))"
      unfolding unit_root_mod [OF N, of _ "n + (?N - d)", symmetric] by (simp only: power_add)
    also have "d + (n + (?N - d)) = n + ?N" using assms(3) by simp
    also have "?w ^ (n + ?N) = ?w ^ n" using N by (simp add: power_add unit_root_N)
    finally show ?thesis by (simp only: power_mult [symmetric] mult.commute)
  qed
  have "(\<Sum>n<?N. ys ! n * ?w ^ (k * n)) =
      (\<Sum>n<?N. ?w ^ (k * d) * (xs ! ((n + (?N - d)) mod ?N) * ?w ^ (k * ((n + (?N - d)) mod ?N))))"
    by (rule sum.cong) (simp_all add: assms(2) phase [symmetric] mult.left_commute)
  also have "\<dots> = ?w ^ (k * d) * (\<Sum>n<?N. xs ! n * ?w ^ (k * n))"
    unfolding sum_distrib_left [symmetric] using sum.reindex_bij_betw [OF bij, of "\<lambda>n. xs ! n * ?w ^ (k * n)"] by simp
  finally show ?thesis using assms(1,4) by (simp add: nth_naive_dft)
qed

text \<open>With a cyclic prefix, a window that starts \<open>d\<close> samples early is a rotation of the symbol.\<close>

lemma prefix_rotates:
  assumes "cp \<le> length tm" "d \<le> cp" "length before = d" "n < length tm"
  defines "sig \<equiv> drop (length tm - cp) tm @ tm"
  shows "drop cp (take (length sig) (before @ sig)) ! n = tm ! ((n + (length tm - d)) mod length tm)"
proof -
  let ?N = "length tm"
  have "length sig = cp + ?N" using assms(1) by (simp add: sig_def)
  then have "drop cp (take (length sig) (before @ sig)) ! n = sig ! (cp + n - d)" using assms(2-4) by (simp add: nth_append)
  moreover have "sig ! (cp + n - d) = tm ! ((n + (?N - d)) mod ?N)"
  proof (cases "n < d")
    case True
    then have "sig ! (cp + n - d) = tm ! (?N - cp + (cp + n - d))" using assms by (simp add: nth_append)
    moreover have "?N - cp + (cp + n - d) = (n + (?N - d)) mod ?N" using True assms(1,2) by simp
    ultimately show ?thesis by simp
  next
    case False
    then have "sig ! (cp + n - d) = tm ! (n - d)" using assms by (simp add: nth_append)
    moreover have "n + (?N - d) = (n - d) + ?N" using False assms(1,2) by simp
    then have "(n + (?N - d)) mod ?N = (n - d) mod ?N" by (simp only: mod_add_self2)
    then have "(n + (?N - d)) mod ?N = n - d" using assms(4) by simp
    ultimately show ?thesis by simp
  qed
  ultimately show ?thesis by simp
qed

lemma ofdm_shift:
  assumes "ofdm_modulate freq cfg = Inr sig" "d \<le> of_cp cfg" "length before = d"
  shows "ofdm_demodulate (take (length sig) (before @ sig)) cfg =
    Inr (map (\<lambda>k. unit_root False (of_fft cfg) ^ (k * d) * freq ! k) [0..<of_fft cfg])"
proof -
  let ?cp = "of_cp cfg"
  from assms(1) obtain m where len: "length freq = 2 ^ m" and N: "of_fft cfg = 2 ^ m"
    by (auto simp: ofdm_modulate_def is_power_of_two_iff split: if_splits)
  define tm where "tm = naive_dft freq True"
  have lt: "length tm = 2 ^ m" using len by (simp add: tm_def)
  have cp: "?cp \<le> 2 ^ m"
  proof (rule ccontr)
    assume "\<not> ?cp \<le> 2 ^ m"
    then show False using assms(1) N len by (auto simp: ofdm_modulate_def fft_radix2_eq split: if_splits)
  qed
  then have sig: "sig = drop (2 ^ m - ?cp) tm @ tm" using ofdm_modulate_Inr [OF len N] assms(1) by (simp add: tm_def)
  let ?ys = "drop ?cp (take (length sig) (before @ sig))"
  have ls: "length sig = ?cp + 2 ^ m" using cp lt by (simp add: sig)
  have ys: "?ys ! n = tm ! ((n + (length tm - d)) mod length tm)" if "n < length tm" for n
    using prefix_rotates [where tm = tm and cp = ?cp and d = d and before = before and n = n] that assms(2,3) cp lt by (simp add: sig)
  have ly: "length ?ys = length tm" using ls lt assms(3) by simp
  have "naive_dft ?ys False ! k = unit_root False (2 ^ m) ^ (k * d) * freq ! k" if k: "k < 2 ^ m" for k
    using dft_rotate [OF ly ys, of k] assms(2) cp k lt dft_inverse [of freq True] by (simp add: tm_def len)
  then have "naive_dft ?ys False = map (\<lambda>k. unit_root False (2 ^ m) ^ (k * d) * freq ! k) [0..<2 ^ m]"
    using ly lt by (intro nth_equalityI) simp_all
  moreover have "length (take (length sig) (before @ sig)) = ?cp + 2 ^ m" using ls assms(3) by simp
  ultimately show ?thesis by (simp only: ofdm_demodulate_Inr [OF _ N] N)
qed

text \<open>Noise on the window adds its transform to the subcarriers.\<close>

lemma ofdm_shift_noise:
  assumes "ofdm_modulate freq cfg = Inr sig" "d \<le> of_cp cfg" "length before = d" "length noise = length sig"
  shows "ofdm_demodulate (map2 (+) (take (length sig) (before @ sig)) noise) cfg =
    Inr (map (\<lambda>k. unit_root False (of_fft cfg) ^ (k * d) * freq ! k + naive_dft (drop (of_cp cfg) noise) False ! k) [0..<of_fft cfg])"
proof -
  let ?cp = "of_cp cfg" and ?clean = "take (length sig) (before @ sig)"
  from assms(1) obtain m where len: "length freq = 2 ^ m" and N: "of_fft cfg = 2 ^ m"
    by (auto simp: ofdm_modulate_def is_power_of_two_iff split: if_splits)
  then have ls: "length sig = ?cp + 2 ^ m" using assms(1) by (auto simp: ofdm_modulate_def fft_radix2_eq split: if_splits)
  define u where "u = drop ?cp ?clean"
  define w where "w = drop ?cp noise"
  have l: "length u = 2 ^ m" "length w = 2 ^ m" "length ?clean = ?cp + 2 ^ m" using ls assms(3,4) by (simp_all add: u_def w_def)
  have "ofdm_demodulate ?clean cfg = Inr (naive_dft u False)" unfolding u_def by (rule ofdm_demodulate_Inr [OF l(3) N])
  then have u: "naive_dft u False = map (\<lambda>k. unit_root False (2 ^ m) ^ (k * d) * freq ! k) [0..<2 ^ m]"
    using ofdm_shift [OF assms(1-3)] N by simp
  have "length (map2 (+) ?clean noise) = ?cp + 2 ^ m" using ls l(3) assms(4) by simp
  then have "ofdm_demodulate (map2 (+) ?clean noise) cfg = Inr (naive_dft (drop ?cp (map2 (+) ?clean noise)) False)"
    by (rule ofdm_demodulate_Inr [OF _ N])
  also have "drop ?cp (map2 (+) ?clean noise) = map2 (+) u w" by (simp only: u_def w_def drop_map drop_zip)
  also have "naive_dft (map2 (+) u w) False = map (\<lambda>k. unit_root False (2 ^ m) ^ (k * d) * freq ! k + naive_dft w False ! k) [0..<2 ^ m]"
    by (rule nth_equalityI) (simp_all add: l dft_add u)
  finally show ?thesis by (simp only: N w_def)
qed

section \<open>Properties\<close>

text \<open>The cyclic prefix absorbs a delay: if the receiver window of an OFDM symbol starts up to
  \<open>cp_len\<close> samples early (a channel delay of \<open>d\<close> samples, whatever \<open>before\<close> carries), the demodulator
  returns the sent subcarriers up to the phase of the delay, a \<open>k * d\<close>-th power of the root of unity
  on subcarrier \<open>k\<close>. With no delay it returns the sent subcarriers.\<close>

theorem ofdm_delay:
  assumes "ofdm_modulate freq cfg = Inr sig" "d \<le> of_cp cfg" "length before = d"
  shows "ofdm_demodulate (take (length sig) (before @ sig)) cfg =
    Inr (map (\<lambda>k. unit_root False (of_fft cfg) ^ (k * d) * freq ! k) [0..<of_fft cfg])"
  using assms by (rule ofdm_shift)

theorem ofdm_delay_witness:
  "\<exists>sig. ofdm_modulate [1, \<i>, 2, 0] \<lparr>of_fft = 4, of_cp = 2\<rparr> = Inr sig \<and>
    ofdm_demodulate (take (length sig) ([7] @ sig)) \<lparr>of_fft = 4, of_cp = 2\<rparr> =
      Inr (map (\<lambda>k. unit_root False 4 ^ (k * 1) * [1, \<i>, 2, 0] ! k) [0..<4])"
proof -
  obtain sig where "ofdm_modulate [1, \<i>, 2, 0] \<lparr>of_fft = 4, of_cp = 2\<rparr> = Inr sig"
    using ofdm_modulate_Inr [of "[1, \<i>, 2, 0]" 2 "\<lparr>of_fft = 4, of_cp = 2\<rparr>"] by simp
  moreover from ofdm_delay [OF this, of 1 "[7]"] have
    "ofdm_demodulate (take (length sig) ([7] @ sig)) \<lparr>of_fft = 4, of_cp = 2\<rparr> =
      Inr (map (\<lambda>k. unit_root False 4 ^ (k * 1) * [1, \<i>, 2, 0] ! k) [0..<4])"
    by simp
  ultimately show ?thesis by blast
qed

end
