(* ===== verification/Waveform.thy ===== *)
theory Waveform
  imports Modulation Ofdm Channel ChannelEstimation
begin

text \<open>
  The waveform chain: a known OFDM symbol and a data symbol through the scalar channel in one
  transmission, least-squares estimation on the first, zero forcing of the second with it, and hard
  decisions. As in theory \<open>Link\<close> the repository composes these operations in its tests only; the receiver
  reads the two symbols at the positions where they were sent, so that a delay
  of the channel is a timing error inside the cyclic prefix.
\<close>

section \<open>One subcarrier\<close>




section \<open>Two symbols in one transmission\<close>










section \<open>Properties\<close>





end
