(* ===== verification/Benchmarks.thy ===== *)
theory Benchmarks
  imports Link Ofdm Scheduler Deadline Mimo
begin

text \<open>
  The programs under \<open>benchmarks/\<close>: the statistics of \<open>bench_harness.cpp\<close> and
  \<open>optimization_studies.cpp\<close>, the workloads they and \<open>orchestrator.cpp\<close> run on the library, and the
  pairs of computations the studies compare. The clock is a parameter, a function of the number of its
  readings so far; the programs themselves and their files are in \<open>Reports\<close>. Single-precision sums are exact reals.
\<close>

section \<open>Statistics\<close>

record bench_stats =
  st_median :: real
  st_p90 :: real
  st_p95 :: real
  st_p99 :: real
  st_max :: real
  st_jitter :: real
  st_throughput :: real
  st_misses :: int

definition bench_pct :: "real list \<Rightarrow> real \<Rightarrow> real" where
  "bench_pct us p = (if us = [] then 0 else us ! nat \<lfloor>p * of_nat (length us - 1)\<rfloor>)"

definition summarize :: "real list \<Rightarrow> real \<Rightarrow> real \<Rightarrow> bench_stats" where
  "summarize samples work_units deadline_us =
     (let us = sort samples;
          n = real (max 1 (length us));
          mean = foldl (+) 0 us / n;
          var = foldl (\<lambda>s v. s + (v - mean) * (v - mean)) 0 us / n;
          total_s = foldl (+) 0 us * (1 / 1000000)
      in \<lparr>st_median = bench_pct us (50 / 100), st_p90 = bench_pct us (90 / 100), st_p95 = bench_pct us (95 / 100),
          st_p99 = bench_pct us (99 / 100), st_max = (if us = [] then 0 else last us), st_jitter = sqrt var,
          st_throughput = (if total_s > 0 then work_units / total_s else 0),
          st_misses = foldl (\<lambda>n v. if v > deadline_us then n + 1 else n) 0 us\<rparr>)"

record study_stats =
  ss_median :: real
  ss_p90 :: real
  ss_p95 :: real
  ss_p99 :: real
  ss_max :: real

definition study_summarize :: "real list \<Rightarrow> study_stats" where
  "study_summarize samples =
     (let us = sort samples in
      \<lparr>ss_median = bench_pct us (50 / 100), ss_p90 = bench_pct us (90 / 100), ss_p95 = bench_pct us (95 / 100),
       ss_p99 = bench_pct us (99 / 100), ss_max = (if us = [] then 0 else last us)\<rparr>)"

text \<open>The measuring loop: pass \<open>i\<close> reads the clock before and after the workload, whose result is
  discarded and whose exception ends the program.\<close>

definition run_bench :: "(nat \<Rightarrow> real) \<Rightarrow> 'a result \<Rightarrow> nat \<Rightarrow> real \<Rightarrow> real \<Rightarrow> bench_stats result" where
  "run_bench clock work iters work_units deadline_us =
     and_then (mapE (\<lambda>i. and_then work (\<lambda>_. Inr (clock (2 * i + 1) - clock (2 * i)))) [0..<iters]) (\<lambda>samples.
     Inr (summarize samples work_units deadline_us))"

definition study_bench :: "(nat \<Rightarrow> real) \<Rightarrow> 'a result \<Rightarrow> nat \<Rightarrow> study_stats result" where
  "study_bench clock work iters =
     and_then (mapE (\<lambda>i. and_then work (\<lambda>_. Inr (clock (2 * i + 1) - clock (2 * i)))) [0..<iters]) (\<lambda>samples.
     Inr (study_summarize samples))"

section \<open>Workloads\<close>

text \<open>The loop \<open>for (i = 0; i < n; i += step)\<close> over the elements of a vector.\<close>

definition strided_sum :: "real \<Rightarrow> real list \<Rightarrow> nat \<Rightarrow> real" where
  "strided_sum acc xs step = foldl (\<lambda>s k. s + xs ! (k * step)) acc [0..<(length xs + step - 1) div step]"

definition bench_memory :: real where
  "bench_memory = strided_sum (strided_sum 0 (replicate (2 ^ 20) 1) 64) (replicate 4096 1) 16"

definition alternating :: "nat \<Rightarrow> bitvec" where
  "alternating n = map (\<lambda>i. word_of_nat (i mod 2)) [0..<n]"

definition bench_crc :: "bool result" where
  "bench_crc = and_then (crc_attach (alternating 256) CRC24A) (\<lambda>c. crc_check c CRC24A)"

definition bench_params :: ldpc_params where
  "bench_params = default_params\<lparr>p_bg := BG2, p_zc := 2, p_mb_use := 6\<rparr>"

definition bench_ldpc :: "(bitvec \<times> bitvec) result" where
  "bench_ldpc =
     and_then (ldpc_graph_info bench_params) (\<lambda>gi.
     let info = alternating (nat (i_kb gi * p_zc bench_params)) in
     and_then (ldpc_encode info bench_params) (\<lambda>cw.
     and_then (ldpc_decode (map (\<lambda>b. if b \<noteq> 0 then - 8 else 8) cw) bench_params) (\<lambda>out. Inr (info, out))))"

definition bench_ofdm :: "complexvec result" where
  "bench_ofdm =
     (let cfg = \<lparr>of_fft = 64, of_cp = 8\<rparr>; freq = replicate 64 (Complex (1 / 10) (- 2 / 10))
      in and_then (ofdm_modulate freq cfg) (\<lambda>t. ofdm_demodulate t cfg))"

definition bench_channel :: complexvec where
  "bench_channel = foldl (\<lambda>H i. H[i * 4 + i := 1]) (replicate 16 0) [0..<4]"

definition bench_mmse :: "complexvec result" where
  "bench_mmse =
     equalize_sample (replicate 4 (Complex (2 / 10) (- 1 / 10))) bench_channel 4 4
       (default_equalizer\<lparr>eq_type := MMSE, eq_noise_var := 1 / 100\<rparr>)"

definition bench_ues :: "ue_state list" where
  "bench_ues = map (\<lambda>i. default_ue\<lparr>ue_id := word_of_nat i, ue_avg := 1 + real i, ue_rate := 10 - real i * (1 / 10), ue_mcs := 4,
     ue_layers := 1 + int (i mod 2), ue_buffer := 500, ue_cqi := 4\<rparr>) [0..<16]"

definition bench_schedule :: "schedule_result result" where
  "bench_schedule = schedule (default_scheduler\<lparr>sc_n_prb := 273, sc_max_ues := 8\<rparr>) bench_ues"

section \<open>Studies\<close>

definition scalar_dot :: "real list \<Rightarrow> real list \<Rightarrow> real" where
  "scalar_dot a b = foldl (\<lambda>s i. s + a ! i * b ! i) 0 [0..<length a]"

function unrolled_loop :: "real list \<Rightarrow> real list \<Rightarrow> nat \<Rightarrow> real \<times> real \<times> real \<times> real \<Rightarrow> real \<times> real \<times> real \<times> real" where
  "unrolled_loop a b i (s0, s1, s2, s3) =
     (if i + 3 < length a
      then unrolled_loop a b (i + 4)
             (s0 + a ! i * b ! i, s1 + a ! (i + 1) * b ! (i + 1), s2 + a ! (i + 2) * b ! (i + 2), s3 + a ! (i + 3) * b ! (i + 3))
      else (s0, s1, s2, s3))"
  by pat_completeness auto
termination by (relation "measure (\<lambda>(a, b, i, s). length a - i)") auto

declare unrolled_loop.simps [simp del]

definition unrolled_dot :: "real list \<Rightarrow> real list \<Rightarrow> real" where
  "unrolled_dot a b = (case unrolled_loop a b 0 (0, 0, 0, 0) of (s0, s1, s2, s3) \<Rightarrow> s0 + s1 + s2 + s3)"

record iq_sample =
  sm_re :: real
  sm_im :: real
  sm_w :: real

definition aos_sum :: "iq_sample list \<Rightarrow> real" where
  "aos_sum aos = foldl (\<lambda>s v. s + (sm_re v * sm_w v + sm_im v * sm_w v)) 0 aos"

definition soa_sum :: "real list \<Rightarrow> real list \<Rightarrow> real list \<Rightarrow> real" where
  "soa_sum re im w = foldl (\<lambda>s i. s + (re ! i * w ! i + im ! i * w ! i)) 0 [0..<length re]"

definition pageable_walk :: real where
  "pageable_walk = strided_sum 0 (replicate (2 ^ 20) 1) 128"

definition aligned_walk :: real where
  "aligned_walk = foldl (\<lambda>s r. strided_sum s (replicate 8192 1) 16) 0 [0..<128]"

definition even_bits :: "bitvec \<Rightarrow> bitvec" where
  "even_bits b = (if length b mod 2 \<noteq> 0 then butlast b else b)"

definition sync_chain :: "complexvec result" where
  "sync_chain =
     and_then (crc_attach (alternating 256) CRC24A) (\<lambda>a.
     and_then (scramble a 0x1234) (\<lambda>b. modulate (even_bits b) QPSK))"

definition staged_chain :: "complexvec result" where
  "staged_chain =
     and_then (crc_attach (alternating 256) CRC24A) (\<lambda>a.
     let staged = a in
     and_then (scramble staged 0x1234) (\<lambda>b. let bits2 = even_bits b in modulate bits2 QPSK))"

section \<open>Orchestrator\<close>

definition orchestrate_sample :: "nat \<Rightarrow> (bitvec \<times> dbl list) result" where
  "orchestrate_sample i =
     and_then (ldpc_graph_info bench_params) (\<lambda>gi.
     let info = map (\<lambda>b. word_of_nat ((i + b) mod 2)) [0..<nat (i_kb gi * p_zc bench_params)] in
     and_then (ldpc_encode info bench_params) (\<lambda>cw.
     let bits = even_bits cw in
     and_then (modulate bits QPSK) (\<lambda>sym.
     and_then (demodulate_llr sym QPSK (5 / 100)) (\<lambda>llr. Inr (bits, llr)))))"

definition orchestrate_deadline :: "real list \<Rightarrow> deadline_report result" where
  "orchestrate_deadline samples_us = evaluate_deadlines samples_us \<lparr>nc_mu = 0, nc_slot_us = 0\<rparr> 1"

definition orchestrate_ues :: "ue_state list" where
  "orchestrate_ues = map (\<lambda>i. default_ue\<lparr>ue_id := word_of_nat i, ue_avg := 1 + real i, ue_rate := 8 - 2 / 10 * real i,
     ue_buffer := 1000, ue_cqi := 3 + int (i mod 5), ue_qos := 1 + 1 / 10 * real i\<rparr>) [0..<8]"

definition orchestrate_replay :: "(u64 \<times> u64 \<times> bool \<times> nat \<times> nat) result" where
  "orchestrate_replay =
     (let cfg = default_scheduler\<lparr>sc_n_prb := 106, sc_max_ues := 4, sc_seed := 42\<rparr> in
      and_then (schedule cfg orchestrate_ues) (\<lambda>a.
      and_then (schedule cfg orchestrate_ues) (\<lambda>b.
      Inr (sch_hash a, sch_hash b, sch_hash a = sch_hash b, length (sch_selected a), length (sch_filtered a)))))"

section \<open>Lemmas\<close>

lemma bench_pct_eq: "us \<noteq> [] \<Longrightarrow> bench_pct us p = pct us p"
  by (simp add: bench_pct_def pct_def)

lemma sort_eq_Nil [simp]: "sort us = [] \<longleftrightarrow> us = []"
  by (metis length_0_conv length_sort)

lemma fold_sum: "foldl (\<lambda>s v. s + f v) k us = k + sum_list (map f us)" for f :: "'a \<Rightarrow> real"
  by (induction us arbitrary: k) simp_all

lemma sum_sort: "sum_list (map f (sort us)) = sum_list (map f us)" for f :: "'a :: linorder \<Rightarrow> real"
  by (metis mset_map mset_sort sum_mset_sum_list)

definition mean_of :: "real list \<Rightarrow> real" where
  "mean_of us = sum_list us / real (length us)"

lemma summarize_jitter:
  assumes "us \<noteq> []"
  shows "(st_jitter (summarize us w d))\<^sup>2 = (\<Sum>v\<leftarrow>us. (v - mean_of us)\<^sup>2) / real (length us)" "0 \<le> st_jitter (summarize us w d)"
    "st_throughput (summarize us w d) = (if sum_list us > 0 then w / (sum_list us / 1000000) else 0)"
proof -
  let ?V = "(\<Sum>v\<leftarrow>us. (v - mean_of us)\<^sup>2) / real (length us)"
  have n: "1 \<le> length us" using assms by (simp add: Suc_leI)
  have ss: "sum_list (sort us) = sum_list us" using sum_sort [of "\<lambda>v. v" us] by simp
  then have mean: "foldl (+) 0 (sort us) = sum_list us" using fold_sum [of "\<lambda>v. v" 0 "sort us"] by simp
  have var: "st_jitter (summarize us w d) = sqrt ?V"
    using n by (simp add: summarize_def Let_def mean ss fold_sum sum_sort mean_of_def power2_eq_square max_absorb2)
  have V: "0 \<le> ?V" by (intro divide_nonneg_nonneg sum_list_nonneg) auto
  from var V show "(st_jitter (summarize us w d))\<^sup>2 = ?V" "0 \<le> st_jitter (summarize us w d)" by simp_all
  show "st_throughput (summarize us w d) = (if sum_list us > 0 then w / (sum_list us / 1000000) else 0)"
    by (simp add: summarize_def Let_def mean)
qed

lemma strided_ones: "0 < step \<Longrightarrow> strided_sum acc (replicate n 1) step = acc + real ((n + step - 1) div step)"
proof -
  assume step: "0 < step"
  have "k * step < n" if "k < (n + step - 1) div step" for k
  proof -
    have "(k + 1) * step \<le> ((n + step - 1) div step) * step" using that by (intro mult_le_mono1) simp
    also have "\<dots> \<le> n + step - 1" by (rule div_times_less_eq_dividend)
    finally show ?thesis using step by simp
  qed
  then have "map (\<lambda>k. replicate n 1 ! (k * step)) [0..<(n + step - 1) div step] = replicate ((n + step - 1) div step) (1 :: real)"
    by (intro nth_equalityI) simp_all
  then show ?thesis by (simp only: strided_sum_def length_replicate fold_sum) (simp add: sum_list_replicate)
qed

lemma run_bench_eq:
  assumes "work = Inr x"
  shows "run_bench clock work iters w d = Inr (summarize (map (\<lambda>i. clock (2 * i + 1) - clock (2 * i)) [0..<iters]) w d)"
    "study_bench clock work iters = Inr (study_summarize (map (\<lambda>i. clock (2 * i + 1) - clock (2 * i)) [0..<iters]))"
  by (simp_all add: run_bench_def study_bench_def assms mapE_Inr [where g = "\<lambda>i. clock (2 * i + 1) - clock (2 * i)"])

lemma length_alternating [simp]: "length (alternating n) = n"
  by (simp add: alternating_def)

lemma bits_parity [simp]: "is_bit (word_of_nat (n mod 2))"
  by (cases "n mod 2 = 0") (simp_all add: not_mod_2_eq_0_eq_1)

lemma bits_alternating [simp]: "bits_ok (alternating n)"
  by (simp add: alternating_def bits_ok_def list_all_iff)

lemma bits_even [simp]: "bits_ok b \<Longrightarrow> bits_ok (even_bits b)"
  by (auto simp: even_bits_def bits_ok_def list_all_iff dest: in_set_butlastD)

lemma even_even_bits: "length (even_bits b) mod 2 = 0"
  by (cases b rule: rev_cases) (auto simp: even_bits_def mod_Suc)

lemma bench_params_simps [simp]:
  "p_bg bench_params = BG2" "p_zc bench_params = 2" "p_i_ls bench_params = -1" "p_info_bits bench_params = -1"
  "standard_params bench_params" "2 \<in> set lifting_sizes"
  by (simp_all add: bench_params_def default_params_def standard_params_def default_mb_def lifting_sizes_def upt_rec)

lemma bench_encode:
  assumes "bits_ok info" "length info = 20"
  obtains gi g cw where "ldpc_graph_info bench_params = Inr gi" "nat (int (i_kb gi) * 2) = 20" "make_graph bench_params = Inr g"
    "ldpc_encode info bench_params = Inr cw" "bits_ok cw" "length cw = N_of g" "take (K_of g) cw = info" "in_code g (\<lambda>c. cw ! c)"
proof -
  obtain g cw where g: "make_graph bench_params = Inr g" and cw: "ldpc_encode info bench_params = Inr cw" "length cw = N_of g" "bits_ok cw"
    "take (K_of g) cw = info @ replicate (K_of g - length info) 0" "in_code g (\<lambda>c. cw ! c)"
    and K: "int (K_of g) = int (default_kb (p_bg bench_params)) * p_zc bench_params"
    by (rule encode_given [of info bench_params]) (simp_all add: assms default_kb_def)
  have kb: "g_kb g = 10" using standard_graph(6) [OF g] by (simp add: default_kb_def)
  have "K_of g = 20" using K by (simp add: default_kb_def)
  obtain gi where "ldpc_graph_info bench_params = Inr gi" "i_kb gi = 10" using g kb by (simp add: ldpc_graph_info_def)
  with g cw \<open>K_of g = 20\<close> assms(2) show thesis by (intro that [of gi g cw]) simp_all
qed

lemma unrolled_sum:
  assumes "unrolled_loop a b i (s0, s1, s2, s3) = (t0, t1, t2, t3)"
  shows "t0 + t1 + t2 + t3 = s0 + s1 + s2 + s3 + (\<Sum>k = i..<i + 4 * ((length a - i) div 4). a ! k * b ! k)"
  using assms
proof (induction a b i "(s0, s1, s2, s3)" arbitrary: s0 s1 s2 s3 rule: unrolled_loop.induct)
  case (1 a b i s0 s1 s2 s3)
  show ?case
  proof (cases "i + 3 < length a")
    case True
    then have n: "i + 4 * ((length a - i) div 4) = i + 4 + 4 * ((length a - (i + 4)) div 4)" by (simp add: div_if)
    have "(\<Sum>k = i..<m. a ! k * b ! k) = a ! i * b ! i + a ! (i + 1) * b ! (i + 1) + a ! (i + 2) * b ! (i + 2) + a ! (i + 3) * b ! (i + 3) +
        (\<Sum>k = i + 4..<m. a ! k * b ! k)" if "i + 4 \<le> m" for m
      using that by (simp add: sum.atLeast_Suc_lessThan numeral_eq_Suc)
    with 1 True show ?thesis by (simp add: unrolled_loop.simps [of a b i] n)
  next
    case False
    then have "(length a - i) div 4 = 0" by simp
    with 1 False show ?thesis by (simp add: unrolled_loop.simps [of a b i])
  qed
qed

lemma scalar_dot_sum: "scalar_dot a b = (\<Sum>k<length a. a ! k * b ! k)"
  by (simp add: scalar_dot_def fold_sum sum_list_distinct_conv_sum_set atLeast0LessThan)

lemma unrolled_eq: "unrolled_dot a b = scalar_dot (take (4 * (length a div 4)) a) b"
proof -
  obtain t0 t1 t2 t3 where t: "unrolled_loop a b 0 (0, 0, 0, 0) = (t0, t1, t2, t3)" by (metis prod_cases4)
  have "scalar_dot (take (4 * (length a div 4)) a) b = (\<Sum>k<4 * (length a div 4). a ! k * b ! k)"
    by (simp add: scalar_dot_sum)
  then show ?thesis using unrolled_sum [OF t] t by (simp add: unrolled_dot_def atLeast0LessThan)
qed

lemma aos_eq_soa: "soa_sum (map sm_re aos) (map sm_im aos) (map sm_w aos) = aos_sum aos"
proof -
  have "map (\<lambda>i. map sm_re aos ! i * map sm_w aos ! i + map sm_im aos ! i * map sm_w aos ! i) [0..<length aos] =
      map (\<lambda>i. sm_re (aos ! i) * sm_w (aos ! i) + sm_im (aos ! i) * sm_w (aos ! i)) [0..<length aos]" by simp
  then have "soa_sum (map sm_re aos) (map sm_im aos) (map sm_w aos) =
      (\<Sum>i\<leftarrow>[0..<length aos]. sm_re (aos ! i) * sm_w (aos ! i) + sm_im (aos ! i) * sm_w (aos ! i))"
    by (simp only: soa_sum_def fold_sum length_map add_0)
  also have "\<dots> = (\<Sum>v\<leftarrow>map ((!) aos) [0..<length aos]. sm_re v * sm_w v + sm_im v * sm_w v)" by (simp add: comp_def)
  finally show ?thesis by (simp add: map_nth aos_sum_def fold_sum)
qed

lemma chain_ok: "sync_chain = staged_chain" "\<exists>tx. sync_chain = Inr tx \<and> length tx = 140"
proof -
  show "sync_chain = staged_chain" by (simp add: sync_chain_def staged_chain_def)
  obtain a where a: "crc_attach (alternating 256) CRC24A = Inr a" by (simp add: crc_attach_eq)
  then have "bits_ok a" "length a = 280" by (auto elim!: crc_attach_Inr)
  then show "\<exists>tx. sync_chain = Inr tx \<and> length tx = 140"
    by (auto simp: sync_chain_def a scramble_eq even_bits_def modulate_def bits_per_symbol_def Let_def)
qed

lemma bench_channel_eye: "bench_channel = mat_eye 4 1"
  by (simp add: bench_channel_def mat_eye_def)

lemma bench_mmse_eq: "bench_mmse = Inr (replicate 4 (Complex (2 / 10) (- 1 / 10) / (101 / 100)))"
proof -
  let ?y = "replicate 4 (Complex (2 / 10) (- 1 / 10))" and ?cfg = "default_equalizer\<lparr>eq_type := MMSE, eq_noise_var := 1 / 100\<rparr>"
  let ?x = "replicate 4 (Complex (2 / 10) (- 1 / 10) / (101 / 100))"
  have reg: "reg_of ?cfg = 1 / 100" by (simp add: reg_of_def)
  have gram: "gram_of bench_channel 4 4 (reg_of ?cfg) i j = (if i = j then 101 / 100 else 0)" if "i < 4" "j < 4" for i j
    using gram_identity [OF that] unfolding bench_channel_eye reg gram_of_def by (cases "i = j") simp_all
  have "length bench_channel = 4 * 4" by (simp add: bench_channel_def upt_rec)
  then obtain x where x: "equalize_sample ?y bench_channel (int 4) (int 4) ?cfg = Inr x"
    using equalize_sample_succeeds [where r = 4 and t = 4 and m = 0 and cfg = ?cfg] by (force simp: energy_nonneg reg)
  have "matched bench_channel 4 4 ?y i = Complex (2 / 10) (- 1 / 10)" if "i < 4" for i
  proof -
    have "matched bench_channel 4 4 ?y i = (\<Sum>k<4. if k = i then Complex (2 / 10) (- 1 / 10) else 0)"
      unfolding matched_def bench_channel_eye by (rule sum.cong) (use that in \<open>auto simp: mat_eye_entry\<close>)
    then show ?thesis using that by simp
  qed
  moreover have "(\<Sum>j<4. gram_of bench_channel 4 4 (reg_of ?cfg) i j * ?x ! j) = Complex (2 / 10) (- 1 / 10)" if "i < 4" for i
  proof -
    have "(\<Sum>j<4. gram_of bench_channel 4 4 (reg_of ?cfg) i j * ?x ! j) = (\<Sum>j<4. if j = i then Complex (2 / 10) (- 1 / 10) else 0)"
      by (rule sum.cong) (use that in \<open>auto simp: gram\<close>)
    then show ?thesis using that by simp
  qed
  ultimately have "solves bench_channel 4 4 (reg_of ?cfg) ?y ?x" by (simp add: solves_def)
  then have "?x = x" using equalize_sample_solves(2) [OF x] by simp
  with x show ?thesis by (simp add: bench_mmse_def)
qed

lemma bench_ofdm_eq: "bench_ofdm = Inr (replicate 64 (Complex (1 / 10) (- 2 / 10)))"
proof -
  let ?f = "replicate 64 (Complex (1 / 10) (- 2 / 10))"
  have "drop 8 (drop (64 - 8) (naive_dft ?f True) @ naive_dft ?f True) = naive_dft ?f True" by simp
  moreover have "naive_dft (naive_dft ?f True) False = ?f" using dft_inverse [of ?f True] by simp
  ultimately show ?thesis
    using ofdm_modulate_Inr [of ?f 6 "\<lparr>of_fft = 64, of_cp = 8\<rparr>"] ofdm_demodulate_Inr [of _ "\<lparr>of_fft = 64, of_cp = 8\<rparr>" 6]
    by (simp add: bench_ofdm_def Let_def)
qed

lemma selected_of:
  assumes "0 < sc_n_prb cfg" "sc_n_prb cfg < 2147483648" "0 < sc_max_ues cfg" "list_all (\<lambda>u. ue_ok u \<and> passes cfg u) ues"
    "ues \<noteq> []" "length ues < 2147483648"
  shows "\<exists>r. schedule cfg ues = Inr r \<and> length (sch_selected r) = min (nat (sc_max_ues cfg)) (length ues) \<and> sch_filtered r = []"
proof -
  have f: "filter (passes cfg) ues = ues" "filter (\<lambda>u. \<not> passes cfg u) ues = []" and "list_all ue_ok ues"
    using assms(4) by (simp_all add: list_all_iff)
  then obtain r where r: "schedule cfg ues = Inr r" using schedule_succeeds [OF assms(1-3)] by blast
  have len: "length (ranked cfg ues) = length ues" by (metis f(1) mset_ranked mset_eq_length)
  show ?thesis
    by (rule schedule_InrE [OF r]) (use assms(5,6) f r len in \<open>simp_all add: min.commute\<close>)
qed

lemma bench_crc_ok: "bench_crc = Inr True"
proof -
  obtain a where a: "crc_attach (alternating 256) CRC24A = Inr a" by (simp add: crc_attach_eq)
  then show ?thesis by (auto simp: bench_crc_def elim: crc_attach_Inr)
qed

lemma bench_ldpc_ok: "bench_ldpc = Inr (alternating 20, alternating 20)"
proof -
  obtain gi g cw where e: "ldpc_graph_info bench_params = Inr gi" "nat (int (i_kb gi) * 2) = 20" "make_graph bench_params = Inr g"
    "ldpc_encode (alternating 20) bench_params = Inr cw" "bits_ok cw" "length cw = N_of g" "take (K_of g) cw = alternating 20"
    "in_code g (\<lambda>c. cw ! c)" by (rule bench_encode [of "alternating 20"]) simp_all
  let ?llr = "map (\<lambda>b. if b \<noteq> 0 then - 8 else 8 :: real) cw"
  have "?llr = map (\<lambda>b. if b = 0 then 8 else - 8) cw" by (rule map_cong) simp_all
  then have h: "llr_to_bits ?llr = cw" using llr_to_bits_of_bits [OF e(5), of 8] by (simp only:)
  have "ldpc_decode ?llr bench_params = Inr (alternating 20)"
    using ldpc_decode_hit [OF e(3), of ?llr] e(6,7,8) unfolding h by simp
  then show ?thesis by (simp add: bench_ldpc_def Let_def e(1,2,4))
qed

lemma bench_schedule_ok: "\<exists>r. bench_schedule = Inr r \<and> length (sch_selected r) = 8 \<and> sch_filtered r = []"
proof -
have "list_all (\<lambda>u. ue_ok u \<and> passes (default_scheduler\<lparr>sc_n_prb := 273, sc_max_ues := 8\<rparr>) u) bench_ues"
    by (simp add: bench_ues_def list_all_iff ue_ok_def passes_def default_ue_def default_scheduler_def)
  moreover have "length bench_ues = 16" "bench_ues \<noteq> []" by (simp_all add: bench_ues_def)
  ultimately show ?thesis
    using selected_of [of "default_scheduler\<lparr>sc_n_prb := 273, sc_max_ues := 8\<rparr>" bench_ues] by (simp add: bench_schedule_def)
qed

section \<open>Properties\<close>

text \<open>The statistics of the harness and of the studies are the ones of the library's deadline report,
  for the same samples and deadline: the three implementations agree on every percentile, on the maximum
  and on the misses. The squared jitter is the mean squared deviation, and with no
  samples everything is 0.\<close>

theorem summaries_agree:
  assumes "evaluate_deadlines samples cfg fraction = Inr r" "samples \<noteq> []"
  shows "(let s = summarize samples w (dr_deadline_us r); t = study_summarize samples in
      [st_median s, st_p90 s, st_p95 s, st_p99 s, st_max s] = [dr_median r, dr_p90 r, dr_p95 r, dr_p99 r, dr_max r] \<and>
      [ss_median t, ss_p90 t, ss_p95 t, ss_p99 t, ss_max t] = [dr_median r, dr_p90 r, dr_p95 r, dr_p99 r, dr_max r] \<and>
      st_misses s = dr_misses r \<and> 0 \<le> st_jitter s \<and>
      (st_jitter s)\<^sup>2 = (\<Sum>v\<leftarrow>samples. (v - mean_of samples)\<^sup>2) / real (length samples)) \<and>
    summarize [] w d = \<lparr>st_median = 0, st_p90 = 0, st_p95 = 0, st_p99 = 0, st_max = 0, st_jitter = 0, st_throughput = 0, st_misses = 0\<rparr>"
proof -
  let ?d = "dr_deadline_us r" and ?us = "sort samples"
  have "length (filter (\<lambda>v. v > ?d) ?us) = length (filter (\<lambda>v. v > ?d) samples)"
    by (metis mset_sort mset_filter size_mset)
  then have m: "st_misses (summarize samples w ?d) = dr_misses r"
    using evaluate_eq [OF assms] by (simp add: summarize_def Let_def count_misses)
  have p: "bench_pct ?us p = pct ?us p" for p using assms(2) by (simp add: bench_pct_eq)
  have e: "dr_median r = pct ?us (50 / 100)" "dr_p90 r = pct ?us (90 / 100)" "dr_p95 r = pct ?us (95 / 100)"
    "dr_p99 r = pct ?us (99 / 100)" "dr_max r = last ?us" using evaluate_eq [OF assms] by simp_all
  have "[st_median s, st_p90 s, st_p95 s, st_p99 s, st_max s] = [dr_median r, dr_p90 r, dr_p95 r, dr_p99 r, dr_max r]"
    if "s = summarize samples w ?d" for s
    using assms(2) by (simp add: that summarize_def Let_def p e)
  moreover have "[ss_median t, ss_p90 t, ss_p95 t, ss_p99 t, ss_max t] = [dr_median r, dr_p90 r, dr_p95 r, dr_p99 r, dr_max r]"
    if "t = study_summarize samples" for t
    using assms(2) by (simp add: that study_summarize_def Let_def p e)
  moreover have "summarize [] w d = \<lparr>st_median = 0, st_p90 = 0, st_p95 = 0, st_p99 = 0, st_max = 0, st_jitter = 0,
      st_throughput = 0, st_misses = 0\<rparr>"
    by (simp add: summarize_def bench_pct_def)
  ultimately show ?thesis using m summarize_jitter [OF assms(2), of w ?d] unfolding Let_def by blast
qed

theorem summaries_agree_witness:
  "\<exists>r. evaluate_deadlines [300, 1200, 500] \<lparr>nc_mu = 0, nc_slot_us = 0\<rparr> 1 = Inr r \<and>
     st_misses (summarize [300, 1200, 500] 3 (dr_deadline_us r)) = dr_misses r"
proof -
  obtain r where r: "evaluate_deadlines [300, 1200, 500] \<lparr>nc_mu = 0, nc_slot_us = 0\<rparr> 1 = Inr r"
    by (simp add: evaluate_deadlines_def slot_duration_us_for_mu_def Let_def)
  with summaries_agree [OF r] show ?thesis by (auto simp: Let_def)
qed

text \<open>The two sides of each study compute the same value: the unrolled sum is the scalar one over the
  indices it reaches (all of them when the length is a multiple of four, as in the study), structure of
  arrays is array of structures, the fast transform is the quadratic one on the input of the study, and the staged chain is the direct
  one, which succeeds with 140 symbols.\<close>

theorem studies_compare_equals:
  "unrolled_dot a b = scalar_dot (take (4 * (length a div 4)) a) b \<and> (4 dvd length a \<longrightarrow> unrolled_dot a b = scalar_dot a b) \<and>
   soa_sum (map sm_re aos) (map sm_im aos) (map sm_w aos) = aos_sum aos \<and>
   (let x = map (\<lambda>i. Complex (1 / 100 * real i) (- 2 / 100)) [0..<64] in fft_radix2 x False = Inr (naive_dft x False)) \<and>
   staged_chain = sync_chain \<and> (\<exists>tx. sync_chain = Inr tx \<and> length tx = 140)"
proof -
  have "fft_radix2 (map (\<lambda>i. Complex (1 / 100 * real i) (- 2 / 100)) [0..<64]) False =
      Inr (naive_dft (map (\<lambda>i. Complex (1 / 100 * real i) (- 2 / 100)) [0..<64]) False)"
    by (rule fft_radix2_eq [of _ 6]) simp
  then show ?thesis using unrolled_eq [of a b] aos_eq_soa [of aos] chain_ok by (auto simp: Let_def)
qed

theorem studies_compare_equals_witness: "unrolled_dot [1, 2, 3, 4] [5, 6, 7, 8] = 70"
  using studies_compare_equals [of "[1, 2, 3, 4]" "[5, 6, 7, 8]"] by (simp add: scalar_dot_def upt_rec)

text \<open>Every workload of the harness runs without an exception, and its discarded result is the expected one: the
  checksum passes, the decoder returns the information bits, OFDM returns the tones, the MMSE
  equaliser on the identity channel divides by 1.01, and the scheduler selects eight of the sixteen users.\<close>

theorem workloads_run:
  "bench_crc = Inr True \<and> bench_ldpc = Inr (alternating 20, alternating 20) \<and>
   bench_ofdm = Inr (replicate 64 (Complex (1 / 10) (- 2 / 10))) \<and>
   bench_mmse = Inr (replicate 4 (Complex (2 / 10) (- 1 / 10) / (101 / 100))) \<and>
   (\<exists>r. bench_schedule = Inr r \<and> length (sch_selected r) = 8 \<and> sch_filtered r = [])"
  using bench_crc_ok bench_ldpc_ok bench_ofdm_eq bench_mmse_eq bench_schedule_ok by simp

text \<open>The harness never stops on an exception and its report is the summary of as many samples as passes;
  there are between none and all misses, and with a clock that does not run backwards every sample is non-negative.\<close>

theorem harness_reports:
  assumes "bench \<in> {run_bench clock bench_crc, run_bench clock bench_ldpc, run_bench clock bench_ofdm, run_bench clock bench_mmse,
    run_bench clock bench_schedule, run_bench clock (Inr bench_memory)}" "mono clock"
  shows "\<exists>samples. bench n w d = Inr (summarize samples w d) \<and> length samples = n \<and> list_all (\<lambda>v. 0 \<le> v) samples \<and>
    0 \<le> st_misses (summarize samples w d) \<and> st_misses (summarize samples w d) \<le> int n"
proof -
  let ?us = "map (\<lambda>i. clock (2 * i + 1) - clock (2 * i)) [0..<n]"
  obtain r where r: "bench_schedule = Inr r" using bench_schedule_ok by blast
  have "bench n w d = Inr (summarize ?us w d)"
    using assms(1) by (auto simp: run_bench_eq(1) [OF bench_crc_ok] run_bench_eq(1) [OF bench_ldpc_ok] run_bench_eq(1) [OF bench_ofdm_eq]
        run_bench_eq(1) [OF bench_mmse_eq] run_bench_eq(1) [OF r] run_bench_eq(1) [OF refl])
  moreover have "list_all (\<lambda>v. 0 \<le> v) ?us" using assms(2) by (auto simp: list_all_iff mono_def)
  moreover have "length (filter (\<lambda>v. v > d) (sort ?us)) \<le> n"
    using length_filter_le [of "\<lambda>v. v > d" "sort ?us"] by simp
  then have "0 \<le> st_misses (summarize ?us w d) \<and> st_misses (summarize ?us w d) \<le> int n"
    by (simp add: summarize_def Let_def count_misses)
  ultimately show ?thesis by (intro exI [of _ ?us]) simp
qed

theorem harness_reports_witness:
  "\<exists>samples. run_bench real bench_crc 500 128000 200 = Inr (summarize samples 128000 200) \<and> length samples = 500"
  using harness_reports [of "run_bench real bench_crc" real 500 128000 200] by (auto simp: mono_def)

text \<open>The two sides of the memory study do not do the same work: the pageable walk reads 8192 elements,
  the aligned one 65536, so their times do not compare the two kinds of memory.\<close>

theorem memory_study_unequal: "pageable_walk = 8192 \<and> aligned_walk = 65536 \<and> bench_memory = 16640"
proof -
  have "foldl (\<lambda>s r. strided_sum s (replicate 8192 1) 16) acc [0..<m] = acc + 512 * real m" for acc m
    by (induction m) (simp_all add: strided_ones algebra_simps)
  then show ?thesis by (simp add: pageable_walk_def aligned_walk_def bench_memory_def strided_ones)
qed

lemma orchestrate_sample_ok: "\<exists>bits llr. orchestrate_sample i = Inr (bits, map Fin llr) \<and> llr_to_bits llr = bits"
proof -
  let ?info = "map (\<lambda>b. word_of_nat ((i + b) mod 2)) [0..<20] :: bitvec"
  have "bits_ok ?info" by (simp add: bits_ok_def list_all_iff)
  then obtain gi cw where e: "ldpc_graph_info bench_params = Inr gi" "nat (int (i_kb gi) * 2) = 20"
    "ldpc_encode ?info bench_params = Inr cw" "bits_ok cw" by (rule bench_encode) simp_all
  have b: "bits_ok (even_bits cw)" "length (even_bits cw) mod bits_per_symbol QPSK = 0"
    using e(4) even_even_bits by (simp_all add: bits_per_symbol_def)
  then obtain tx where tx: "modulate (even_bits cw) QPSK = Inr tx" by (simp add: modulate_def Let_def)
  have "list_all (\<lambda>z. \<bar>Re z\<bar> < scale_for QPSK \<and> \<bar>Im z\<bar> < scale_for QPSK) (replicate (length tx) 0)"
    by (simp add: list_all_iff scale_for_def)
  from soft_margin [OF b(1) tx _ this, of "5 / 100"] obtain llr
    where "demodulate_llr (map2 (+) tx (replicate (length tx) 0)) QPSK (5 / 100) = Inr (map Fin llr)" "llr_to_bits llr = even_bits cw" by auto
  moreover have "map2 (+) tx (replicate (length tx) 0) = tx" by (rule nth_equalityI) simp_all
  ultimately show ?thesis
    by (auto simp: orchestrate_sample_def Let_def e(1,2,3) tx)
qed

lemma orchestrate_deadline_ok:
  "\<exists>r. orchestrate_deadline us = Inr r \<and> dr_slot_us r = 1000 \<and> dr_deadline_us r = 1000 \<and> dr_mu r = 0"
  by (simp add: orchestrate_deadline_def evaluate_deadlines_def slot_duration_us_for_mu_def Let_def)

text \<open>The orchestrator: every pass of its pipeline succeeds and the signs of its soft values are the
  (even number of) coded bits, its deadline is the 1000 microseconds of numerology 0 whatever the clock says, and the
  replay of the scheduler reports equal hashes with four of the eight users selected.\<close>

theorem orchestrator_runs:
  "(\<exists>bits llr. orchestrate_sample i = Inr (bits, map Fin llr) \<and> llr_to_bits llr = bits) \<and>
   (\<exists>r. orchestrate_deadline us = Inr r \<and> dr_slot_us r = 1000 \<and> dr_deadline_us r = 1000) \<and>
   (\<exists>h. orchestrate_replay = Inr (h, h, True, 4, 0))"
proof (intro conjI)
  show "\<exists>bits llr. orchestrate_sample i = Inr (bits, map Fin llr) \<and> llr_to_bits llr = bits" by (rule orchestrate_sample_ok)
  show "\<exists>r. orchestrate_deadline us = Inr r \<and> dr_slot_us r = 1000 \<and> dr_deadline_us r = 1000" using orchestrate_deadline_ok by blast
  have "list_all (\<lambda>u. ue_ok u \<and> passes (default_scheduler\<lparr>sc_n_prb := 106, sc_max_ues := 4, sc_seed := 42\<rparr>) u) orchestrate_ues"
    by (simp add: orchestrate_ues_def list_all_iff ue_ok_def passes_def default_ue_def default_scheduler_def)
  moreover have "length orchestrate_ues = 8" "orchestrate_ues \<noteq> []" by (simp_all add: orchestrate_ues_def)
  ultimately obtain r where "schedule (default_scheduler\<lparr>sc_n_prb := 106, sc_max_ues := 4, sc_seed := 42\<rparr>) orchestrate_ues = Inr r"
    "length (sch_selected r) = 4" "sch_filtered r = []"
    using selected_of [of "default_scheduler\<lparr>sc_n_prb := 106, sc_max_ues := 4, sc_seed := 42\<rparr>" orchestrate_ues] by auto
  then show "\<exists>h. orchestrate_replay = Inr (h, h, True, 4, 0)" by (simp add: orchestrate_replay_def)
qed

end
