(* ===== verification/Json.thy ===== *)
theory Json
  imports FapiJson
begin

text \<open>
  Printing and reading of the report files that the programs under \<open>benchmarks/\<close> write:
  \<open>operator<<\<close> of the standard library for a \<open>double\<close> (the default format, six significant digits) and for
  the integers, and a reader of JSON text, the specification the reports are checked against: a lexer
  that drops white space and a parser of nested objects.
\<close>

section \<open>Printing numbers\<close>

text \<open>Round to nearest, ties to even.\<close>

definition round_even :: "real \<Rightarrow> int" where
  "round_even x = (let f = \<lfloor>x\<rfloor>; d = x - of_int f in if d < 1 / 2 \<or> (d = 1 / 2 \<and> even f) then f else f + 1)"

text \<open>The decimal exponent of a positive number: divide or multiply by ten until one digit is left before
  the point. The fuel covers the exponents of a \<open>double\<close>, from -324 to 308.\<close>

fun decade_up :: "nat \<Rightarrow> real \<Rightarrow> int" where
  "decade_up 0 x = 0"
| "decade_up (Suc f) x = (if x < 10 then 0 else decade_up f (x / 10) + 1)"

fun decade_down :: "nat \<Rightarrow> real \<Rightarrow> int" where
  "decade_down 0 x = 0"
| "decade_down (Suc f) x = (if 1 \<le> x then 0 else decade_down f (10 * x) - 1)"

definition decade :: "real \<Rightarrow> int" where
  "decade x = (if 1 \<le> x then decade_up 308 x else decade_down 324 x)"

text \<open>Six digits \<open>m\<close> and the exponent \<open>e\<close> of the first: \<open>x\<close> is about \<open>m * 10 powi (e - 5)\<close>.\<close>

definition six_digits :: "real \<Rightarrow> int \<times> int" where
  "six_digits x =
     (let e = decade x; m = round_even (x / 10 powi (e - 5)) in if m = 1000000 then (100000, e + 1) else (m, e))"

definition strip_zeros :: "string \<Rightarrow> string" where
  "strip_zeros s = rev (dropWhile (\<lambda>c. c = CHR ''0'') (rev s))"

definition with_point :: "string \<Rightarrow> string \<Rightarrow> string" where
  "with_point whole decimals = (let f = strip_zeros decimals in whole @ (if f = [] then [] else CHR ''.'' # f))"

definition show_exponent :: "int \<Rightarrow> string" where
  "show_exponent e = (let d = show_nat (nat \<bar>e\<bar>) in
     [CHR ''e'', if e < 0 then CHR ''-'' else CHR ''+''] @ (if length d < 2 then CHR ''0'' # d else d))"

definition show_positive :: "real \<Rightarrow> string" where
  "show_positive x =
     (case six_digits x of (m, e) \<Rightarrow>
        let ds = show_nat (nat m) in
        if - 4 \<le> e \<and> e < 6
        then (if 0 \<le> e then with_point (take (nat e + 1) ds) (drop (nat e + 1) ds)
              else with_point ''0'' (replicate (nat (- e) - 1) CHR ''0'' @ ds))
        else with_point (take 1 ds) (drop 1 ds) @ show_exponent e)"

definition show_double :: "real \<Rightarrow> string" where
  "show_double x = (if x = 0 then ''0'' else if x < 0 then CHR ''-'' # show_positive (- x) else show_positive x)"

definition show_int :: "int \<Rightarrow> string" where
  "show_int n = (if n < 0 then CHR ''-'' # show_nat (nat (- n)) else show_nat (nat n))"

section \<open>Reading JSON\<close>

datatype token = Punct char | Str string | Lit string

definition json_space :: "char \<Rightarrow> bool" where
  "json_space c \<longleftrightarrow> c \<in> {CHR '' '', CHR 0x09, CHR 0x0A, CHR 0x0D}"

definition json_punct :: "char \<Rightarrow> bool" where
  "json_punct c \<longleftrightarrow> c \<in> {CHR ''{'', CHR ''}'', CHR '':'', CHR '','', CHR 0x22}"

text \<open>A string without escapes ends at the next quote; anything else up to a delimiter is a literal.\<close>

function lex :: "string \<Rightarrow> token list" where
  "lex [] = []"
| "lex (c # cs) =
     (if json_space c then lex cs
      else if c = quote
      then Str (takeWhile (\<lambda>d. d \<noteq> quote) cs) # lex (tl (dropWhile (\<lambda>d. d \<noteq> quote) cs))
      else if json_punct c then Punct c # lex cs
      else Lit (c # takeWhile (\<lambda>d. \<not> json_space d \<and> \<not> json_punct d) cs) #
        lex (dropWhile (\<lambda>d. \<not> json_space d \<and> \<not> json_punct d) cs))"
  by pat_completeness auto
termination
  by (relation "measure length")
    (auto simp: less_Suc_eq_le length_dropWhile_le intro: le_trans [OF diff_le_self])

declare lex.simps [simp del]

datatype json = JStr string | JLit string | JObj "(string \<times> json) list"

fun json_value :: "nat \<Rightarrow> token list \<Rightarrow> (json \<times> token list) option"
  and json_members :: "nat \<Rightarrow> token list \<Rightarrow> ((string \<times> json) list \<times> token list) option"
where
  "json_value 0 ts = None"
| "json_value (Suc f) ts =
     (case ts of Str s # us \<Rightarrow> Some (JStr s, us)
      | Lit s # us \<Rightarrow> Some (JLit s, us)
      | Punct c # us \<Rightarrow>
          if c = CHR ''{'' then (case json_members f us of None \<Rightarrow> None | Some (kvs, vs) \<Rightarrow> Some (JObj kvs, vs)) else None
      | [] \<Rightarrow> None)"
| "json_members 0 ts = None"
| "json_members (Suc f) ts =
     (case ts of Str k # Punct c # us \<Rightarrow>
        if c = CHR '':''
        then (case json_value f us of
               Some (v, Punct d # vs) \<Rightarrow>
                 if d = CHR '','' then (case json_members f vs of None \<Rightarrow> None | Some (kvs, ws) \<Rightarrow> Some ((k, v) # kvs, ws))
                 else if d = CHR ''}'' then Some ([(k, v)], vs) else None
             | _ \<Rightarrow> None)
        else None
      | _ \<Rightarrow> None)"

text \<open>The whole text is one value; every token costs at most one unit of fuel.\<close>

definition read_json :: "string \<Rightarrow> json option" where
  "read_json s = (let ts = lex s in case json_value (length ts) ts of Some (v, []) \<Rightarrow> Some v | _ \<Rightarrow> None)"

fun json_get :: "json \<Rightarrow> string \<Rightarrow> json option" where
  "json_get (JObj kvs) k = map_of kvs k"
| "json_get v k = None"

definition json_keys :: "json \<Rightarrow> string list" where
  "json_keys v = (case v of JObj kvs \<Rightarrow> map fst kvs | _ \<Rightarrow> [])"

lemma show_nat_numeral:
  "show_nat (numeral k) = (if numeral k < (10 :: nat) then [digits ! numeral k] else show_nat (numeral k div 10) @ [digits ! (numeral k mod 10)])"
  "show_nat 0 = [digits ! 0]" "show_nat 1 = [digits ! 1]" "show_nat (Suc 0) = [digits ! 1]"
  by (subst show_nat.simps, simp)+

lemma decade_up_numeral: "decade_up (numeral k) x = (if x < 10 then 0 else decade_up (pred_numeral k) (x / 10) + 1)"
  by (simp add: numeral_eq_Suc)

lemma decade_down_numeral: "decade_down (numeral k) x = (if 1 \<le> x then 0 else decade_down (pred_numeral k) (10 * x) - 1)"
  by (simp add: numeral_eq_Suc)

section \<open>Accuracy of printed numbers\<close>

lemma round_even_close: "\<bar>x - of_int (round_even x)\<bar> \<le> 1 / 2"
  by (simp add: round_even_def Let_def)

lemma round_even_bounds: "of_int a \<le> x \<Longrightarrow> x \<le> of_int b \<Longrightarrow> a \<le> round_even x \<and> round_even x \<le> b"
  using round_even_close [of x] by linarith

lemma decade_up_ok:
  assumes "1 \<le> x" "x < 10 ^ (f + 1)"
  shows "0 \<le> decade_up f x \<and> 10 powi (decade_up f x) \<le> x \<and> x < 10 * 10 powi (decade_up f x)"
  using assms
proof (induction f arbitrary: x)
  case (Suc f)
  show ?case
  proof (cases "x < 10")
    case False
    with Suc.prems have "0 \<le> decade_up f (x / 10) \<and> 10 powi (decade_up f (x / 10)) \<le> x / 10 \<and> x / 10 < 10 * 10 powi (decade_up f (x / 10))"
      by (intro Suc.IH) simp_all
    with False show ?thesis by (simp add: power_int_add)
  qed (use Suc.prems in simp)
qed simp

lemma decade_down_ok:
  assumes "10 powi (- int f) \<le> x" "x < 10"
  shows "10 powi (decade_down f x) \<le> x \<and> x < 10 * 10 powi (decade_down f x)"
  using assms
proof (induction f arbitrary: x)
  case (Suc f)
  show ?case
  proof (cases "1 \<le> x")
    case False
    have "10 powi (- int (Suc f)) = 10 powi (- int f) / (10 :: real)" by (simp add: power_int_diff power_int_minus field_simps)
    with False Suc.prems have "10 powi (decade_down f (10 * x)) \<le> 10 * x \<and> 10 * x < 10 * 10 powi (decade_down f (10 * x))"
      by (intro Suc.IH) simp_all
    with False show ?thesis by (simp add: power_int_diff)
  qed (use Suc.prems in simp)
qed simp

lemma decade_ok:
  assumes "10 powi - 324 \<le> x" "x < 10 ^ 309"
  shows "10 powi (decade x) \<le> x \<and> x < 10 * 10 powi (decade x)"
proof (cases "1 \<le> x")
  case True
  with assms decade_up_ok [of x 308] show ?thesis by (simp add: decade_def)
next
  case False
  with assms decade_down_ok [of 324 x] show ?thesis by (simp add: decade_def)
qed

text \<open>Printing is accurate to half a unit of the sixth digit over the whole range of a \<open>double\<close>.\<close>

theorem six_digits_close:
  assumes "10 powi - 324 \<le> x" "x < 10 ^ 309" "six_digits x = (m, e)"
  shows "100000 \<le> m \<and> m < 1000000 \<and> \<bar>x - of_int m * 10 powi (e - 5)\<bar> \<le> 1 / 2 * 10 powi (e - 5)"
proof -
  define k where "k = decade x"
  define u :: real where "u = 10 powi (k - 5)"
  define y where "y = x / u"
  have u: "0 < u" by (simp add: u_def)
  have "10 powi k = 100000 * u" by (simp add: u_def power_int_diff)
  then have y: "100000 \<le> y" "y \<le> 1000000"
    using decade_ok [OF assms(1,2)] u by (simp_all add: y_def k_def field_simps)
  then have r: "100000 \<le> round_even y \<and> round_even y \<le> 1000000" using round_even_bounds [of 100000 y 1000000] by simp
  have "\<bar>x - of_int (round_even y) * u\<bar> = \<bar>y - of_int (round_even y)\<bar> * u"
    using u by (simp add: y_def abs_mult_pos' algebra_simps flip: abs_mult_pos)
  also have "\<dots> \<le> 1 / 2 * u" using u round_even_close [of y] by (intro mult_right_mono) simp_all
  finally have close: "\<bar>x - of_int (round_even y) * u\<bar> \<le> 1 / 2 * u" .
  have d: "six_digits x = (if round_even y = 1000000 then (100000, k + 1) else (round_even y, k))"
    by (simp add: six_digits_def Let_def k_def y_def u_def)
  show ?thesis
  proof (cases "round_even y = 1000000")
    case True
    with d assms(3) have me: "m = 100000" "e = k + 1" by simp_all
    have "10 powi (e - 5) = 10 * u" by (simp add: me u_def power_int_diff power_int_add)
    with close True u show ?thesis by (simp add: me)
  next
    case False
    with d assms(3) r close show ?thesis by (simp add: u_def)
  qed
qed

section \<open>Lexing printed text\<close>

named_theorems lexing

definition plain :: "string \<Rightarrow> bool" where
  "plain s \<longleftrightarrow> s \<noteq> [] \<and> list_all (\<lambda>c. \<not> json_space c \<and> \<not> json_punct c) s"

definition unquoted :: "string \<Rightarrow> bool" where
  "unquoted s \<longleftrightarrow> list_all (\<lambda>c. c \<noteq> quote) s"

lemma unquoted_simps [simp]:
  "unquoted []" "unquoted (c # s) \<longleftrightarrow> c \<noteq> quote \<and> unquoted s" "unquoted (s @ t) \<longleftrightarrow> unquoted s \<and> unquoted t"
  by (simp_all add: unquoted_def)

lemma lex_Nil [lexing]: "lex [] = []"
  by (simp add: lex.simps)

lemma lex_space [lexing]: "lex (CHR '' '' # s) = lex s" "lex (CHR 0x0A # s) = lex s"
  by (simp_all add: lex.simps json_space_def)

lemma lex_punct [lexing]:
  "lex (CHR ''{'' # s) = Punct CHR ''{'' # lex s" "lex (CHR ''}'' # s) = Punct CHR ''}'' # lex s"
  "lex (CHR '':'' # s) = Punct CHR '':'' # lex s" "lex (CHR '','' # s) = Punct CHR '','' # lex s"
  by (simp_all add: lex.simps json_space_def json_punct_def)

lemma lex_quoted [lexing]: "unquoted s \<Longrightarrow> lex (quoted s @ t) = Str s # lex t"
  by (simp add: quoted_def lex.simps json_space_def unquoted_def list_all_iff)

lemma lex_plain:
  assumes "plain s" "json_space c \<or> json_punct c"
  shows "lex (s @ c # t) = Lit s # lex (c # t)"
proof -
  obtain d ds where s: "s = d # ds" using assms(1) by (cases s) (auto simp: plain_def)
  have q: "json_punct quote" by (simp add: json_punct_def)
  have "takeWhile (\<lambda>d. \<not> json_space d \<and> \<not> json_punct d) (ds @ c # t) = ds"
    "dropWhile (\<lambda>d. \<not> json_space d \<and> \<not> json_punct d) (ds @ c # t) = c # t"
    using assms by (auto simp: s plain_def list_all_iff takeWhile_append dropWhile_append)
  then show ?thesis using assms(1) q by (auto simp: s plain_def lex.simps(2) [of d])
qed

lemma lex_plain_ends [lexing]:
  assumes "plain s"
  shows "lex (s @ CHR '','' # t) = Lit s # lex (CHR '','' # t)" "lex (s @ CHR ''}'' # t) = Lit s # lex (CHR ''}'' # t)"
    "lex (s @ CHR 0x0A # t) = Lit s # lex (CHR 0x0A # t)"
  using assms by (simp_all add: lex_plain json_space_def json_punct_def)

text \<open>Every printed number is one literal.\<close>

definition number_char :: "char \<Rightarrow> bool" where
  "number_char c \<longleftrightarrow> is_digit c \<or> c \<in> {CHR ''.'', CHR ''-'', CHR ''+'', CHR ''e''}"

lemma number_char_inside: "number_char c \<Longrightarrow> \<not> json_space c \<and> \<not> json_punct c"
  unfolding number_char_def is_digit_def digits_def by (elim disjE) (auto simp: json_space_def json_punct_def)

lemma number_plain: "s \<noteq> [] \<Longrightarrow> list_all number_char s \<Longrightarrow> plain s"
  using number_char_inside by (simp add: plain_def list_all_iff)

lemma number_show_nat: "list_all number_char (show_nat n)"
  using show_nat_digits [of n] by (simp add: list_all_iff number_char_def)

lemma number_with_point:
  assumes "list_all number_char s" "list_all number_char t"
  shows "list_all number_char (with_point s t)"
proof -
  have "set (strip_zeros t) \<subseteq> set t" by (auto simp: strip_zeros_def dest: set_dropWhileD)
  with assms show ?thesis by (auto simp: with_point_def Let_def list_all_iff number_char_def)
qed

lemma number_show_positive: "list_all number_char (show_positive x)"
proof -
  have t: "list_all number_char (take k (show_nat n))" "list_all number_char (drop k (show_nat n))" for k n
    using number_show_nat [of n] by (auto simp: list_all_iff dest: in_set_takeD in_set_dropD)
  have z: "number_char CHR ''0''" by (simp add: number_char_def is_digit_def digits_def)
  have e: "list_all number_char (show_exponent k)" for k
    using z number_show_nat [of "nat \<bar>k\<bar>"] by (simp add: show_exponent_def Let_def number_char_def)
  obtain m k where mk: "six_digits x = (m, k)" by (cases "six_digits x")
  have r: "list_all number_char (replicate n CHR ''0'')" for n using z by (simp add: list_all_iff)
  show ?thesis
    by (simp add: show_positive_def mk Let_def number_with_point t e z r number_show_nat)
qed

lemma show_positive_not_Nil: "show_positive x \<noteq> []"
  by (auto simp: show_positive_def with_point_def show_exponent_def Let_def show_nat_not_Nil split: prod.split)

lemma plain_show_double [simp]: "plain (show_double x)"
proof -
  have "number_char CHR ''-''" "number_char CHR ''0''" by (simp_all add: number_char_def is_digit_def digits_def)
  then show ?thesis
    by (intro number_plain) (simp_all add: show_double_def number_show_positive show_positive_not_Nil)
qed

lemma plain_show_nat [simp]: "plain (show_nat n)"
  by (intro number_plain number_show_nat show_nat_not_Nil)

lemma plain_show_int [simp]: "plain (show_int n)"
  by (intro number_plain) (simp_all add: show_int_def number_show_nat show_nat_not_Nil, simp_all add: number_char_def)

lemma plain_bool [simp]: "plain (if b then ''true'' else ''false'')" "plain ''true''" "plain ''false''"
  by (simp_all add: plain_def json_space_def json_punct_def)

end
