(* ===== verification/Reports.thy ===== *)
theory Reports
  imports Benchmarks Json
begin

text \<open>
  The report files of the three programs under \<open>benchmarks/\<close> and their \<open>main\<close> functions. A program depends on the
  output directory, on the clock (the value of its n-th reading) and on the file system, and its outcome is the list of the files it
  has left, in order, as pairs of a path and the contents, together with the way it ended. The file system is a
  parameter: whether a directory can be created (otherwise \<open>create_directories\<close> throws), the parent of a path, and what an
  output stream leaves at a path (nothing if it cannot be opened, less than it was given if the device is
  full; the programs do not look at the state of their streams). The
  last line on the console is left out; the bytes of the dash in the notes are the UTF-8 encoding in the source.
\<close>

section \<open>Writing\<close>

type_synonym report_file = "string \<times> string"

record file_system =
  fs_mkdir :: "string \<Rightarrow> bool"
  fs_parent :: "string \<Rightarrow> string"
  fs_write :: "string \<Rightarrow> string \<Rightarrow> string option"

text \<open>The outcome of a program, and the composition of two: after an exception nothing more is written.\<close>

type_synonym 'a outcome = "report_file list \<times> 'a result"

definition compute :: "'a result \<Rightarrow> 'a outcome" where
  "compute r = ([], r)"

definition next_step :: "'a outcome \<Rightarrow> ('a \<Rightarrow> 'b outcome) \<Rightarrow> 'b outcome" where
  "next_step p f = (case p of (files, Inl e) \<Rightarrow> (files, Inl e)
     | (files, Inr x) \<Rightarrow> (case f x of (later_files, r) \<Rightarrow> (files @ later_files, r)))"

definition create_directories :: "file_system \<Rightarrow> string \<Rightarrow> unit outcome" where
  "create_directories fs dir = ([], if fs_mkdir fs dir then Inr () else Inl Filesystem_error)"

definition saved :: "file_system \<Rightarrow> report_file \<Rightarrow> report_file list" where
  "saved fs f = (case fs_write fs (fst f) (snd f) of None \<Rightarrow> [] | Some left_there \<Rightarrow> [(fst f, left_there)])"

definition stream_out :: "file_system \<Rightarrow> report_file \<Rightarrow> unit outcome" where
  "stream_out fs f = (saved fs f, Inr ())"

abbreviation nl :: string where "nl \<equiv> [CHR 0x0A]"
abbreviation dash :: string where "dash \<equiv> [CHR 0xE2, CHR 0x80, CHR 0x94]"

text \<open>A line of a report: a key with a string or with a printed number, and the separator.\<close>

definition text_line :: "string \<Rightarrow> string \<Rightarrow> string \<Rightarrow> string" where
  "text_line key v sep = ''  '' @ quoted key @ '': '' @ quoted v @ sep @ nl"

definition value_line :: "string \<Rightarrow> string \<Rightarrow> string \<Rightarrow> string" where
  "value_line key v sep = ''  '' @ quoted key @ '': '' @ v @ sep @ nl"

definition json_report :: "string \<Rightarrow> string \<Rightarrow> bench_stats \<Rightarrow> string \<Rightarrow> string \<Rightarrow> report_file" where
  "json_report path name s status notes =
     (path, ''{'' @ nl @ text_line ''benchmark'' name '','' @ text_line ''status'' status '','' @
        text_line ''platform'' ''cpu'' '','' @ text_line ''timing_source'' ''cpu_synthetic'' '','' @
        value_line ''median_us'' (show_double (st_median s)) '','' @ value_line ''p90_us'' (show_double (st_p90 s)) '','' @
        value_line ''p95_us'' (show_double (st_p95 s)) '','' @ value_line ''p99_us'' (show_double (st_p99 s)) '','' @
        value_line ''max_us'' (show_double (st_max s)) '','' @ value_line ''jitter_us'' (show_double (st_jitter s)) '','' @
        value_line ''throughput'' (show_double (st_throughput s)) '','' @
        value_line ''deadline_misses'' (show_int (st_misses s)) '','' @ text_line ''notes'' notes [] @ ''}'' @ nl)"

definition study_side :: "string \<Rightarrow> string \<Rightarrow> study_stats \<Rightarrow> string" where
  "study_side key name s =
     ''  '' @ quoted key @ '': {'' @ quoted ''name'' @ '': '' @ quoted name @ '', '' @
     quoted ''median_us'' @ '': '' @ show_double (ss_median s) @ '', '' @ quoted ''p90_us'' @ '': '' @ show_double (ss_p90 s) @ '', '' @
     quoted ''p95_us'' @ '': '' @ show_double (ss_p95 s) @ '', '' @ quoted ''p99_us'' @ '': '' @ show_double (ss_p99 s) @ '', '' @
     quoted ''max_us'' @ '': '' @ show_double (ss_max s) @ ''},'' @ nl"

definition study_report ::
  "string \<Rightarrow> string \<Rightarrow> string \<Rightarrow> string \<Rightarrow> study_stats \<Rightarrow> string \<Rightarrow> study_stats \<Rightarrow> string \<Rightarrow> report_file" where
  "study_report path study_id hypothesis before_name before after_name after conclusion =
     (path, ''{'' @ nl @ text_line ''study_id'' study_id '','' @ text_line ''controlled_variable'' study_id '','' @
        text_line ''platform'' ''cpu'' '','' @ text_line ''timing_source'' ''cpu_synthetic'' '','' @
        text_line ''gpu_claim'' ''none'' '','' @ text_line ''hypothesis'' hypothesis '','' @
        study_side ''before'' before_name before @ study_side ''after'' after_name after @
        text_line ''conclusion'' conclusion '','' @ text_line ''status'' ''PASS'' [] @ ''}'' @ nl)"

definition write_json :: "file_system \<Rightarrow> string \<Rightarrow> string \<Rightarrow> bench_stats \<Rightarrow> string \<Rightarrow> string \<Rightarrow> unit outcome" where
  "write_json fs path name s status notes =
     next_step (create_directories fs (fs_parent fs path)) (\<lambda>_. stream_out fs (json_report path name s status notes))"

definition write_study ::
  "file_system \<Rightarrow> string \<Rightarrow> string \<Rightarrow> string \<Rightarrow> string \<Rightarrow> study_stats \<Rightarrow> string \<Rightarrow> study_stats \<Rightarrow> string \<Rightarrow> unit outcome" where
  "write_study fs path study_id hypothesis before_name before after_name after conclusion =
     next_step (create_directories fs (fs_parent fs path)) (\<lambda>_.
       stream_out fs (study_report path study_id hypothesis before_name before after_name after conclusion))"

section \<open>The harness\<close>

text \<open>Each benchmark reads the clock twice per pass and starts where the one before it stopped.\<close>

definition later :: "(nat \<Rightarrow> real) \<Rightarrow> nat \<Rightarrow> nat \<Rightarrow> real" where
  "later clock n = (\<lambda>k. clock (n + k))"

definition harness_main :: "file_system \<Rightarrow> string \<Rightarrow> (nat \<Rightarrow> real) \<Rightarrow> unit outcome" where
  "harness_main fs outdir clock =
     next_step (create_directories fs outdir) (\<lambda>_.
     next_step (compute (run_bench clock (Inr bench_memory) 200 1000000 5000)) (\<lambda>st.
     next_step (write_json fs (outdir @ ''/cpu_memory_layout.json'') ''cpu_memory_layout_pageable_pinned_mock'' st ''PASS''
       ''CPU mock of pageable/pinned; not CUDA pinned host memory'') (\<lambda>_.
     next_step (compute (run_bench (later clock 400) bench_crc 500 (256 * 500) 200)) (\<lambda>st.
     next_step (write_json fs (outdir @ ''/cpu_crc24a.json'') ''cpu_crc24a'' st ''PASS''
       ''CRC24A standards-path'') (\<lambda>_.
     next_step (compute (run_bench (later clock 1400) bench_ldpc 40 40 5000)) (\<lambda>st.
     next_step (write_json fs (outdir @ ''/cpu_ldpc_nr_bg2.json'') ''cpu_ldpc_nr_bg2'' st ''PASS''
       ''NR QC-LDPC BG2 real tables zc=2 mb_use=6 min-sum; CompactQc educational-only'') (\<lambda>_.
     next_step (compute (run_bench (later clock 1480) bench_ofdm 200 200 500)) (\<lambda>st.
     next_step (write_json fs (outdir @ ''/cpu_ofdm_64_fft.json'') ''cpu_ofdm_64_fft'' st ''PASS''
       ''radix-2 FFT OFDM (acceptance); naive DFT is educational-only'') (\<lambda>_.
     next_step (compute (run_bench (later clock 1880) bench_mmse 1000 1000 50)) (\<lambda>st.
     next_step (write_json fs (outdir @ ''/cpu_eq_mmse_4x4.json'') ''cpu_eq_mmse_4x4'' st ''PASS''
       ''4x4 MMSE'') (\<lambda>_.
     next_step (compute (run_bench (later clock 3880) bench_schedule 2000 2000 20)) (\<lambda>st.
     next_step (write_json fs (outdir @ ''/cpu_scheduler_mac.json'') ''cpu_scheduler_mac'' st ''PASS''
       ''MacScheduler beyond PF-ratio-only'') (\<lambda>_.
     let s = \<lparr>st_median = 0, st_p90 = 0, st_p95 = 0, st_p99 = 0, st_max = 0, st_jitter = 0, st_throughput = 0, st_misses = 0\<rparr> in
     write_json fs (outdir @ ''/cuda_graphs_streams.json'') ''cuda_graphs_streams'' s ''BLOCKED_HARDWARE''
       (''No NVIDIA GPU/CUDA toolkit on Apple M2 host '' @ dash @ '' no fabricated timings''))))))))))))))"

section \<open>The studies\<close>

text \<open>Study 3: a fresh vector per pass, of which the first element is read, against one pool that lives
  through all the passes and whose elements are incremented.\<close>

definition alloc_pass :: real where
  "alloc_pass = foldl (\<lambda>s k. replicate 4096 1 ! 0) 0 [0..<64]"

definition pool_pass :: "real list \<Rightarrow> real list" where
  "pool_pass pool = foldl (\<lambda>p k. p[k mod 4096 := p ! (k mod 4096) + 1 / 1000]) pool [0..<64]"

definition pool_after :: "nat \<Rightarrow> real list" where
  "pool_after n = (pool_pass ^^ n) (replicate 4096 1)"

definition dft_input :: complexvec where
  "dft_input = map (\<lambda>i. Complex (1 / 100 * real i) (- 2 / 100)) [0..<64]"

definition study_ones :: "iq_sample list" where
  "study_ones = replicate (2 ^ 15) \<lparr>sm_re = 1, sm_im = 5 / 10, sm_w = 25 / 100\<rparr>"

definition gpu_blocked_study :: string where
  "gpu_blocked_study =
     ''{'' @ nl @ text_line ''study_id'' ''gpu_opt_study'' '','' @ text_line ''status'' ''BLOCKED_HARDWARE'' '','' @
     value_line ''fail_closed'' ''true'' '','' @ value_line ''gpu_timings_present'' ''false'' '','' @
     text_line ''notes'' (''No NVIDIA GPU '' @ dash @ '' optimization-study-gpu emits pending JSON only'') [] @ ''}'' @ nl"

definition studies_main :: "file_system \<Rightarrow> string \<Rightarrow> (nat \<Rightarrow> real) \<Rightarrow> unit outcome" where
  "studies_main fs outdir clock =
     next_step (create_directories fs outdir) (\<lambda>_.
     let a = replicate (2 ^ 18) (11 / 10); b = replicate (2 ^ 18) (9 / 10) in
     next_step (compute (study_bench clock (Inr (scalar_dot a b)) 80)) (\<lambda>before.
     next_step (compute (study_bench (later clock 160) (Inr (unrolled_dot a b)) 80)) (\<lambda>after.
     next_step (write_study fs (outdir @ ''/01_scalar_vs_unrolled.json'') ''scalar_vs_simd_unroll''
            ''4-way unroll reduces loop overhead vs scalar product'' ''scalar'' before ''unrolled4'' after
            ''Unrolled accumulate typically lowers median latency on CPU'') (\<lambda>_.
     next_step (compute (study_bench (later clock 320) (Inr (naive_dft dft_input False)) 60)) (\<lambda>before.
     next_step (compute (study_bench (later clock 440) (fft_radix2 dft_input False) 60)) (\<lambda>after.
     next_step (write_study fs (outdir @ ''/02_dft_vs_fft.json'') ''dft_vs_fft'' ''Radix-2 FFT beats naive DFT for N=64''
            ''naive_dft'' before ''fft_radix2'' after ''FFT replaces educational DFT on acceptance path'') (\<lambda>_.
     next_step (compute (study_bench (later clock 560) (Inr alloc_pass) 100)) (\<lambda>before.
     next_step (compute (study_bench (later clock 760) (Inr (pool_after 100)) 100)) (\<lambda>after.
     next_step (write_study fs (outdir @ ''/03_alloc_vs_pool.json'') ''alloc_vs_pool'' ''Reusing a pool beats per-iteration heap alloc''
            ''heap_alloc'' before ''reuse_pool'' after ''Pool reuse reduces median us versus fresh allocations'') (\<lambda>_.
     next_step (compute (study_bench (later clock 960) (Inr (aos_sum study_ones)) 80)) (\<lambda>before.
     next_step (compute (study_bench (later clock 1120)
       (Inr (soa_sum (map sm_re study_ones) (map sm_im study_ones) (map sm_w study_ones))) 80)) (\<lambda>after.
     next_step (write_study fs (outdir @ ''/04_aos_vs_soa.json'') ''aos_vs_soa'' ''SoA improves contiguous math throughput''
            ''aos'' before ''soa'' after ''SoA is at least competitive; used for IQ buffers'') (\<lambda>_.
     next_step (compute (study_bench (later clock 1280) (Inr pageable_walk) 50)) (\<lambda>before.
     next_step (compute (study_bench (later clock 1380) (Inr aligned_walk) 50)) (\<lambda>after.
     next_step (write_study fs (outdir @ ''/05_pageable_vs_pinned_host.json'') ''pageable_vs_pinned_host''
            ''Aligned hot buffer beats cold large pageable walk (host-side mock only)'' ''pageable'' before ''aligned_hot'' after
            (''Host-side mock only '' @ dash @ '' NOT CUDA pinned memory; no GPU claim'')) (\<lambda>_.
     next_step (compute (study_bench (later clock 1480) sync_chain 80)) (\<lambda>before.
     next_step (compute (study_bench (later clock 1640) staged_chain 80)) (\<lambda>after.
     next_step (write_study fs (outdir @ ''/06_sync_vs_async_stub.json'') ''sync_vs_async_stub''
            ''CPU staging stub approximates async pipeline without fake GPU streams'' ''sync_chain'' before ''staged_stub'' after
            (''CPU stub only '' @ dash @ '' CUDA stream overlap remains BLOCKED_HARDWARE on this host'')) (\<lambda>_.
     stream_out fs (outdir @ ''/07_gpu_blocked.json'', gpu_blocked_study))))))))))))))))))))"

section \<open>The orchestrator\<close>

definition deadline_json :: "deadline_report \<Rightarrow> string" where
  "deadline_json r =
     ''{'' @ nl @ text_line ''status'' ''PASS'' '','' @ text_line ''timing_source'' ''cpu_synthetic'' '','' @
     text_line ''gpu_claim'' (''none '' @ dash @ '' NEVER claim GPU timing closure from CPU synthetic'') '','' @
     value_line ''mu'' (show_int (dr_mu r)) '','' @ value_line ''slot_duration_us'' (show_double (dr_slot_us r)) '','' @
     value_line ''deadline_us'' (show_double (dr_deadline_us r)) '','' @ value_line ''median_us'' (show_double (dr_median r)) '','' @
     value_line ''p95_us'' (show_double (dr_p95 r)) '','' @ value_line ''p99_us'' (show_double (dr_p99 r)) '','' @
     value_line ''deadline_misses'' (show_int (dr_misses r)) '','' @
     value_line ''miss_ratio'' (show_double (dr_miss_ratio r)) [] @ ''}'' @ nl"

definition replay_json :: "u64 \<times> u64 \<times> bool \<times> nat \<times> nat \<Rightarrow> string" where
  "replay_json = (\<lambda>(a, b, same, selected, filtered).
     ''{'' @ nl @ text_line ''status'' ''PASS'' '','' @ value_line ''replay_hash_a'' (show_nat (unat a)) '','' @
     value_line ''replay_hash_b'' (show_nat (unat b)) '','' @
     value_line ''deterministic'' (if same then ''true'' else ''false'') '','' @
     value_line ''selected'' (show_nat selected) '','' @ value_line ''filtered'' (show_nat filtered) [] @ ''}'' @ nl)"

definition gpu_pipeline_json :: string where
  "gpu_pipeline_json =
     ''{'' @ nl @ text_line ''status'' ''BLOCKED_HARDWARE'' '','' @ value_line ''fail_closed'' ''true'' '','' @
     value_line ''physical_pass'' ''false'' '','' @ value_line ''gpu_timings_present'' ''false'' '','' @
     text_line ''notes'' ''CPU/GPU orchestration harness: GPU numeric path blocked on Apple M2'' [] @ ''}'' @ nl"

definition orchestrator_main :: "file_system \<Rightarrow> string \<Rightarrow> (nat \<Rightarrow> real) \<Rightarrow> unit outcome" where
  "orchestrator_main fs outdir clock =
     next_step (create_directories fs outdir) (\<lambda>_.
     next_step (compute (mapE (\<lambda>i. and_then (orchestrate_sample i) (\<lambda>_. Inr (clock (2 * i + 1) - clock (2 * i)))) [0..<40])) (\<lambda>samples_us.
     next_step (compute (orchestrate_deadline samples_us)) (\<lambda>report.
     next_step (stream_out fs (outdir @ ''/cpu_numerology_deadline.json'', deadline_json report)) (\<lambda>_.
     next_step (compute orchestrate_replay) (\<lambda>replay.
     next_step (stream_out fs (outdir @ ''/scheduler_replay.json'', replay_json replay)) (\<lambda>_.
     stream_out fs (outdir @ ''/gpu_pipeline.json'', gpu_pipeline_json)))))))"

section \<open>Reading the reports back\<close>

lemma lex_text_line [lexing]:
  assumes "unquoted key" "unquoted v"
  shows "lex (text_line key v sep @ t) = Str key # Punct CHR '':'' # Str v # lex (sep @ CHR 0x0A # t)"
  using assms by (simp add: text_line_def lexing)

lemma lex_value_line [lexing]:
  assumes "unquoted key" "plain v"
  shows "lex (value_line key v '','' @ t) = Str key # Punct CHR '':'' # Lit v # Punct CHR '','' # lex t"
    "lex (value_line key v [] @ t) = Str key # Punct CHR '':'' # Lit v # lex t"
  using assms by (simp_all add: value_line_def lexing)

definition num :: "real \<Rightarrow> json" where "num x = JLit (show_double x)"

definition side_object :: "string \<Rightarrow> study_stats \<Rightarrow> json" where
  "side_object name s = JObj [(''name'', JStr name), (''median_us'', num (ss_median s)), (''p90_us'', num (ss_p90 s)),
     (''p95_us'', num (ss_p95 s)), (''p99_us'', num (ss_p99 s)), (''max_us'', num (ss_max s))]"

lemma lex_study_side [lexing]:
  assumes "unquoted key" "unquoted name"
  shows "lex (study_side key name s @ t) = Str key # Punct CHR '':'' # Punct CHR ''{'' #
     Str ''name'' # Punct CHR '':'' # Str name # Punct CHR '','' #
     Str ''median_us'' # Punct CHR '':'' # Lit (show_double (ss_median s)) # Punct CHR '','' #
     Str ''p90_us'' # Punct CHR '':'' # Lit (show_double (ss_p90 s)) # Punct CHR '','' #
     Str ''p95_us'' # Punct CHR '':'' # Lit (show_double (ss_p95 s)) # Punct CHR '','' #
     Str ''p99_us'' # Punct CHR '':'' # Lit (show_double (ss_p99 s)) # Punct CHR '','' #
     Str ''max_us'' # Punct CHR '':'' # Lit (show_double (ss_max s)) # Punct CHR ''}'' # Punct CHR '','' # lex t"
  using assms by (simp add: study_side_def lexing)

lemma read_write_json:
  assumes "unquoted name" "unquoted status" "unquoted notes"
  shows "read_json (snd (json_report path name s status notes)) =
    Some (JObj [(''benchmark'', JStr name), (''status'', JStr status), (''platform'', JStr ''cpu''),
      (''timing_source'', JStr ''cpu_synthetic''), (''median_us'', num (st_median s)), (''p90_us'', num (st_p90 s)),
      (''p95_us'', num (st_p95 s)), (''p99_us'', num (st_p99 s)), (''max_us'', num (st_max s)),
      (''jitter_us'', num (st_jitter s)), (''throughput'', num (st_throughput s)),
      (''deadline_misses'', JLit (show_int (st_misses s))), (''notes'', JStr notes)])"
  using assms by (simp add: read_json_def json_report_def lexing num_def)

lemma read_write_study:
  assumes "unquoted study_id" "unquoted hypothesis" "unquoted before_name" "unquoted after_name" "unquoted conclusion"
  shows "read_json (snd (study_report path study_id hypothesis before_name before after_name after conclusion)) =
    Some (JObj [(''study_id'', JStr study_id), (''controlled_variable'', JStr study_id), (''platform'', JStr ''cpu''),
      (''timing_source'', JStr ''cpu_synthetic''), (''gpu_claim'', JStr ''none''), (''hypothesis'', JStr hypothesis),
      (''before'', side_object before_name before), (''after'', side_object after_name after),
      (''conclusion'', JStr conclusion), (''status'', JStr ''PASS'')])"
  using assms by (simp add: read_json_def study_report_def lexing num_def side_object_def)

lemma read_gpu_blocked_study:
  "read_json gpu_blocked_study =
    Some (JObj [(''study_id'', JStr ''gpu_opt_study''), (''status'', JStr ''BLOCKED_HARDWARE''), (''fail_closed'', JLit ''true''),
      (''gpu_timings_present'', JLit ''false''),
      (''notes'', JStr (''No NVIDIA GPU '' @ dash @ '' optimization-study-gpu emits pending JSON only''))])"
  by (simp add: read_json_def gpu_blocked_study_def lexing)

lemma read_deadline_json:
  "read_json (deadline_json r) =
    Some (JObj [(''status'', JStr ''PASS''), (''timing_source'', JStr ''cpu_synthetic''),
      (''gpu_claim'', JStr (''none '' @ dash @ '' NEVER claim GPU timing closure from CPU synthetic'')),
      (''mu'', JLit (show_int (dr_mu r))), (''slot_duration_us'', num (dr_slot_us r)), (''deadline_us'', num (dr_deadline_us r)),
      (''median_us'', num (dr_median r)), (''p95_us'', num (dr_p95 r)), (''p99_us'', num (dr_p99 r)),
      (''deadline_misses'', JLit (show_int (dr_misses r))), (''miss_ratio'', num (dr_miss_ratio r))])"
  by (simp add: read_json_def deadline_json_def lexing num_def)

section \<open>The programs\<close>

text \<open>The differences of the readings that a benchmark of \<open>n\<close> passes takes, starting with reading \<open>k\<close>.\<close>

definition timings :: "(nat \<Rightarrow> real) \<Rightarrow> nat \<Rightarrow> nat \<Rightarrow> real list" where
  "timings clock k n = map (\<lambda>i. clock (k + (2 * i + 1)) - clock (k + 2 * i)) [0..<n]"

lemma timings_later: "timings (later clock k) 0 n = timings clock k n"
  by (simp add: timings_def later_def)

lemma bench_timings: "run_bench clock (Inr x) n w d = Inr (summarize (timings clock 0 n) w d)"
  "study_bench clock (Inr x) n = Inr (study_summarize (timings clock 0 n))"
  by (simp_all only: run_bench_eq [OF refl] timings_def add_0)

text \<open>The steps of a program.\<close>

lemma step_compute: "next_step (compute (Inr x)) f = f x" "next_step (compute (Inl e)) f = ([], Inl e)"
  by (simp_all add: next_step_def compute_def split: prod.split)

lemma step_directories:
  "next_step (create_directories fs d) f = (if fs_mkdir fs d then f () else ([], Inl Filesystem_error))"
  by (simp add: next_step_def create_directories_def split: prod.split)

lemma step_written: "next_step (files, Inr x) f = (files @ fst (f x), snd (f x))"
  by (simp add: next_step_def split: prod.split)

lemmas stepping = step_compute step_directories step_written

text \<open>A file system on which everything works.\<close>

definition reliable :: "file_system \<Rightarrow> bool" where
  "reliable fs \<longleftrightarrow> (\<forall>d. fs_mkdir fs d) \<and> (\<forall>path text. fs_write fs path text = Some text)"

lemma reliable_steps:
  assumes "reliable fs"
  shows "next_step (create_directories fs d) f = f ()" "stream_out fs r = ([r], Inr ())"
    "write_json fs path name s status notes = ([json_report path name s status notes], Inr ())"
    "write_study fs path study_id hypothesis bn before an after conclusion =
      ([study_report path study_id hypothesis bn before an after conclusion], Inr ())"
    "next_step ([r], Inr ()) f = (r # fst (f ()), snd (f ()))"
  using assms by (simp_all add: write_json_def write_study_def step_directories stream_out_def saved_def reliable_def)
    (simp add: next_step_def split: prod.split)

lemma harness_main_eq:
  assumes "reliable fs"
  shows "harness_main fs outdir clock =
     ([json_report (outdir @ ''/cpu_memory_layout.json'') ''cpu_memory_layout_pageable_pinned_mock''
            (summarize (timings clock 0 200) 1000000 5000) ''PASS'' ''CPU mock of pageable/pinned; not CUDA pinned host memory'',
          json_report (outdir @ ''/cpu_crc24a.json'') ''cpu_crc24a'' (summarize (timings clock 400 500) (256 * 500) 200) ''PASS''
            ''CRC24A standards-path'',
          json_report (outdir @ ''/cpu_ldpc_nr_bg2.json'') ''cpu_ldpc_nr_bg2'' (summarize (timings clock 1400 40) 40 5000) ''PASS''
            ''NR QC-LDPC BG2 real tables zc=2 mb_use=6 min-sum; CompactQc educational-only'',
          json_report (outdir @ ''/cpu_ofdm_64_fft.json'') ''cpu_ofdm_64_fft'' (summarize (timings clock 1480 200) 200 500) ''PASS''
            ''radix-2 FFT OFDM (acceptance); naive DFT is educational-only'',
          json_report (outdir @ ''/cpu_eq_mmse_4x4.json'') ''cpu_eq_mmse_4x4'' (summarize (timings clock 1880 1000) 1000 50) ''PASS''
            ''4x4 MMSE'',
          json_report (outdir @ ''/cpu_scheduler_mac.json'') ''cpu_scheduler_mac'' (summarize (timings clock 3880 2000) 2000 20) ''PASS''
            ''MacScheduler beyond PF-ratio-only'',
          json_report (outdir @ ''/cuda_graphs_streams.json'') ''cuda_graphs_streams'' (summarize [] 0 0) ''BLOCKED_HARDWARE''
            (''No NVIDIA GPU/CUDA toolkit on Apple M2 host '' @ dash @ '' no fabricated timings'')], Inr ())"
proof -
  obtain r where r: "bench_schedule = Inr r" using bench_schedule_ok by blast
  have z: "summarize [] 0 0 = \<lparr>st_median = 0, st_p90 = 0, st_p95 = 0, st_p99 = 0, st_max = 0, st_jitter = 0, st_throughput = 0,
      st_misses = 0\<rparr>" by (simp add: summarize_def bench_pct_def)
  show ?thesis
    by (simp only: harness_main_def step_compute reliable_steps [OF assms] bench_crc_ok bench_ldpc_ok bench_ofdm_eq bench_mmse_eq r bench_timings
        timings_later Let_def z fst_conv snd_conv)
qed

definition field_of :: "report_file \<Rightarrow> string \<Rightarrow> json option" where
  "field_of f key = (case read_json (snd f) of None \<Rightarrow> None | Some v \<Rightarrow> json_get v key)"

definition keys_of :: "report_file \<Rightarrow> string list" where
  "keys_of f = (case read_json (snd f) of None \<Rightarrow> [] | Some v \<Rightarrow> json_keys v)"

lemma json_report_fields:
  assumes "unquoted name" "unquoted status" "unquoted notes"
  shows "field_of (json_report path name s status notes) ''status'' = Some (JStr status)"
    "field_of (json_report path name s status notes) ''benchmark'' = Some (JStr name)"
    "field_of (json_report path name s status notes) ''timing_source'' = Some (JStr ''cpu_synthetic'')"
    "field_of (json_report path name s status notes) ''median_us'' = Some (num (st_median s))"
    "field_of (json_report path name s status notes) ''deadline_misses'' = Some (JLit (show_int (st_misses s)))"
    "fst (json_report path name s status notes) = path"
  by (simp_all add: field_of_def read_write_json [OF assms]) (simp add: json_report_def)

lemma study_report_fields:
  assumes "unquoted study_id" "unquoted hypothesis" "unquoted before_name" "unquoted after_name" "unquoted conclusion"
  shows "field_of (study_report path study_id hypothesis before_name before after_name after conclusion) ''status'' = Some (JStr ''PASS'')"
    "field_of (study_report path study_id hypothesis before_name before after_name after conclusion) ''study_id'' = Some (JStr study_id)"
    "keys_of (study_report path study_id hypothesis before_name before after_name after conclusion) =
      [''study_id'', ''controlled_variable'', ''platform'', ''timing_source'', ''gpu_claim'', ''hypothesis'', ''before'', ''after'',
       ''conclusion'', ''status'']"
    "fst (study_report path study_id hypothesis before_name before after_name after conclusion) = path"
  by (simp_all add: field_of_def keys_of_def json_keys_def read_write_study [OF assms]) (simp add: study_report_def)

section \<open>Properties\<close>

text \<open>The harness: whatever the clock says, on a working file system the program ends without an exception and writes seven JSON
  files. Six report success and the number of samples over their deadline; the
  seventh is marked as blocked, with zero times that are all the same attributed to the timing source \<open>cpu_synthetic\<close>.\<close>

theorem harness_files:
  assumes "reliable fs"
  shows "\<exists>files. harness_main fs outdir clock = (files, Inr ()) \<and>
     map fst files = map ((@) outdir) [''/cpu_memory_layout.json'', ''/cpu_crc24a.json'', ''/cpu_ldpc_nr_bg2.json'', ''/cpu_ofdm_64_fft.json'',
       ''/cpu_eq_mmse_4x4.json'', ''/cpu_scheduler_mac.json'', ''/cuda_graphs_streams.json''] \<and>
     map (\<lambda>f. field_of f ''status'') files = replicate 6 (Some (JStr ''PASS'')) @ [Some (JStr ''BLOCKED_HARDWARE'')] \<and>
     map (\<lambda>f. field_of f ''deadline_misses'') files =
       map (\<lambda>(k, n, d). Some (JLit (show_int (int (length (filter (\<lambda>v. d < v) (timings clock k n)))))))
         [(0, 200, 5000), (400, 500, 200), (1400, 40, 5000), (1480, 200, 500), (1880, 1000, 50), (3880, 2000, 20), (0, 0, 0)] \<and>
     field_of (last files) ''median_us'' = Some (JLit ''0'') \<and> field_of (last files) ''timing_source'' = Some (JStr ''cpu_synthetic'')"
proof -
  have "length (filter (\<lambda>v. d < v) (sort us)) = length (filter (\<lambda>v. d < v) us)" for us and d :: real
    by (metis mset_sort mset_filter size_mset)
  then have m: "st_misses (summarize us w d) = int (length (filter (\<lambda>v. d < v) us))" for us w d
    by (simp add: summarize_def Let_def count_misses)
  have z: "num (st_median (summarize [] 0 0)) = JLit ''0''" by (simp add: summarize_def bench_pct_def num_def show_double_def)
  have six: "replicate 6 x = [x, x, x, x, x, x]" for x :: "json option" by (simp add: numeral_eq_Suc)
  have none: "timings clock 0 0 = []" by (simp add: timings_def)
  show ?thesis
    by (rule exI, rule conjI [OF harness_main_eq [OF assms]]) (simp add: json_report_fields m z six none)
qed

text \<open>The keys that \<open>docs/optimization/STUDY_SCHEMA.md\<close> requires of every study, and the two of the CPU studies.\<close>

definition required_keys :: "string list" where
  "required_keys = [''study_id'', ''controlled_variable'', ''platform'', ''timing_source'', ''gpu_claim'', ''hypothesis'', ''conclusion'',
     ''status'']"

definition cpu_keys :: "string list" where "cpu_keys = required_keys @ [''before'', ''after'']"

lemma study_conforms:
  assumes "unquoted study_id" "unquoted hypothesis" "unquoted before_name" "unquoted after_name" "unquoted conclusion"
  shows "list_all (\<lambda>k. k \<in> set (keys_of (study_report path study_id hypothesis before_name before after_name after conclusion))) cpu_keys"
  by (simp add: study_report_fields(3) [OF assms] cpu_keys_def required_keys_def)

lemma gpu_study_fields:
  "field_of (path, gpu_blocked_study) ''status'' = Some (JStr ''BLOCKED_HARDWARE'')"
  "filter (\<lambda>k. k \<notin> set (keys_of (path, gpu_blocked_study))) required_keys =
     [''controlled_variable'', ''platform'', ''timing_source'', ''gpu_claim'', ''hypothesis'', ''conclusion'']"
  by (simp_all add: field_of_def keys_of_def json_keys_def read_gpu_blocked_study required_keys_def)

text \<open>The studies: on a working file system the program ends without an exception, writes seven files, and the six CPU studies
  have every field of the schema. Their status is \<open>PASS\<close> for all times. The file for the GPU lacks six
  of the eight fields that the schema requires of every study.\<close>

theorem studies_follow_schema:
  assumes "reliable fs"
  shows "\<exists>files. studies_main fs outdir clock = (files, Inr ()) \<and>
     map fst files = map ((@) outdir) [''/01_scalar_vs_unrolled.json'', ''/02_dft_vs_fft.json'', ''/03_alloc_vs_pool.json'',
       ''/04_aos_vs_soa.json'', ''/05_pageable_vs_pinned_host.json'', ''/06_sync_vs_async_stub.json'', ''/07_gpu_blocked.json''] \<and>
     list_all (\<lambda>f. list_all (\<lambda>k. k \<in> set (keys_of f)) cpu_keys \<and> field_of f ''status'' = Some (JStr ''PASS'')) (butlast files) \<and>
     field_of (last files) ''status'' = Some (JStr ''BLOCKED_HARDWARE'') \<and>
     filter (\<lambda>k. k \<notin> set (keys_of (last files))) required_keys =
       [''controlled_variable'', ''platform'', ''timing_source'', ''gpu_claim'', ''hypothesis'', ''conclusion'']"
proof -
  obtain tx where sync: "sync_chain = Inr tx" using chain_ok(2) by blast
  then have staged: "staged_chain = Inr tx" using chain_ok(1) by simp
  have fft: "fft_radix2 dft_input False = Inr (naive_dft dft_input False)"
    by (rule fft_radix2_eq [of _ 6]) (simp add: dft_input_def)
  show ?thesis
    by (rule exI, rule conjI, unfold studies_main_def Let_def fft sync staged bench_timings
        step_compute reliable_steps [OF assms] fst_conv snd_conv, rule refl)
      (simp add: study_report_fields(1,4) study_conforms gpu_study_fields)
qed

text \<open>The two sides of the allocation study do not compute the same value: the fresh vector is always read
  as 1, the element of the pool grows by a thousandth in every pass.\<close>

theorem pool_study_unequal: "alloc_pass = 1 \<and> pool_after n ! 0 = 1 + real n / 1000"
proof -
  have fold: "length (foldl (\<lambda>p k. p[k mod 4096 := p ! (k mod 4096) + 1 / 1000]) pool [0..<m]) = length pool \<and>
      foldl (\<lambda>p k. p[k mod 4096 := p ! (k mod 4096) + 1 / 1000]) pool [0..<m] ! 0 = (if m = 0 then pool ! 0 else pool ! 0 + 1 / 1000)"
    if "m \<le> 64" "length pool = 4096" for m and pool :: "real list"
    using that by (induction m) (auto simp: nth_list_update)
  have "length (pool_after n) = 4096 \<and> pool_after n ! 0 = 1 + real n / 1000"
  proof (induction n)
    case (Suc n)
    then show ?case using fold [of 64 "pool_after n"] by (simp add: pool_after_def pool_pass_def add_divide_distrib)
  qed (simp add: pool_after_def)
  moreover have "foldl (\<lambda>s k. replicate 4096 1 ! 0) s [0..<m] = (if m = 0 then s else 1)" for s :: real and m
    by (induction m) simp_all
  ultimately show ?thesis by (simp add: alloc_pass_def)
qed

lemma read_replay_json:
  "read_json (replay_json (a, b, same, selected, filtered)) =
    Some (JObj [(''status'', JStr ''PASS''), (''replay_hash_a'', JLit (show_nat (unat a))),
      (''replay_hash_b'', JLit (show_nat (unat b))), (''deterministic'', JLit (if same then ''true'' else ''false'')),
      (''selected'', JLit (show_nat selected)), (''filtered'', JLit (show_nat filtered))])"
  by (simp add: read_json_def replay_json_def lexing)

lemma replay_schedule:
  "case schedule (default_scheduler\<lparr>sc_n_prb := 106, sc_max_ues := 4, sc_seed := 42\<rparr>) orchestrate_ues of
     Inl e \<Rightarrow> False
   | Inr r \<Rightarrow> sch_hash r = 7194399555081025895 \<and> length (sch_selected r) = 4 \<and> sch_filtered r = []"
  by code_simp

lemma replay_hash: "orchestrate_replay = Inr (7194399555081025895, 7194399555081025895, True, 4, 0)"
  using replay_schedule by (auto simp: orchestrate_replay_def Let_def split: sum.splits)

lemma show_recorded:
  "show_nat (unat (7194399555081025895 :: u64)) = ''7194399555081025895''" "show_nat 4 = ''4''" "show_nat 0 = ''0''"
  by (simp_all add: show_nat_numeral digits_def)

lemma show_thousand: "show_double 1000 = ''1000''"
proof -
  have "six_digits 1000 = (100000, 3)"
    by (simp add: six_digits_def decade_def decade_up_numeral round_even_def Let_def power_int_def power2_eq_square)
  then show ?thesis
    by (simp add: show_double_def show_positive_def show_nat_numeral digits_def with_point_def strip_zeros_def Let_def)
qed

lemma orchestrator_timings:
  "mapE (\<lambda>i. and_then (orchestrate_sample i) (\<lambda>_. Inr (clock (2 * i + 1) - clock (2 * i)))) [0..<n] = Inr (timings clock 0 n)"
proof -
  have "and_then (orchestrate_sample i) (\<lambda>_. Inr (clock (2 * i + 1) - clock (2 * i))) = Inr (clock (2 * i + 1) - clock (2 * i))" for i
    using orchestrate_sample_ok [of i] by auto
  then show ?thesis
    by (simp add: timings_def mapE_Inr [where g = "\<lambda>i. clock (2 * i + 1) - clock (2 * i)"])
qed

text \<open>C40: the orchestrator, on any file system and for any clock. If its directory cannot be created it ends with the exception
  of the file system and leaves nothing. Otherwise it ends normally, since none of its computations fails, and
  leaves the three reports in this order, each as its stream left it (\<open>saved\<close>: a file that could not be opened is
  missing, and the program does not notice). The deadline report that it streams is the JSON object of the order
  statistics of the 40 passes, the ranks as in \<open>evaluate_deadlines_ok\<close>, with the number of passes over the 1000 microseconds of numerology 0; the replay report is the one that the
  repository keeps under \<open>results/orchestration\<close>, down to the 64-bit hash, which the model of the scheduler computes.\<close>

theorem orchestrator_reports:
  "\<exists>median p95 p99 report replay. let us = timings clock 0 40; misses = length (filter (\<lambda>v. 1000 < v) us) in
     orchestrator_main fs outdir clock =
       (if fs_mkdir fs outdir
        then (saved fs (outdir @ ''/cpu_numerology_deadline.json'', report) @ saved fs (outdir @ ''/scheduler_replay.json'', replay) @
          saved fs (outdir @ ''/gpu_pipeline.json'', gpu_pipeline_json), Inr ())
        else ([], Inl Filesystem_error)) \<and>
     has_rank us median (pct_rank 40 (50 / 100)) \<and> has_rank us p95 (pct_rank 40 (95 / 100)) \<and> has_rank us p99 (pct_rank 40 (99 / 100)) \<and>
     read_json report = Some (JObj [(''status'', JStr ''PASS''), (''timing_source'', JStr ''cpu_synthetic''),
       (''gpu_claim'', JStr (''none '' @ dash @ '' NEVER claim GPU timing closure from CPU synthetic'')),
       (''mu'', JLit ''0''), (''slot_duration_us'', JLit ''1000''), (''deadline_us'', JLit ''1000''),
       (''median_us'', num median), (''p95_us'', num p95), (''p99_us'', num p99),
       (''deadline_misses'', JLit (show_int (int misses))), (''miss_ratio'', num (misses / 40))]) \<and>
     read_json replay = Some (JObj [(''status'', JStr ''PASS''), (''replay_hash_a'', JLit ''7194399555081025895''),
       (''replay_hash_b'', JLit ''7194399555081025895''), (''deterministic'', JLit ''true''), (''selected'', JLit ''4''),
       (''filtered'', JLit ''0'')]) \<and>
     read_json gpu_pipeline_json = Some (JObj [(''status'', JStr ''BLOCKED_HARDWARE''), (''fail_closed'', JLit ''true''),
       (''physical_pass'', JLit ''false''), (''gpu_timings_present'', JLit ''false''),
       (''notes'', JStr ''CPU/GPU orchestration harness: GPU numeric path blocked on Apple M2'')])"
proof -
  let ?us = "timings clock 0 40" and ?replay = "replay_json (7194399555081025895, 7194399555081025895, True, 4, 0)"
  obtain r where r: "orchestrate_deadline ?us = Inr r" "dr_deadline_us r = 1000" "dr_slot_us r = 1000" "dr_mu r = 0"
    using orchestrate_deadline_ok by blast
  have len: "length ?us = 40" by (simp add: timings_def)
  then have ne: "?us \<noteq> []" by auto
  note e = evaluate_eq [OF r(1) [unfolded orchestrate_deadline_def] ne, unfolded r(2) len]
  have ranks: "has_rank ?us (dr_median r) (pct_rank 40 (50 / 100))" "has_rank ?us (dr_p95 r) (pct_rank 40 (95 / 100))"
    "has_rank ?us (dr_p99 r) (pct_rank 40 (99 / 100))" using e pct_has_rank [OF ne, unfolded len] by simp_all
  have m: "dr_misses r = int (length (filter (\<lambda>v. 1000 < v) ?us))" using e by simp
  have q: "dr_miss_ratio r = length (filter (\<lambda>v. 1000 < v) ?us) / 40" using e unfolding m by simp
  have zero: "show_int 0 = ''0''" by (simp add: show_int_def show_recorded)
  have report: "read_json (deadline_json r) = Some (JObj [(''status'', JStr ''PASS''), (''timing_source'', JStr ''cpu_synthetic''),
       (''gpu_claim'', JStr (''none '' @ dash @ '' NEVER claim GPU timing closure from CPU synthetic'')),
       (''mu'', JLit ''0''), (''slot_duration_us'', JLit ''1000''), (''deadline_us'', JLit ''1000''),
       (''median_us'', num (dr_median r)), (''p95_us'', num (dr_p95 r)), (''p99_us'', num (dr_p99 r)),
       (''deadline_misses'', JLit (show_int (int (length (filter (\<lambda>v. 1000 < v) ?us))))),
       (''miss_ratio'', num (length (filter (\<lambda>v. 1000 < v) ?us) / 40))])"
    by (simp only: read_deadline_json r(2-4) zero m q num_def show_thousand)
  have replay: "read_json ?replay = Some (JObj [(''status'', JStr ''PASS''), (''replay_hash_a'', JLit ''7194399555081025895''),
       (''replay_hash_b'', JLit ''7194399555081025895''), (''deterministic'', JLit ''true''), (''selected'', JLit ''4''),
       (''filtered'', JLit ''0'')])"
    by (simp only: read_replay_json show_recorded if_True)
  have gpu: "read_json gpu_pipeline_json = Some (JObj [(''status'', JStr ''BLOCKED_HARDWARE''), (''fail_closed'', JLit ''true''),
       (''physical_pass'', JLit ''false''), (''gpu_timings_present'', JLit ''false''),
       (''notes'', JStr ''CPU/GPU orchestration harness: GPU numeric path blocked on Apple M2'')])"
    by (simp add: read_json_def gpu_pipeline_json_def lexing)
  have "orchestrator_main fs outdir clock =
      (if fs_mkdir fs outdir
       then (saved fs (outdir @ ''/cpu_numerology_deadline.json'', deadline_json r) @ saved fs (outdir @ ''/scheduler_replay.json'', ?replay) @
         saved fs (outdir @ ''/gpu_pipeline.json'', gpu_pipeline_json), Inr ())
       else ([], Inl Filesystem_error))"
    by (simp only: orchestrator_main_def orchestrator_timings r(1) replay_hash stepping stream_out_def fst_conv snd_conv)
  with ranks report replay gpu show ?thesis unfolding Let_def by blast
qed

end
