(* ===== verification/Fuzz.thy ===== *)
theory Fuzz
  imports FapiJson
begin

text \<open>
  The fuzz driver \<open>fuzz/fuzz_fapi.cpp\<close>: a corpus of lines (built in, or the arguments of the program)
  is parsed and each message that parses is handled twice by a fresh session, exceptions being counted;
  then one session is configured, started and given a data request whose payload is not made of bits.
  \<open>fuzz_main\<close> returns the exit status with the count and the last session, which the program drops.
\<close>

section \<open>The code\<close>

definition corpus_line :: "string \<Rightarrow> string \<Rightarrow> string \<Rightarrow> string \<Rightarrow> string" where
  "corpus_line t sfn slot hdl =
     ''{'' @ quoted ''type'' @ '':'' @ quoted t @ '','' @ quoted ''sfn'' @ '':'' @ sfn @ '','' @ quoted ''slot'' @ '':'' @ slot @
     '','' @ quoted ''handle'' @ '':'' @ hdl @ ''}''"

definition fuzz_corpus :: "string list" where
  "fuzz_corpus =
     [corpus_line ''CONFIG_REQ'' ''0'' ''0'' ''1'', corpus_line ''START_REQ'' ''0'' ''0'' ''1'',
      corpus_line ''TX_DATA_REQ'' ''0'' ''0'' ''1'', corpus_line ''UL_TTI_REQ'' ''1'' ''3'' ''2'',
      corpus_line ''STOP_REQ'' ''0'' ''0'' ''1'', corpus_line ''NOT_A_TYPE'' ''0'' ''0'' ''1'',
      ''{corrupt'', '''']"

text \<open>One pass of the loop; both replies are discarded.\<close>

definition fuzz_line :: "int \<Rightarrow> string \<Rightarrow> int" where
  "fuzz_line errors line =
     (case fapi_from_json_line line of
        Inl e \<Rightarrow> errors + 1
      | Inr m \<Rightarrow> (case handle initial_session m of (s, _) \<Rightarrow> case handle s m of (_, _) \<Rightarrow> errors))"

definition fuzz_session :: fapi_session where
  "fuzz_session =
     (let s0 = fst (handle initial_session (default_message\<lparr>fm_type := CONFIG_REQ\<rparr>));
          s1 = fst (handle s0 (default_message\<lparr>fm_type := START_REQ\<rparr>))
      in fst (handle s1 (default_message\<lparr>fm_type := TX_DATA_REQ, fm_payload := [0, 1, 2, 3]\<rparr>)))"

definition fuzz_main :: "string list \<Rightarrow> int \<times> int \<times> fapi_session" where
  "fuzz_main args =
     (let corpus = (if args \<noteq> [] then args else fuzz_corpus);
          errors = foldl fuzz_line 0 corpus
      in (if errors \<ge> 0 then 0 else 1, errors, fuzz_session))"

section \<open>Lemmas\<close>

lemma fuzz_errors: "foldl fuzz_line k ls = k + int (length (filter (\<lambda>l. isl (fapi_from_json_line l)) ls))"
  by (induction ls arbitrary: k) (auto simp: fuzz_line_def split: sum.splits prod.splits)

lemma fuzz_session_eq: "fuzz_session = \<lparr>fs_state = Running, fs_slot_count = 1, fs_sfn = 0, fs_slot = 1\<rparr>"
  by (simp add: fuzz_session_def handle_defs initial_session_def default_message_def FAPI_MSG_VERSION_def Let_def)

text \<open>A request of the corpus parses, whatever its numbers.\<close>

lemma corpus_fields:
  fixes a b c :: nat and t :: fapi_msg_type
  defines "line \<equiv> corpus_line (type_name t) (show_nat a) (show_nat b) (show_nat c)"
  shows "get_field line ''version'' = []" "get_field line ''type'' = type_name t" "get_field line ''sfn'' = show_nat a"
    "get_field line ''slot'' = show_nat b" "get_field line ''handle'' = show_nat c"
proof -
  define h where "h = show_nat c @ ''}''"
  define l where "l = show_nat b @ '','' @ quoted ''handle'' @ '':'' @ h"
  define f where "f = show_nat a @ '','' @ quoted ''slot'' @ '':'' @ l"
  define r where "r = quoted (type_name t) @ '','' @ quoted ''sfn'' @ '':'' @ f"
  have line: "line = ''{'' @ quoted ''type'' @ '':'' @ r"
    by (simp add: line_def corpus_line_def r_def f_def l_def h_def)
  note d = find_sub_digits
  have r_skip: "find_sub (quote # x # xs) r = find_sub (quote # x # xs) (CHR '','' # quoted ''sfn'' @ '':'' @ f)"
    if "x \<in> {CHR ''s'', CHR ''h'', CHR ''v''}" for x xs
    using that unfolding r_def by (cases t) (auto simp: type_name_def quoted_def)
  have "find_sub ([quote] @ ''version'' @ [quote]) line = None"
    by (simp add: line quoted_def r_skip d f_def l_def h_def)
  then show "get_field line ''version'' = []" by (simp only: get_field_def option.case)
  show "get_field line ''type'' = type_name t"
    by (subst get_field_at [where rest = r]) (simp_all add: line quoted_def, simp add: r_def scan_quoted [OF type_name_chars])
  show "get_field line ''sfn'' = show_nat a"
    by (subst get_field_at [where rest = f])
      (simp_all add: line quoted_def d r_skip, simp add: f_def scan_number is_digit_def digits_def)
  show "get_field line ''slot'' = show_nat b"
    by (subst get_field_at [where rest = l])
      (simp_all add: line quoted_def d r_skip f_def, simp add: l_def scan_number is_digit_def digits_def)
  show "get_field line ''handle'' = show_nat c"
    by (subst get_field_at [where rest = h])
      (simp_all add: line quoted_def d r_skip f_def l_def, simp add: h_def scan_number is_digit_def digits_def)
qed

lemma corpus_parses:
  assumes "a \<le> 18446744073709551615" "b \<le> 18446744073709551615" "c \<le> 18446744073709551615"
  shows "\<exists>m. fapi_from_json_line (corpus_line (type_name t) (show_nat a) (show_nat b) (show_nat c)) = Inr m"
proof -
  note f = corpus_fields [of t a b c]
  have "get_number (corpus_line (type_name t) (show_nat a) (show_nat b) (show_nat c)) ''version'' d = Inr d" for d
    by (simp add: get_number_def f(1))
  then show ?thesis
    using get_number_printed [OF f(3) assms(1)] get_number_printed [OF f(4) assms(2)] get_number_printed [OF f(5) assms(3)]
    by (simp add: fapi_from_json_line_def f(2) parse_type_name)
qed

lemma corpus_digit: "show_nat 0 = ''0''" "show_nat 1 = ''1''" "show_nat 2 = ''2''" "show_nat 3 = ''3''"
  by (subst show_nat.simps, simp add: digits_def)+

lemma fuzz_requests:
  "\<not> isl (fapi_from_json_line (corpus_line ''CONFIG_REQ'' ''0'' ''0'' ''1''))"
  "\<not> isl (fapi_from_json_line (corpus_line ''START_REQ'' ''0'' ''0'' ''1''))"
  "\<not> isl (fapi_from_json_line (corpus_line ''TX_DATA_REQ'' ''0'' ''0'' ''1''))"
  "\<not> isl (fapi_from_json_line (corpus_line ''UL_TTI_REQ'' ''1'' ''3'' ''2''))"
  "\<not> isl (fapi_from_json_line (corpus_line ''STOP_REQ'' ''0'' ''0'' ''1''))"
  using corpus_parses [of 0 0 1 CONFIG_REQ] corpus_parses [of 0 0 1 START_REQ] corpus_parses [of 0 0 1 TX_DATA_REQ]
    corpus_parses [of 1 3 2 UL_TTI_REQ] corpus_parses [of 0 0 1 STOP_REQ]
  by (auto simp: corpus_digit corpus_digit(2) [unfolded One_nat_def] type_name_def)

lemma fuzz_malformed:
  "isl (fapi_from_json_line (corpus_line ''NOT_A_TYPE'' ''0'' ''0'' ''1''))"
  "isl (fapi_from_json_line ''{corrupt'')" "isl (fapi_from_json_line '''')"
  by (simp_all add: corpus_line_def fapi_from_json_line_def get_field_def quoted_def parse_type_def)

section \<open>Properties\<close>

text \<open>The driver cannot fail: its exit status is 0 for every list of arguments, whatever the parser and
  the session do with them, although it counts exactly the lines the parser rejects. The data request with a payload of
  bytes that are not bits is served.\<close>

theorem fuzz_never_fails:
  "fuzz_main args = (0, int (length (filter (\<lambda>l. isl (fapi_from_json_line l)) (if args = [] then fuzz_corpus else args))),
     \<lparr>fs_state = Running, fs_slot_count = 1, fs_sfn = 0, fs_slot = 1\<rparr>)"
  by (simp add: fuzz_main_def Let_def fuzz_errors fuzz_session_eq)

text \<open>Of the built-in corpus the three malformed lines are rejected; the five requests parse, and the ones
  that are out of sequence for a fresh session go unnoticed.\<close>

theorem fuzz_builtin_corpus: "fst (fuzz_main []) = 0 \<and> fst (snd (fuzz_main [])) = 3"
  using fuzz_requests fuzz_malformed by (simp add: fuzz_main_def Let_def fuzz_errors fuzz_corpus_def)

end
