(* ===== verification/Spec2Isabelle.thy ===== *)
theory Spec2Isabelle
  imports CodeFamily Metrics FapiJson Scheduler Deadline Harq LayerMapping Dmrs Mimo Fronthaul CudaKernels BinaryPam ShortLdpc BerCampaign Waveform Reports Fuzz
begin

text \<open>
  A verification development for the GPU NR baseband platform: the C++ library \<open>nr_bb\<close> under
  \<open>src/\<close> and \<open>include/nr_bb\<close>, its educational companions under \<open>educational/\<close> and the CUDA kernels
  under \<open>cuda/\<close>. The program is a 5G uplink reference path: a transport block gets a checksum, is cut
  into code blocks, encoded with a quasi-cyclic LDPC code, rate matched, scrambled, mapped to QAM symbols
  and layers, sent as OFDM through a channel model, equalised, and decoded with soft values that HARQ
  combines over retransmissions. Around it are a MAC scheduler, a FAPI-like session with a line format, a
  fronthaul emulator, link metrics and a deadline report.

  \<^bold>\<open>Conventions\<close> (theories \<open>Prelude\<close>, \<open>CInt\<close>, \<open>Dbl\<close>). The program throws; here an operation returns
  \<open>exn + 'a\<close>, an \<open>Inl\<close> for every \<open>require\<close>, exception of the standard library and undefined behaviour the
  code can reach (\<open>Undefined\<close>), so that a theorem which says \<open>Inr\<close> says that nothing of that kind
  happens. Bits are bytes (\<open>8 word\<close>), so that the checks for 0 and 1 mean something; fixed-width unsigned
  integers are words; \<open>int\<close> is \<open>int\<close> with overflow as \<open>Undefined\<close> where the operands are not bounded by
  the guards before; \<open>std::size_t\<close> is \<open>nat\<close>. Floating-point numbers are exact reals and complex numbers:
  rounding is not modelled, and the theorems on samples are about the algorithms, not about the last bit.
  Where the code uses infinity or can meet NaN (soft demapping, min-sum), the numbers are \<open>dbl\<close>, reals
  with infinities and NaN. Mutable vectors are lists updated by index; loops that fill a vector are folds
  of a step function in the order of the code, loops with data-dependent exits are recursive functions with
  a termination proof, so every operation of the program is total without fuel (fuel appears only in the
  printer and the reader of numbers and JSON in \<open>Json\<close>, where the exponents of a \<open>double\<close> and the number of
  tokens bound it).

  \<^bold>\<open>Parts\<close>, in the order of the transmission.

  \<^item> \<open>Crc\<close> (\<open>src/crc.cpp\<close>): the five checksums on a 32-bit register. A locale on the shift register
    carries the linearity; the properties say which words pass and that short bursts never do.
  \<^item> \<open>Segmentation\<close> (\<open>src/segmentation.cpp\<close>): number of blocks, block plans, concatenation. Termination
    and value of the refinement loop, round trip, the exact condition of success.
  \<^item> \<open>LdpcTables\<close>, \<open>LdpcShape\<close>, \<open>LdpcGraph\<close>, \<open>Gf2\<close>, \<open>LdpcEncode\<close>, \<open>LdpcTotal\<close>, \<open>LdpcDecode\<close>
    (\<open>include/nr_bb/ldpc_bg_tables.hpp\<close>, \<open>src/ldpc.cpp\<close>): both base graphs entry by entry, selection of
    graph and lifting size, the lifted matrix, Gauss-Jordan encoding, min-sum decoding. \<open>Gf2\<close> is the
    algebra of parities, \<open>LdpcShape\<close> evaluates the dual-diagonal shape of the tables once, and
    \<open>LdpcTotal\<close> derives from it that the encoder never meets a singular matrix. \<open>Erasures\<close> relates the
    messages of the decoder to peeling and shows that it corrects every erasure pattern that peeling
    resolves; \<open>Puncture\<close> evaluates on the tables why the two punctured columns are such a pattern.
    \<open>ErrorCorrection\<close> shows which wrong values one iteration outvotes, and \<open>ShortCycles\<close> evaluates that
    the graphs of the large lifting sizes have no cycle of length 4, so that every single error is.
    \<open>CodeFamily\<close> states what a user of a code relies on as the locale \<open>code_family\<close> (and
    \<open>simple_code_family\<close>, which extends it), proves its clients once and interprets it on the standard
    code and on the compact code of \<open>educational/\<close>.
  \<^item> \<open>RateMatching\<close> (\<open>src/rate_matching.cpp\<close>), \<open>Scrambling\<close> (\<open>src/scrambling.cpp\<close>), \<open>Llr\<close>
    (\<open>src/llr.cpp\<close>), \<open>LayerMapping\<close> (\<open>src/layer_mapping.cpp\<close>): the circular buffer both ways, the Gold
    sequence against its recurrences, conversions and combining of soft values, layers.
  \<^item> \<open>Modulation\<close> (\<open>src/modulation.cpp\<close>): constellations, mapping, hard and max-log demapping. The locale
    \<open>amplitude_code\<close> is what a demapper needs of the bit-to-level map; it is interpreted on the Gray map
    here and on the binary map of \<open>BinaryPam\<close>.
  \<^item> \<open>Dft\<close>, \<open>Fft\<close>, \<open>Ofdm\<close> (\<open>educational/src/naive_dft.cpp\<close>, \<open>src/fft.cpp\<close>, \<open>src/ofdm.cpp\<close>): the
    in-place radix-2 transform computes the quadratic one; a delay inside the prefix is a phase per tone.
  \<^item> \<open>Channel\<close>, \<open>ChannelEstimation\<close>, \<open>Dmrs\<close>, \<open>Matrix\<close>, \<open>Pivoting\<close>, \<open>Equalizer\<close>, \<open>Mimo\<close> (the files of the
    same names under \<open>src/\<close>; the matrices are in \<open>src/equalizer.cpp\<close>): scalar and MIMO channel, pilots,
    interpolation, tone equalisers, inversion with partial pivoting and the regularised least-squares solver
    built on it. \<open>Pivoting\<close> bounds every pivot from below by the least energy of the matrix, so that the
    test against \<open>1e-14\<close> fires on no system whose least gain with the regularisation is above \<open>2e-14\<close>; \<open>Mimo\<close>
    bounds the error of zero forcing by the energy of the noise over that gain.
  \<^item> \<open>Harq\<close> (\<open>src/harq.cpp\<close>), \<open>Metrics\<close> (\<open>src/metrics.cpp\<close>), \<open>BerCampaign\<close> (\<open>src/ber_campaign.cpp\<close>),
    \<open>Deadline\<close> (\<open>src/deadline.cpp\<close>): the table of soft buffers over any sequence of operations, counters,
    the simulation campaign and the errors it counts, percentiles by their rank among the samples, and misses.
  \<^item> \<open>Scheduler\<close> (\<open>src/scheduler.cpp\<close>): filter, ranking, packing and the replay hash. The metric is
    an operation that can fail (\<open>composite_metric\<close>, whose subtraction can overflow); \<open>schedule\<close> evaluates it for every
    user that passes and then works with the values (\<open>metric\<close>).
  \<^item> \<open>Fapi\<close>, \<open>FapiJson\<close> (\<open>src/fapi.cpp\<close>): the session, with an inductive protocol relation it refines and
    the reachable sessions; the field scanner and printer of the line format on character lists.
  \<^item> \<open>Fronthaul\<close> (\<open>src/fronthaul.cpp\<close>): packets, impairments, the bytes of the capture file.
  \<^item> \<open>CudaKernels\<close> (\<open>cuda/*.cu\<close>, \<open>src/cuda_cpu_ref.cpp\<close>): a kernel is the effect of one thread, a launch
    runs the threads of the grid in any order. The locale \<open>commuting_threads\<close> shows that the order does
    not matter; \<open>cell_threads\<close>, \<open>iq_threads\<close> and \<open>pair_threads\<close> are its three ways to be satisfied, and
    every kernel is an interpretation of one of them.
  \<^item> \<open>ShortLdpc\<close>, \<open>CompactLdpc\<close>, \<open>BinaryPam\<close> (\<open>educational/\<close>): the teaching versions. The compact code is
    connected to the main one by a translation of its graphs.
  \<^item> \<open>Benchmarks\<close>, \<open>Reports\<close> (\<open>benchmarks/*.cpp\<close>), \<open>Fuzz\<close> (\<open>fuzz/fuzz_fapi.cpp\<close>): the statistics of the
    harness against the deadline report, the workloads and what they return, the computations the studies
    compare, the three programs as functions of the clock and the file system whose outcome is the list of the
    files they leave and the way they end; the fuzz driver and its exit status. \<open>Json\<close> is the printing of numbers by the standard library and a reader
    of JSON, the specification of the files.
  \<^item> \<open>GoldenVectors\<close> (\<open>vectors/\<close>): the words and symbols recorded in the repository are what the definitions
    compute, as is the recorded hash of the scheduler replay in \<open>Reports\<close>.
  \<^item> \<open>Link\<close>: properties that run several components in sequence, from payload to payload through the bit
    chain, from several redundancy versions through HARQ into the decoder, and from segmentation into the encoder.
    \<open>Waveform\<close> does the same from bits to bits through OFDM, the noisy channel, estimation and equalisation.

  \<^bold>\<open>Parameters\<close>. The values the standard library's random distributions produce are
  implementation-defined; the channel, the fronthaul and the campaign take them as functions, with the
  documented range of the uniform draws as the only hypothesis on a generator. The properties of the noisy links are about runs
  whose normal draws stay within a bound, or bound the result by the draws. The clock of the benchmark programs is a function of the number of
  its readings. What the file system does with a directory or an output stream is a parameter of these programs. The order in which a GPU runs threads is a parameter, too.

  \<^bold>\<open>Not modelled\<close>. The Python package, the tests and the build scripts. Rounding of floating-point arithmetic, memory layout and running time.
  The conversions of a \<open>size_t\<close> index to \<open>int\<close> in \<open>modulate\<close> and \<open>ldpc_encode\<close> and the \<open>int\<close> sizes and indices of the
  kernels are taken as exact, which they are below \<open>2 ^ 30\<close> elements. Kernels are atomic
  per thread; no kernel reads a cell another thread writes, so a finer interleaving has the same result.
\<close>

end
